(* ===== verification/Prelude.thy ===== *)
theory Prelude
  imports Main "HOL-Library.Word"
begin

text \<open>
  Shared vocabulary of the development: Rust results as sums, the checked and saturating
  operations of the fixed-width integers the planner uses, short-circuiting traversals
  (\<^verbatim>\<open>collect::<Option<_>>\<close>, \<^verbatim>\<open>collect::<Result<_>>\<close>), traversals that thread a mutable state (a
  cache captured by a closure), and the generic lemmas about them that the components share.
\<close>

named_theorems width_simps \<open>definitions of the fixed-width integer operations\<close>
named_theorems result_simps \<open>unfolding of the error plumbing\<close>

section \<open>Results\<close>

text \<open>\<^verbatim>\<open>Result<T, E>\<close> is the sum \<open>'e + 'a\<close>: \<open>Err\<close> on the left, \<open>Ok\<close> on the right.\<close>

abbreviation Err :: "'e \<Rightarrow> 'e + 'a" where "Err \<equiv> Inl"
abbreviation Ok :: "'a \<Rightarrow> 'e + 'a" where "Ok \<equiv> Inr"

definition bind_result :: "'e + 'a \<Rightarrow> ('a \<Rightarrow> 'e + 'b) \<Rightarrow> 'e + 'b" where
  "bind_result r f = (case r of Inl e \<Rightarrow> Inl e | Inr a \<Rightarrow> f a)"

lemma bind_result_simps [simp]:
  "bind_result (Inl e) f = Inl e"
  "bind_result (Inr a) f = f a"
  by (simp_all add: bind_result_def)

lemma bind_result_eq_Inr [simp]:
  "bind_result r f = Inr b \<longleftrightarrow> (\<exists>a. r = Inr a \<and> f a = Inr b)"
  by (cases r) auto

lemma bind_result_cong [fundef_cong]:
  "r = r' \<Longrightarrow> (\<And>a. r' = Inr a \<Longrightarrow> f a = g a) \<Longrightarrow> bind_result r f = bind_result r' g"
  by (cases r') auto

definition is_ok :: "'e + 'a \<Rightarrow> bool" where
  "is_ok r \<longleftrightarrow> (case r of Inl _ \<Rightarrow> False | Inr _ \<Rightarrow> True)"

lemma is_ok_simps [simp]: "is_ok (Inr a)" "\<not> is_ok (Inl e)"
  by (simp_all add: is_ok_def)

text \<open>\<^verbatim>\<open>Option::ok_or\<close>.\<close>

definition ok_or :: "'e \<Rightarrow> 'a option \<Rightarrow> 'e + 'a" where
  "ok_or e x = (case x of None \<Rightarrow> Inl e | Some a \<Rightarrow> Inr a)"

lemma ok_or_simps [simp]:
  "ok_or e None = Inl e" "ok_or e (Some a) = Inr a"
  "(ok_or e x = Inr b) = (x = Some b)"
  by (simp_all add: ok_or_def split: option.splits)

section \<open>Fixed-width integers\<close>

text \<open>
  Values of type \<^verbatim>\<open>u32\<close>, \<^verbatim>\<open>u64\<close> and \<^verbatim>\<open>usize\<close> are \<open>nat\<close>, values of type \<^verbatim>\<open>i64\<close> are \<open>int\<close>; every
  operation that can leave the width says so.
\<close>

definition u32_max :: nat where "u32_max = 2 ^ 32 - 1"
definition u64_max :: nat where "u64_max = 2 ^ 64 - 1"
definition i64_min :: int where "i64_min = - (2 ^ 63)"
definition i64_max :: int where "i64_max = 2 ^ 63 - 1"

definition in_i64 :: "int \<Rightarrow> bool" where
  "in_i64 x \<longleftrightarrow> i64_min \<le> x \<and> x \<le> i64_max"

definition checked_add_u64 :: "nat \<Rightarrow> nat \<Rightarrow> nat option" where
  "checked_add_u64 a b = (if a + b \<le> u64_max then Some (a + b) else None)"

definition checked_mul_u64 :: "nat \<Rightarrow> nat \<Rightarrow> nat option" where
  "checked_mul_u64 a b = (if a * b \<le> u64_max then Some (a * b) else None)"

definition saturating_add_u64 :: "nat \<Rightarrow> nat \<Rightarrow> nat" where
  "saturating_add_u64 a b = min (a + b) u64_max"

definition saturating_mul_u64 :: "nat \<Rightarrow> nat \<Rightarrow> nat" where
  "saturating_mul_u64 a b = min (a * b) u64_max"

definition checked_add_i64 :: "int \<Rightarrow> int \<Rightarrow> int option" where
  "checked_add_i64 a b = (if in_i64 (a + b) then Some (a + b) else None)"

definition checked_sub_i64 :: "int \<Rightarrow> int \<Rightarrow> int option" where
  "checked_sub_i64 a b = (if in_i64 (a - b) then Some (a - b) else None)"

text \<open>\<^verbatim>\<open>i64::try_from(u64)\<close>.\<close>

definition i64_try_from_u64 :: "nat \<Rightarrow> int option" where
  "i64_try_from_u64 n = (if int n \<le> i64_max then Some (int n) else None)"

lemmas width_defs [width_simps] =
  u32_max_def u64_max_def i64_min_def i64_max_def in_i64_def
  checked_add_u64_def checked_mul_u64_def saturating_add_u64_def saturating_mul_u64_def
  checked_add_i64_def checked_sub_i64_def i64_try_from_u64_def

lemma checked_mul_u64_Some:
  "checked_mul_u64 a b = Some c \<longleftrightarrow> c = a * b \<and> a * b \<le> u64_max"
  by (auto simp: checked_mul_u64_def)

lemma i64_try_from_u64_Some:
  "i64_try_from_u64 n = Some i \<longleftrightarrow> i = int n \<and> int n \<le> i64_max"
  by (auto simp: i64_try_from_u64_def)

section \<open>Short-circuiting traversals\<close>

text \<open>\<^verbatim>\<open>iter().map(f).collect::<Option<Vec<_>>>()\<close>.\<close>

fun collect_option :: "('a \<Rightarrow> 'b option) \<Rightarrow> 'a list \<Rightarrow> 'b list option" where
  "collect_option f [] = Some []"
| "collect_option f (x # xs) =
     (case f x of None \<Rightarrow> None
      | Some y \<Rightarrow> map_option ((#) y) (collect_option f xs))"

text \<open>\<^verbatim>\<open>iter().map(f).collect::<Result<Vec<_>, _>>()\<close>: the first error is returned.\<close>

fun collect_result :: "('a \<Rightarrow> 'e + 'b) \<Rightarrow> 'a list \<Rightarrow> 'e + 'b list" where
  "collect_result f [] = Inr []"
| "collect_result f (x # xs) =
     bind_result (f x) (\<lambda>y. bind_result (collect_result f xs) (\<lambda>ys. Inr (y # ys)))"

lemma collect_option_Some:
  "collect_option f xs = Some ys \<longleftrightarrow> length ys = length xs \<and> list_all2 (\<lambda>x y. f x = Some y) xs ys"
proof (induction xs arbitrary: ys)
  case Nil
  then show ?case by auto
next
  case (Cons x xs)
  then show ?case
    by (cases ys) (auto split: option.splits)
qed

lemma collect_option_cong [fundef_cong]:
  "xs = ys \<Longrightarrow> (\<And>x. x \<in> set ys \<Longrightarrow> f x = g x) \<Longrightarrow> collect_option f xs = collect_option g ys"
proof (induction xs arbitrary: ys)
  case Nil
  then show ?case by simp
next
  case (Cons x xs)
  then show ?case by (cases ys) (auto split: option.splits)
qed

lemma collect_result_cong [fundef_cong]:
  "xs = ys \<Longrightarrow> (\<And>x. x \<in> set ys \<Longrightarrow> f x = g x) \<Longrightarrow> collect_result f xs = collect_result g ys"
proof (induction xs arbitrary: ys)
  case Nil
  then show ?case by simp
next
  case (Cons x xs)
  then show ?case
    by (cases ys) (auto intro!: arg_cong2[where f = bind_result])
qed

section \<open>Traversals that thread a state\<close>

text \<open>
  A closure that mutates what it captures (\<^verbatim>\<open>&mut cache\<close>) is a function \<open>'s \<Rightarrow> 'a \<times> 's\<close>.
  \<open>map_st\<close> is \<^verbatim>\<open>iter().map(f).collect()\<close> with such an \<open>f\<close>; \<open>any_st\<close> is \<^verbatim>\<open>iter().any(f)\<close>, which stops
  at the first hit and so leaves the state of the elements behind it untouched.
\<close>

fun map_st :: "('a \<Rightarrow> 's \<Rightarrow> 'b \<times> 's) \<Rightarrow> 'a list \<Rightarrow> 's \<Rightarrow> 'b list \<times> 's" where
  "map_st f [] s = ([], s)"
| "map_st f (x # xs) s =
     (case f x s of (y, s1) \<Rightarrow> (case map_st f xs s1 of (ys, s2) \<Rightarrow> (y # ys, s2)))"

fun any_st :: "('a \<Rightarrow> 's \<Rightarrow> bool \<times> 's) \<Rightarrow> 'a list \<Rightarrow> 's \<Rightarrow> bool \<times> 's" where
  "any_st f [] s = (False, s)"
| "any_st f (x # xs) s =
     (case f x s of (hit, s1) \<Rightarrow> if hit then (True, s1) else any_st f xs s1)"

lemma map_st_cong [fundef_cong]:
  assumes "xs = ys" and "s = t" and "\<And>x s. x \<in> set ys \<Longrightarrow> f x s = g x s"
  shows "map_st f xs s = map_st g ys t"
proof -
  have "(\<And>x s. x \<in> set ys \<Longrightarrow> f x s = g x s) \<Longrightarrow> map_st f ys t = map_st g ys t" for ys t
    by (induction ys arbitrary: t) (simp_all split: prod.splits)
  with assms show ?thesis by blast
qed

lemma any_st_cong [fundef_cong]:
  assumes "xs = ys" and "s = t" and "\<And>x s. x \<in> set ys \<Longrightarrow> f x s = g x s"
  shows "any_st f xs s = any_st g ys t"
proof -
  have "(\<And>x s. x \<in> set ys \<Longrightarrow> f x s = g x s) \<Longrightarrow> any_st f ys t = any_st g ys t" for ys t
    by (induction ys arbitrary: t) (simp_all split: prod.splits)
  with assms show ?thesis by blast
qed

lemma map_st_append:
  "map_st f (xs @ ys) s =
     (case map_st f xs s of (us, s1) \<Rightarrow> case map_st f ys s1 of (vs, s2) \<Rightarrow> (us @ vs, s2))"
  by (induction xs arbitrary: s) (auto split: prod.splits)

text \<open>
  The same closures composed by hand: \<open>bind_st\<close> runs one and hands its value and state on. The
  combinators below run a list, an option and a pair of suspended closures in order.
\<close>

definition return_st :: "'a \<Rightarrow> 's \<Rightarrow> 'a \<times> 's" where
  "return_st a s = (a, s)"

definition bind_st :: "('s \<Rightarrow> 'a \<times> 's) \<Rightarrow> ('a \<Rightarrow> 's \<Rightarrow> 'b \<times> 's) \<Rightarrow> 's \<Rightarrow> 'b \<times> 's" where
  "bind_st m k s = (case m s of (a, s1) \<Rightarrow> k a s1)"

fun seq_st :: "('s \<Rightarrow> 'a \<times> 's) list \<Rightarrow> 's \<Rightarrow> 'a list \<times> 's" where
  "seq_st [] = return_st []"
| "seq_st (m # ms) = bind_st m (\<lambda>a. bind_st (seq_st ms) (\<lambda>as. return_st (a # as)))"

fun opt_st :: "('s \<Rightarrow> 'a \<times> 's) option \<Rightarrow> 's \<Rightarrow> 'a option \<times> 's" where
  "opt_st None = return_st None"
| "opt_st (Some m) = bind_st m (\<lambda>a. return_st (Some a))"

fun pair_st :: "('s \<Rightarrow> 'a \<times> 's) \<times> ('s \<Rightarrow> 'b \<times> 's) \<Rightarrow> 's \<Rightarrow> ('a \<times> 'b) \<times> 's" where
  "pair_st (m, n) = bind_st m (\<lambda>a. bind_st n (\<lambda>b. return_st (a, b)))"

lemma return_st_apply [simp]: "return_st a s = (a, s)"
  by (simp add: return_st_def)

lemma seq_st_map: "seq_st (map f xs) s = map_st f xs s"
  by (induction xs arbitrary: s) (auto simp: bind_st_def split: prod.splits)

section \<open>Lists\<close>

text \<open>\<^verbatim>\<open>iter().position(p)\<close> and \<^verbatim>\<open>slice.get(i)\<close>.\<close>

fun position :: "('a \<Rightarrow> bool) \<Rightarrow> 'a list \<Rightarrow> nat option" where
  "position p [] = None"
| "position p (x # xs) = (if p x then Some 0 else map_option Suc (position p xs))"

definition get :: "'a list \<Rightarrow> nat \<Rightarrow> 'a option" where
  "get xs i = (if i < length xs then Some (xs ! i) else None)"

lemma get_Some: "get xs i = Some x \<longleftrightarrow> i < length xs \<and> xs ! i = x"
  by (auto simp: get_def)

lemma position_Some:
  "position p xs = Some i \<longleftrightarrow> i < length xs \<and> p (xs ! i) \<and> (\<forall>j < i. \<not> p (xs ! j))"
proof (induction xs arbitrary: i)
  case Nil
  then show ?case by simp
next
  case (Cons x xs)
  show ?case
    by (cases i) (auto simp: Cons.IH less_Suc_eq_0_disj)
qed

lemma distinct_singleton: "distinct xs \<Longrightarrow> xs = [x] \<longleftrightarrow> set xs = {x}"
  by (cases xs rule: remdups_adj.cases) auto

text \<open>\<^verbatim>\<open>std::cmp::Ordering\<close>, with \<^verbatim>\<open>Ord::cmp\<close>, \<^verbatim>\<open>reverse\<close> and \<^verbatim>\<open>then\<close>.\<close>

datatype ordering = Less | Equal | Greater

definition cmp :: "'a::linorder \<Rightarrow> 'a \<Rightarrow> ordering" where
  "cmp a b = (if a < b then Less else if a = b then Equal else Greater)"

fun reverse_ordering :: "ordering \<Rightarrow> ordering" where
  "reverse_ordering Less = Greater"
| "reverse_ordering Equal = Equal"
| "reverse_ordering Greater = Less"

definition then_ordering :: "ordering \<Rightarrow> ordering \<Rightarrow> ordering" where
  "then_ordering a b = (if a = Equal then b else a)"

text \<open>\<^verbatim>\<open>xs.first()\<close>.\<close>

definition first :: "'a list \<Rightarrow> 'a option" where
  "first xs = (case xs of [] \<Rightarrow> None | x # _ \<Rightarrow> Some x)"

lemma first_simps [simp]: "first [] = None" "first (x # xs) = Some x"
  by (simp_all add: first_def)

lemma first_Some: "first xs = Some x \<Longrightarrow> x \<in> set xs"
  by (cases xs) auto

end
