(* ===== verification/F64.thy ===== *)
theory F64
  imports Prelude
begin

text \<open>
  The \<^verbatim>\<open>f64\<close> of the source as its bit pattern (\<^verbatim>\<open>f64::to_bits\<close>, IEEE-754 binary64): the
  classification, \<^verbatim>\<open>==\<close>, \<^verbatim>\<open><\<close> and \<^verbatim>\<open>total_cmp\<close> of the standard library, read off the sign bit and
  the magnitude (the other 63 bits), whose order is the order of the absolute values.
\<close>

datatype f64 = F64 (to_bits: "64 word")

definition f64_sign :: "f64 \<Rightarrow> bool" where
  "f64_sign x \<longleftrightarrow> 2 ^ 63 \<le> unat (to_bits x)"

definition f64_mag :: "f64 \<Rightarrow> nat" where
  "f64_mag x = unat (to_bits x) mod 2 ^ 63"

text \<open>The magnitude of infinity, \<^verbatim>\<open>0x7FF0_0000_0000_0000\<close>.\<close>

definition inf_mag :: nat where "inf_mag = 9218868437227405312"

definition is_nan :: "f64 \<Rightarrow> bool" where
  "is_nan x \<longleftrightarrow> inf_mag < f64_mag x"

definition is_infinite :: "f64 \<Rightarrow> bool" where
  "is_infinite x \<longleftrightarrow> f64_mag x = inf_mag"

definition is_finite :: "f64 \<Rightarrow> bool" where
  "is_finite x \<longleftrightarrow> f64_mag x < inf_mag"

definition is_zero_f64 :: "f64 \<Rightarrow> bool" where
  "is_zero_f64 x \<longleftrightarrow> f64_mag x = 0"

text \<open>The place of a number on the real line: its magnitude, negated under the sign bit.\<close>

definition f64_key :: "f64 \<Rightarrow> int" where
  "f64_key x = (if f64_sign x then - int (f64_mag x) else int (f64_mag x))"

text \<open>\<^verbatim>\<open>PartialEq\<close> and \<^verbatim>\<open>PartialOrd\<close>: NaN is unordered, the two zeros are equal.\<close>

definition f64_eq :: "f64 \<Rightarrow> f64 \<Rightarrow> bool" where
  "f64_eq x y \<longleftrightarrow> \<not> is_nan x \<and> \<not> is_nan y \<and> f64_key x = f64_key y"

definition f64_less :: "f64 \<Rightarrow> f64 \<Rightarrow> bool" where
  "f64_less x y \<longleftrightarrow> \<not> is_nan x \<and> \<not> is_nan y \<and> f64_key x < f64_key y"

definition f64_le :: "f64 \<Rightarrow> f64 \<Rightarrow> bool" where
  "f64_le x y \<longleftrightarrow> \<not> is_nan x \<and> \<not> is_nan y \<and> f64_key x \<le> f64_key y"

text \<open>
  \<^verbatim>\<open>f64::total_cmp\<close>: the bits compared as a signed integer, the magnitude bits of a negative
  number flipped.
\<close>

definition f64_total_key :: "f64 \<Rightarrow> int" where
  "f64_total_key x = (if f64_sign x then - int (f64_mag x) - 1 else int (f64_mag x))"

definition f64_total_cmp :: "f64 \<Rightarrow> f64 \<Rightarrow> ordering" where
  "f64_total_cmp x y = cmp (f64_total_key x) (f64_total_key y)"

text \<open>Constants: \<^verbatim>\<open>0.0\<close>, \<^verbatim>\<open>-0.0\<close>, \<^verbatim>\<open>1.0\<close>, \<^verbatim>\<open>f64::NAN\<close> and \<^verbatim>\<open>f64::INFINITY\<close>.\<close>

definition f64_zero :: f64 where "f64_zero = F64 0"
definition f64_neg_zero :: f64 where "f64_neg_zero = F64 9223372036854775808"
definition f64_one :: f64 where "f64_one = F64 4607182418800017408"
definition f64_nan :: f64 where "f64_nan = F64 9221120237041090560"
definition f64_infinity :: f64 where "f64_infinity = F64 9218868437227405312"

lemmas f64_classes = is_nan_def is_infinite_def is_finite_def is_zero_f64_def inf_mag_def

lemmas f64_consts =
  f64_zero_def f64_neg_zero_def f64_one_def f64_nan_def f64_infinity_def

lemma f64_mag_bound: "f64_mag x < 2 ^ 63"
  by (simp add: f64_mag_def)

lemma unat_to_bits: "unat (to_bits x) = (if f64_sign x then 2 ^ 63 else 0) + f64_mag x"
proof -
  have "unat (to_bits x) < 2 ^ 64"
    using unsigned_less[of "to_bits x"] by simp
  then show ?thesis
    by (auto simp: f64_sign_def f64_mag_def mod_if)
qed

lemma f64_eqI: "f64_sign x = f64_sign y \<Longrightarrow> f64_mag x = f64_mag y \<Longrightarrow> x = y"
  by (metis f64.expand unat_to_bits unsigned_word_eqI)

lemma f64_total_key_inj: "f64_total_key x = f64_total_key y \<longleftrightarrow> x = y"
  by (auto simp: f64_total_key_def intro: f64_eqI split: if_splits)

lemma f64_total_cmp_Equal: "f64_total_cmp x y = Equal \<longleftrightarrow> x = y"
  by (auto simp: f64_total_cmp_def cmp_def f64_total_key_inj)

text \<open>Two numbers are \<^verbatim>\<open>==\<close> exactly when they are one bit pattern or both zeros.\<close>

lemma f64_eq_iff:
  "f64_eq x y \<longleftrightarrow> \<not> is_nan x \<and> \<not> is_nan y \<and> (x = y \<or> is_zero_f64 x \<and> is_zero_f64 y)"
  by (auto simp: f64_eq_def f64_key_def is_zero_f64_def intro: f64_eqI split: if_splits)

lemma f64_eq_sym: "f64_eq x y \<longleftrightarrow> f64_eq y x"
  by (auto simp: f64_eq_def)

lemma f64_eq_trans: "f64_eq x y \<Longrightarrow> f64_eq y z \<Longrightarrow> f64_eq x z"
  by (auto simp: f64_eq_def)

lemma f64_le_trans: "f64_le x y \<Longrightarrow> f64_le y z \<Longrightarrow> f64_le x z"
  by (auto simp: f64_le_def)

lemma f64_eq_refl: "f64_eq x x \<longleftrightarrow> \<not> is_nan x"
  by (simp add: f64_eq_def)

lemma f64_key_total_key: "f64_total_key x < f64_total_key y \<Longrightarrow> f64_key x \<le> f64_key y"
  by (auto simp: f64_total_key_def f64_key_def split: if_splits)

lemma f64_const_classes [simp]:
  "f64_sign f64_zero = False" "f64_mag f64_zero = 0"
  "f64_sign f64_neg_zero" "f64_mag f64_neg_zero = 0"
  "is_nan f64_nan" "is_infinite f64_infinity" "is_finite f64_one"
  by (simp_all add: f64_consts f64_sign_def f64_mag_def f64_classes)

end
