(* ===== verification/Sketch.thy ===== *)
theory Sketch
  imports F64
begin

text \<open>
  Summary families (\<^verbatim>\<open>crates/types/src/ir/schema/sketch.rs\<close>): the kinds and parameters of exact
  accumulators, sketches, samples, wavelets and statistical models, the grouping strategy, the
  update a summary applies per row with the domain of its weights, and the statistics read from a
  state. A column reference (\<^verbatim>\<open>ir/scalar/expr_ir.rs\<close>) is the name-based form an update carries.

  \<^verbatim>\<open>SketchAlgorithm\<close> is the family enum of the library \<^verbatim>\<open>asap_sketchlib\<close>: \<open>sketch_algorithm\<close> has the
  families the planner's source names with parameters or as a Hydra, and \<open>OtherAlgorithm\<close> for the
  rest. What a family can do is the library's table, a parameter of the model (theory
  \<open>Capability\<close>).
\<close>

section \<open>Column references\<close>

datatype column_ref =
    Named string
  | Qualified string string
  | SampleValue
  | Wildcard

section \<open>Exact accumulators\<close>

datatype exact_kind =
    SumKind | CountKind | MinKind | MaxKind | IncreaseKind | RateKind | IRateKind

datatype exact_params =
    SumParams | CountParams | MinParams | MaxParams | IncreaseParams | RateParams | IRateParams

section \<open>Sketches\<close>

datatype sketch_algorithm =
    UnivMonAlgorithm | KllAlgorithm | CmsAlgorithm | HllAlgorithm | DDSketchAlgorithm
  | CmsWithHeapAlgorithm | KmvAlgorithm | CountSketchAlgorithm | CountSketchWithHeapAlgorithm
  | HydraKllAlgorithm | HydraCmsAlgorithm | HydraCountSketchAlgorithm
  | OtherAlgorithm string

datatype sketch_params =
    UnivMon nat nat nat nat "f64 option" \<comment> \<open>heap size, rows, columns, layers, distinct failure probability\<close>
  | Kll nat "f64 option" \<comment> \<open>\<^verbatim>\<open>k\<close>, failure probability\<close>
  | Cms nat nat \<comment> \<open>width, depth\<close>
  | Hll nat "f64 option" \<comment> \<open>precision, relative error\<close>
  | DDSketch f64
  | CmsWithHeap nat nat nat \<comment> \<open>width, depth, heap size\<close>
  | Kmv nat "f64 option" \<comment> \<open>\<^verbatim>\<open>k\<close>, relative error\<close>
  | CountSketch nat nat
  | CountSketchWithHeap nat nat nat

text \<open>\<^verbatim>\<open>PartialEq for SketchParams\<close>: what a sketch was sized for is ignored.\<close>

definition sketch_params_eq :: "sketch_params \<Rightarrow> sketch_params \<Rightarrow> bool" where
  "sketch_params_eq a b =
     (case a of
        Kll k _ \<Rightarrow> (case b of Kll k' _ \<Rightarrow> k = k' | _ \<Rightarrow> False)
      | UnivMon a0 a1 a2 a3 _ \<Rightarrow>
          (case b of UnivMon b0 b1 b2 b3 _ \<Rightarrow> (a0, a1, a2, a3) = (b0, b1, b2, b3) | _ \<Rightarrow> False)
      | Cms a0 a1 \<Rightarrow> (case b of Cms b0 b1 \<Rightarrow> (a0, a1) = (b0, b1) | _ \<Rightarrow> False)
      | CountSketch a0 a1 \<Rightarrow> (case b of CountSketch b0 b1 \<Rightarrow> (a0, a1) = (b0, b1) | _ \<Rightarrow> False)
      | CmsWithHeap a0 a1 a2 \<Rightarrow>
          (case b of CmsWithHeap b0 b1 b2 \<Rightarrow> (a0, a1, a2) = (b0, b1, b2) | _ \<Rightarrow> False)
      | CountSketchWithHeap a0 a1 a2 \<Rightarrow>
          (case b of CountSketchWithHeap b0 b1 b2 \<Rightarrow> (a0, a1, a2) = (b0, b1, b2) | _ \<Rightarrow> False)
      | Hll p _ \<Rightarrow> (case b of Hll p' _ \<Rightarrow> p = p' | _ \<Rightarrow> False)
      | DDSketch x \<Rightarrow> (case b of DDSketch y \<Rightarrow> f64_eq x y | _ \<Rightarrow> False)
      | Kmv k _ \<Rightarrow> (case b of Kmv k' _ \<Rightarrow> k = k' | _ \<Rightarrow> False))"

datatype sketch_kind = SketchKind (algorithm: sketch_algorithm) (params: sketch_params)

text \<open>\<^verbatim>\<open>SketchKind::new\<close>: it panics (\<open>None\<close>) on parameters of another algorithm.\<close>

definition sketch_kind_new :: "sketch_algorithm \<Rightarrow> sketch_params \<Rightarrow> sketch_kind option" where
  "sketch_kind_new a p =
     (let valid_params =
        (case (a, p) of
           (KllAlgorithm, Kll _ _) \<Rightarrow> True
         | (UnivMonAlgorithm, UnivMon _ _ _ _ _) \<Rightarrow> True
         | (DDSketchAlgorithm, DDSketch _) \<Rightarrow> True
         | (HllAlgorithm, Hll _ _) \<Rightarrow> True
         | (KmvAlgorithm, Kmv _ _) \<Rightarrow> True
         | (CmsAlgorithm, Cms _ _) \<Rightarrow> True
         | (CountSketchAlgorithm, CountSketch _ _) \<Rightarrow> True
         | (CmsWithHeapAlgorithm, CmsWithHeap _ _ _) \<Rightarrow> True
         | (CountSketchWithHeapAlgorithm, CountSketchWithHeap _ _ _) \<Rightarrow> True
         | _ \<Rightarrow> False)
      in if valid_params then Some (SketchKind a p) else None)"

section \<open>Other families\<close>

datatype sampling_kind = ReservoirKind
datatype sampling_params = ReservoirParams nat
datatype wavelet_kind = HaarKind
datatype wavelet_params = HaarParams nat
datatype stat_model_kind = ParametricKind
datatype stat_model_params = ParametricParams string

section \<open>Grouping strategy\<close>

datatype hydra_kind = HydraKllKind | HydraCmsKind | HydraCountSketchKind

datatype hydra_params =
    HydraKllParams nat nat \<comment> \<open>\<^verbatim>\<open>k\<close>, shared buckets\<close>
  | HydraCmsParams nat nat nat nat \<comment> \<open>width, depth, shared rows, shared columns\<close>
  | HydraCountSketchParams nat nat nat nat

datatype grouping_strategy =
    PerSubpopulationInstance
  | SharedMultiSubpopulation hydra_kind hydra_params

section \<open>Updates\<close>

datatype non_negative_weight_proof =
    UnitCount
  | ResetAwareCounterDerivative
  | CounterRawDataSamples
  | DeclaredNonNegativeRawDataSamples
  | PositiveConstant

datatype weight_domain =
    UnknownOrSigned
  | NonNegative non_negative_weight_proof
  | RawDataSamplesOfMetric string
  | CounterDerivativeOfMetric string

text \<open>\<^verbatim>\<open>WeightDomain::confirmed\<close>: the domain once the declared facts answer an open requirement.\<close>

definition confirmed :: "weight_domain \<Rightarrow> (string \<Rightarrow> bool) \<Rightarrow> (string \<Rightarrow> bool) \<Rightarrow> weight_domain" where
  "confirmed d is_counter is_declared_non_negative =
     (case d of
        RawDataSamplesOfMetric metric \<Rightarrow>
          if is_counter metric then NonNegative CounterRawDataSamples
          else if is_declared_non_negative metric then NonNegative DeclaredNonNegativeRawDataSamples
          else UnknownOrSigned
      | CounterDerivativeOfMetric metric \<Rightarrow>
          if is_counter metric then NonNegative ResetAwareCounterDerivative else UnknownOrSigned
      | other \<Rightarrow> other)"

datatype entity_identity = PromqlLabelSet "column_ref list"

datatype summary_input_expr =
    ConstantInput f64
  | ColumnInput column_ref
  | TupleInput "summary_input_expr list"
  | EntityIdentityInput entity_identity

record summary_update =
  item :: "summary_input_expr option"
  weight :: summary_input_expr
  weight_domain_of :: weight_domain

text \<open>\<^verbatim>\<open>SummaryUpdate::column\<close>.\<close>

definition summary_update_column :: "column_ref \<Rightarrow> summary_update" where
  "summary_update_column c =
     \<lparr>item = None, weight = ColumnInput c, weight_domain_of = UnknownOrSigned\<rparr>"

section \<open>Statistics read from a state\<close>

datatype sketch_statistic =
    FrequencyL2Statistic
  | FrequencyEntropyStatistic
  | QuantileStatistic f64
  | PointCountStatistic column_ref "string option" \<comment> \<open>key, value\<close>
  | CardinalityStatistic
  | TopKStatistic nat

section \<open>Lemmas\<close>

lemma sketch_params_eq_refl:
  "sketch_params_eq p p \<longleftrightarrow> (\<forall>x. p = DDSketch x \<longrightarrow> \<not> is_nan x)"
  by (cases p) (auto simp: sketch_params_eq_def f64_eq_refl)

lemma sketch_params_eq_sym: "sketch_params_eq p q \<longleftrightarrow> sketch_params_eq q p"
  by (cases p; cases q) (auto simp: sketch_params_eq_def f64_eq_sym)

lemma sketch_params_eq_trans:
  "sketch_params_eq p q \<Longrightarrow> sketch_params_eq q r \<Longrightarrow> sketch_params_eq p r"
  by (cases p; cases q; cases r) (auto simp: sketch_params_eq_def intro: f64_eq_trans)

text \<open>Confirming is settled in one step: no open requirement is left, so confirming again is the identity.\<close>

lemma confirmed_settled:
  "confirmed d c n \<noteq> RawDataSamplesOfMetric m" "confirmed d c n \<noteq> CounterDerivativeOfMetric m"
  by (auto simp: confirmed_def split: weight_domain.splits)

lemma confirmed_idem: "confirmed (confirmed d c n) c' n' = confirmed d c n"
  by (auto simp: confirmed_def split: weight_domain.splits)

end
