(* ===== verification/Schema.thy ===== *)
theory Schema
  imports Sketch
begin

text \<open>
  Per-edge schemas (\<^verbatim>\<open>crates/types/src/ir/schema/mod.rs\<close>): plain value types, the field data
  types that carry summary state, fields, and schemas with their time index and unique keys.
  Equality of schemas is Rust's derived \<^verbatim>\<open>PartialEq\<close>, which compares sketch parameters by their own
  \<^verbatim>\<open>PartialEq\<close> (\<open>sketch_params_eq\<close>).
\<close>

type_synonym column_id = nat

section \<open>Fields\<close>

datatype 't field =
  Field (name: string) (dtype: 't) (nullable: bool) (table: "string option")

definition field_new :: "string \<Rightarrow> 't \<Rightarrow> bool \<Rightarrow> 't field" where
  "field_new n t nul = Field n t nul None"

definition with_table :: "'t field \<Rightarrow> string \<Rightarrow> 't field" where
  "with_table f t = Field (name f) (dtype f) (nullable f) (Some t)"

definition column_ref_of :: "'t field \<Rightarrow> column_ref" where
  "column_ref_of f =
     (case table f of Some t \<Rightarrow> Qualified t (name f) | None \<Rightarrow> Named (name f))"

section \<open>Types\<close>

datatype data_type =
    NullType | Int64Type | Float64Type | Utf8Type | BoolType | TimestampType | IntervalType
  | DateType
  | ListType "data_type field"
  | StructType "data_type field list"
  | MapType data_type data_type bool \<comment> \<open>key, value, value nullable\<close>

datatype field_data_type =
    Plain data_type
  | ExactAggregate exact_kind exact_params
  | Sketch sketch_kind grouping_strategy
  | SummarySample sampling_kind sampling_params
  | Wavelet wavelet_kind wavelet_params
  | StatModel stat_model_kind stat_model_params

text \<open>\<^verbatim>\<open>FieldDataType::exact\<close>.\<close>

fun exact_params_of :: "exact_kind \<Rightarrow> exact_params" where
  "exact_params_of SumKind = SumParams"
| "exact_params_of CountKind = CountParams"
| "exact_params_of MinKind = MinParams"
| "exact_params_of MaxKind = MaxParams"
| "exact_params_of RateKind = RateParams"
| "exact_params_of IRateKind = IRateParams"
| "exact_params_of IncreaseKind = IncreaseParams"

definition exact_family :: "exact_kind \<Rightarrow> field_data_type" where
  "exact_family k = ExactAggregate k (exact_params_of k)"

definition is_plain_type :: "field_data_type \<Rightarrow> bool" where
  "is_plain_type t \<longleftrightarrow> (case t of Plain _ \<Rightarrow> True | _ \<Rightarrow> False)"

definition plain_of :: "field_data_type \<Rightarrow> data_type option" where
  "plain_of t = (case t of Plain d \<Rightarrow> Some d | _ \<Rightarrow> None)"

type_synonym schema_field = "field_data_type field"

definition plain_field :: "string \<Rightarrow> data_type \<Rightarrow> bool \<Rightarrow> schema_field" where
  "plain_field n t nul = field_new n (Plain t) nul"

definition plain_dtype :: "schema_field \<Rightarrow> data_type option" where
  "plain_dtype f = plain_of (dtype f)"

definition is_plain :: "schema_field \<Rightarrow> bool" where
  "is_plain f \<longleftrightarrow> is_plain_type (dtype f)"

text \<open>\<^verbatim>\<open>From<Field<DataType>> for Field<FieldDataType>\<close>.\<close>

definition lift_field :: "data_type field \<Rightarrow> schema_field" where
  "lift_field f = Field (name f) (Plain (dtype f)) (nullable f) (table f)"

section \<open>Schemas\<close>

record schema =
  schema_fields :: "schema_field list"
  time_index :: "column_id option"
  unique_keys :: "column_id list list"
  closed :: bool

definition promql_series_identity :: string where
  "promql_series_identity = ''$promql_series_identity''"

definition schema_new :: "schema_field list \<Rightarrow> schema" where
  "schema_new fs = \<lparr>schema_fields = fs, time_index = None, unique_keys = [], closed = False\<rparr>"

definition schema_with_time_index ::
  "schema_field list \<Rightarrow> column_id \<Rightarrow> column_id list list \<Rightarrow> schema" where
  "schema_with_time_index fs t ks =
     \<lparr>schema_fields = fs, time_index = Some t, unique_keys = ks, closed = False\<rparr>"

definition schema_lifted :: "schema_field list \<Rightarrow> column_id option \<Rightarrow> schema" where
  "schema_lifted fs t = \<lparr>schema_fields = fs, time_index = t, unique_keys = [], closed = True\<rparr>"

definition has_promql_series_identity :: "schema \<Rightarrow> bool" where
  "has_promql_series_identity s \<longleftrightarrow>
     closed s \<and>
     list_ex (\<lambda>f. name f = promql_series_identity \<and> dtype f = Plain Utf8Type
                  \<and> \<not> nullable f \<and> table f = None) (schema_fields s)"

definition is_all_plain :: "schema \<Rightarrow> bool" where
  "is_all_plain s \<longleftrightarrow> list_all is_plain (schema_fields s)"

definition column_id_of :: "schema \<Rightarrow> string \<Rightarrow> column_id option" where
  "column_id_of s n = position (\<lambda>c. name c = n) (schema_fields s)"

definition column_id_qualified :: "schema \<Rightarrow> string \<Rightarrow> string \<Rightarrow> column_id option" where
  "column_id_qualified s t n = position (\<lambda>c. name c = n \<and> table c = Some t) (schema_fields s)"

definition add_unique_key :: "schema \<Rightarrow> column_id list \<Rightarrow> schema" where
  "add_unique_key s cols =
     (if cols \<in> set (unique_keys s) then s
      else s\<lparr>unique_keys := unique_keys s @ [cols]\<rparr>)"

section \<open>Equality\<close>

text \<open>
  The derived \<^verbatim>\<open>PartialEq\<close> of the types above. Only sketch parameters compare otherwise than
  structurally.
\<close>

definition sketch_kind_eq :: "sketch_kind \<Rightarrow> sketch_kind \<Rightarrow> bool" where
  "sketch_kind_eq a b \<longleftrightarrow> algorithm a = algorithm b \<and> sketch_params_eq (params a) (params b)"

definition field_data_type_eq :: "field_data_type \<Rightarrow> field_data_type \<Rightarrow> bool" where
  "field_data_type_eq a b =
     (case (a, b) of
        (Sketch k g, Sketch k' g') \<Rightarrow> sketch_kind_eq k k' \<and> g = g'
      | _ \<Rightarrow> a = b)"

definition schema_field_eq :: "schema_field \<Rightarrow> schema_field \<Rightarrow> bool" where
  "schema_field_eq f g \<longleftrightarrow>
     name f = name g \<and> field_data_type_eq (dtype f) (dtype g) \<and> nullable f = nullable g
     \<and> table f = table g"

definition schema_eq :: "schema \<Rightarrow> schema \<Rightarrow> bool" where
  "schema_eq s t \<longleftrightarrow>
     list_all2 schema_field_eq (schema_fields s) (schema_fields t) \<and> time_index s = time_index t
     \<and> unique_keys s = unique_keys t \<and> closed s = closed t"

lemma field_data_type_eq_sym: "field_data_type_eq a b \<longleftrightarrow> field_data_type_eq b a"
  by (cases a; cases b)
    (auto simp: field_data_type_eq_def sketch_kind_eq_def sketch_params_eq_sym)

lemma field_data_type_eq_plain:
  "field_data_type_eq a b \<Longrightarrow> is_plain_type a = is_plain_type b"
  by (cases a; cases b) (auto simp: field_data_type_eq_def is_plain_type_def)

lemma field_data_type_eq_Plain [simp]:
  "field_data_type_eq (Plain d) b \<longleftrightarrow> b = Plain d"
  "field_data_type_eq (ExactAggregate k p) b \<longleftrightarrow> b = ExactAggregate k p"
  by (cases b, auto simp: field_data_type_eq_def)+

lemma is_plain_type_Plain: "is_plain_type t \<longleftrightarrow> (\<exists>d. t = Plain d)"
  by (cases t) (auto simp: is_plain_type_def)

text \<open>A lookup by name finds the first field of that name.\<close>

lemma column_id_of_Some:
  "column_id_of s n = Some i \<longleftrightarrow>
     i < length (schema_fields s) \<and> name (schema_fields s ! i) = n \<and> (\<forall>j < i. name (schema_fields s ! j) \<noteq> n)"
  by (simp add: column_id_of_def position_Some)

lemma add_unique_key_set:
  "set (unique_keys (add_unique_key s cols)) = insert cols (set (unique_keys s))"
  by (auto simp: add_unique_key_def)

lemma add_unique_key_idem: "add_unique_key (add_unique_key s cols) cols = add_unique_key s cols"
  by (simp add: add_unique_key_def)

end
