(* ===== verification/Capability.thy ===== *)
theory Capability
  imports Schema
begin

text \<open>
  The family-capability table (\<^verbatim>\<open>crates/types/src/ir/schema/family_capability.rs\<close>): how the inputs
  of a merge of one family's states must relate and which statistics one state answers. The rows of
  the sketch families are \<^verbatim>\<open>asap_sketchlib\<close>'s (\<^verbatim>\<open>SketchAlgorithm::capability\<close>), the parameter
  \<open>library_row\<close> of the definitions; the rows of the exact accumulators are the planner's.
  \<^verbatim>\<open>StatisticKind\<close> and \<^verbatim>\<open>MergedError\<close> are the library's enums, with the variants the planner names.
\<close>

datatype statistic_kind =
    TotalStat | ItemFrequencyStat | QuantileStat | DistinctStat | FrequencyL2Stat
  | FrequencyEntropyStat | TopKStat | OtherStat string

datatype merged_error = ApproximateError | AsIfBuiltOverUnion | ExactError | OtherError string

text \<open>The library's \<^verbatim>\<open>MergeInputRule\<close>, and the planner's, which adds \<^verbatim>\<open>DisjointInTime\<close>.\<close>

datatype library_merge_input_rule = LibraryDisjoint | LibraryMayOverlap

datatype merge_input_rule = Disjoint | DisjointInTime | MayOverlap

fun merge_input_rule_from :: "library_merge_input_rule \<Rightarrow> merge_input_rule" where
  "merge_input_rule_from LibraryDisjoint = Disjoint"
| "merge_input_rule_from LibraryMayOverlap = MayOverlap"

record library_capability =
  library_merge_inputs :: "library_merge_input_rule option"
  library_readouts :: "(statistic_kind \<times> merged_error) list"

record family_capability =
  merge_inputs :: "merge_input_rule option"
  readouts :: "(statistic_kind \<times> merged_error) list"

record supported_summary =
  supported_family :: sketch_algorithm
  supported_readouts :: "statistic_kind list"

text \<open>\<^verbatim>\<open>SketchStatistic::kind\<close>.\<close>

fun statistic_kind_of :: "sketch_statistic \<Rightarrow> statistic_kind" where
  "statistic_kind_of (PointCountStatistic _ None) = TotalStat"
| "statistic_kind_of (PointCountStatistic _ (Some _)) = ItemFrequencyStat"
| "statistic_kind_of (QuantileStatistic _) = QuantileStat"
| "statistic_kind_of CardinalityStatistic = DistinctStat"
| "statistic_kind_of FrequencyL2Statistic = FrequencyL2Stat"
| "statistic_kind_of FrequencyEntropyStatistic = FrequencyEntropyStat"
| "statistic_kind_of (TopKStatistic _) = TopKStat"

definition readout :: "family_capability \<Rightarrow> sketch_statistic \<Rightarrow> merged_error option" where
  "readout c s = map_option snd (find (\<lambda>(answered, _). answered = statistic_kind_of s) (readouts c))"

definition answers :: "family_capability \<Rightarrow> sketch_statistic \<Rightarrow> bool" where
  "answers c s \<longleftrightarrow> readout c s \<noteq> None"

definition merged_error_of :: "family_capability \<Rightarrow> sketch_statistic \<Rightarrow> merged_error option" where
  "merged_error_of c s = (case merge_inputs c of None \<Rightarrow> None | Some _ \<Rightarrow> readout c s)"

type_synonym library_table = "sketch_algorithm \<Rightarrow> library_capability"

definition of_per_instance_sketch :: "library_table \<Rightarrow> sketch_algorithm \<Rightarrow> family_capability" where
  "of_per_instance_sketch library_row a =
     (let row = library_row a
      in \<lparr>merge_inputs = map_option merge_input_rule_from (library_merge_inputs row),
          readouts = library_readouts row\<rparr>)"

fun exact_merge_inputs :: "exact_kind \<Rightarrow> merge_input_rule option" where
  "exact_merge_inputs SumKind = Some Disjoint"
| "exact_merge_inputs CountKind = Some Disjoint"
| "exact_merge_inputs MinKind = Some MayOverlap"
| "exact_merge_inputs MaxKind = Some MayOverlap"
| "exact_merge_inputs RateKind = Some DisjointInTime"
| "exact_merge_inputs IncreaseKind = Some DisjointInTime"
| "exact_merge_inputs IRateKind = None"

fun hydra_algorithm :: "hydra_kind \<Rightarrow> sketch_algorithm" where
  "hydra_algorithm HydraCmsKind = HydraCmsAlgorithm"
| "hydra_algorithm HydraCountSketchKind = HydraCountSketchAlgorithm"
| "hydra_algorithm HydraKllKind = HydraKllAlgorithm"

text \<open>\<^verbatim>\<open>FamilyCapability::of\<close>.\<close>

fun family_capability_of :: "library_table \<Rightarrow> field_data_type \<Rightarrow> family_capability" where
  "family_capability_of library_row (ExactAggregate kind _) =
     \<lparr>merge_inputs = exact_merge_inputs kind, readouts = []\<rparr>"
| "family_capability_of library_row (Sketch _ (SharedMultiSubpopulation kind _)) =
     of_per_instance_sketch library_row (hydra_algorithm kind)"
| "family_capability_of library_row (Sketch kind PerSubpopulationInstance) =
     of_per_instance_sketch library_row (algorithm kind)"
| "family_capability_of library_row (Plain _) = \<lparr>merge_inputs = None, readouts = []\<rparr>"
| "family_capability_of library_row (SummarySample _ _) = \<lparr>merge_inputs = None, readouts = []\<rparr>"
| "family_capability_of library_row (Wavelet _ _) = \<lparr>merge_inputs = None, readouts = []\<rparr>"
| "family_capability_of library_row (StatModel _ _) = \<lparr>merge_inputs = None, readouts = []\<rparr>"

text \<open>\<^verbatim>\<open>FamilyCapability::merges_groups\<close>.\<close>

definition merges_groups :: "library_table \<Rightarrow> field_data_type \<Rightarrow> bool" where
  "merges_groups library_row family \<longleftrightarrow>
     (case merge_inputs (family_capability_of library_row family) of
        Some Disjoint \<Rightarrow> True | Some MayOverlap \<Rightarrow> True | _ \<Rightarrow> False)
     \<and> \<not> (case family of Sketch _ g \<Rightarrow> g \<noteq> PerSubpopulationInstance | _ \<Rightarrow> False)"

section \<open>Lemmas\<close>

lemma readout_Some:
  "readout c s = Some e \<Longrightarrow> (statistic_kind_of s, e) \<in> set (readouts c)"
  by (auto simp: readout_def find_Some_iff) (metis nth_mem)

lemma answers_iff: "answers c s \<longleftrightarrow> statistic_kind_of s \<in> fst ` set (readouts c)"
  by (force simp: answers_def readout_def find_None_iff)

lemma merged_error_answers: "merged_error_of c s = Some e \<Longrightarrow> answers c s \<and> merge_inputs c \<noteq> None"
  by (auto simp: merged_error_of_def answers_def split: option.splits)

text \<open>A counter state is never merged across groups, nor is any family without a merge or a Hydra.\<close>

lemma merges_groups_exact:
  "merges_groups l (ExactAggregate k p) \<longleftrightarrow> k \<in> {SumKind, CountKind, MinKind, MaxKind}"
  by (cases k) (auto simp: merges_groups_def)

lemma merges_groups_merges:
  "merges_groups l f \<Longrightarrow>
     merge_inputs (family_capability_of l f) \<in> {Some Disjoint, Some MayOverlap}"
  by (auto simp: merges_groups_def split: option.splits merge_input_rule.splits)

lemma merges_groups_hydra: "\<not> merges_groups l (Sketch k (SharedMultiSubpopulation h p))"
  by (simp add: merges_groups_def)

text \<open>The capability of a family does not depend on what its sketch was sized for.\<close>

lemma family_capability_of_eq:
  "field_data_type_eq f g \<Longrightarrow> family_capability_of l f = family_capability_of l g"
proof (cases f)
  case (Sketch k s)
  assume eq: "field_data_type_eq f g"
  with Sketch obtain k' where "g = Sketch k' s" "algorithm k = algorithm k'"
    by (cases g) (auto simp: field_data_type_eq_def sketch_kind_eq_def)
  with Sketch show ?thesis by (cases s) simp_all
qed (cases g; simp add: field_data_type_eq_def)+

end
