(* ===== verification/Scalar.thy ===== *)
theory Scalar
  imports Schema
begin

text \<open>
  Scalar expressions (\<^verbatim>\<open>crates/types/src/ir/scalar/mod.rs\<close>, \<^verbatim>\<open>expr_ir.rs\<close>), generic in the reference
  type \<open>'c\<close> of the operator nodes they read, with their traversals: sub-expressions, operator
  references in the order the code visits them, and the rebuild that renumbers columns and maps
  references through a closure with state.
\<close>

section \<open>Vocabulary\<close>

datatype scalar_value =
    Int64Value int
  | Float64Value f64
  | Utf8Value string
  | BooleanValue bool
  | NullValue
  | IntervalValue int int int \<comment> \<open>months, days, nanoseconds\<close>

datatype compare_op_kind =
    EqOp | NeOp | LtOp | LeOp | GtOp | GeOp | LikeOp | NotLikeOp | ILikeOp | NotILikeOp | RegexOp
  | NotRegexOp

datatype arithmetic_op_kind = AddOp | SubOp | MulOp | DivOp | ModOp | PowOp | Atan2Op

datatype expr_semantics = SqlSemantics | PromqlSemantics

section \<open>Expressions\<close>

datatype 'c scalar_expr =
    Column column_id
  | Literal scalar_value
  | Negative "'c scalar_expr" expr_semantics
  | Compare "'c scalar_expr" compare_op_kind "'c scalar_expr" expr_semantics
  | BoolAnd "'c scalar_expr list"
  | BoolOr "'c scalar_expr list"
  | Not "'c scalar_expr"
  | IsNull "'c scalar_expr"
  | IsNotNull "'c scalar_expr"
  | Cast "'c scalar_expr" data_type bool
  | InList "'c scalar_expr" "'c scalar_expr list" bool
  | FunctionCall string "'c scalar_expr list"
  | Arithmetic arithmetic_op_kind "'c scalar_expr" "'c scalar_expr" expr_semantics
  | Case "'c scalar_expr option" "('c scalar_expr \<times> 'c scalar_expr) list" "'c scalar_expr option"
  | CurrentTimestamp
  | EvalTimestamp
  | PromqlScalarFromVector 'c
  | ScalarSubquery 'c
  | Exists 'c bool
  | InSubquery "'c scalar_expr" 'c bool

text \<open>\<^verbatim>\<open>Predicate\<close> is a newtype over an expression.\<close>

datatype 'c predicate = Predicate (pred_expr: "'c scalar_expr")

datatype 'c project_item = ProjectItem (alias_of: "string option") (item_expr: "'c scalar_expr")

datatype 'c sort_key =
  SortKey (key_expr: "'c scalar_expr") (ascending: bool) (nulls_first: bool)

section \<open>Traversals\<close>

text \<open>\<^verbatim>\<open>conjuncts\<close>.\<close>

fun conjuncts :: "'c scalar_expr \<Rightarrow> 'c scalar_expr list" where
  "conjuncts (BoolAnd es) = es"
| "conjuncts e = [e]"

text \<open>\<^verbatim>\<open>children\<close>: the direct scalar sub-expressions.\<close>

fun scalar_children :: "'c scalar_expr \<Rightarrow> 'c scalar_expr list" where
  "scalar_children (Column _) = []"
| "scalar_children (Literal _) = []"
| "scalar_children CurrentTimestamp = []"
| "scalar_children EvalTimestamp = []"
| "scalar_children (PromqlScalarFromVector _) = []"
| "scalar_children (ScalarSubquery _) = []"
| "scalar_children (Exists _ _) = []"
| "scalar_children (Negative e _) = [e]"
| "scalar_children (Not e) = [e]"
| "scalar_children (IsNull e) = [e]"
| "scalar_children (IsNotNull e) = [e]"
| "scalar_children (Cast e _ _) = [e]"
| "scalar_children (InSubquery e _ _) = [e]"
| "scalar_children (Compare l _ r _) = [l, r]"
| "scalar_children (Arithmetic _ l r _) = [l, r]"
| "scalar_children (BoolAnd es) = es"
| "scalar_children (BoolOr es) = es"
| "scalar_children (InList e es _) = e # es"
| "scalar_children (FunctionCall _ es) = es"
| "scalar_children (Case operand branches else_expr) =
     (case operand of Some e \<Rightarrow> [e] | None \<Rightarrow> [])
     @ concat (map (\<lambda>(w, t). [w, t]) branches)
     @ (case else_expr of Some e \<Rightarrow> [e] | None \<Rightarrow> [])"

lemma scalar_children_size: "c \<in> set (scalar_children e) \<Longrightarrow> size c < size e"
proof (cases e rule: scalar_children.cases)
  case (20 operand branches else_expr)
  moreover assume "c \<in> set (scalar_children e)"
  ultimately show ?thesis
    by (auto split: option.splits dest!: split_list)
qed (auto dest: size_list_estimation'[of _ _ "size c" size] intro: le_imp_less_Suc)

text \<open>
  \<^verbatim>\<open>operator_refs\<close>: the node a plan-reading variant names, then the references of the
  sub-expressions in order.
\<close>

definition own_operator_refs :: "'c scalar_expr \<Rightarrow> 'c list" where
  "own_operator_refs e =
     (case e of
        PromqlScalarFromVector n \<Rightarrow> [n]
      | ScalarSubquery n \<Rightarrow> [n]
      | Exists n _ \<Rightarrow> [n]
      | InSubquery _ n _ \<Rightarrow> [n]
      | _ \<Rightarrow> [])"

function operator_refs :: "'c scalar_expr \<Rightarrow> 'c list" where
  "operator_refs e = own_operator_refs e @ concat (map operator_refs (scalar_children e))"
  by pat_completeness auto
termination
  by (relation "measure size") (auto dest: scalar_children_size)

declare operator_refs.simps [simp del]

text \<open>\<^verbatim>\<open>columns_referenced\<close>.\<close>

function columns_referenced :: "'c scalar_expr \<Rightarrow> column_id list" where
  "columns_referenced e =
     (case e of Column i \<Rightarrow> [i] | _ \<Rightarrow> []) @ concat (map columns_referenced (scalar_children e))"
  by pat_completeness auto
termination
  by (relation "measure size") (auto dest: scalar_children_size)

declare columns_referenced.simps [simp del]


section \<open>Rebuilding\<close>

text \<open>
  \<^verbatim>\<open>map_parts\<close>: the expression with every column renumbered by \<open>col\<close> and every operator reference
  mapped by the closure \<open>f\<close>, visited in the order the code builds the copy (the sub-expressions of
  a node in field order; an \<^verbatim>\<open>IN\<close> subquery after its left side).
\<close>

primrec map_parts_st ::
  "(column_id \<Rightarrow> column_id) \<Rightarrow> ('c \<Rightarrow> 's \<Rightarrow> 'd \<times> 's) \<Rightarrow> 'c scalar_expr \<Rightarrow> 's \<Rightarrow> 'd scalar_expr \<times> 's"
where
  "map_parts_st col f (Column c) = return_st (Column (col c))"
| "map_parts_st col f (Literal v) = return_st (Literal v)"
| "map_parts_st col f CurrentTimestamp = return_st CurrentTimestamp"
| "map_parts_st col f EvalTimestamp = return_st EvalTimestamp"
| "map_parts_st col f (PromqlScalarFromVector n) =
     bind_st (f n) (\<lambda>n. return_st (PromqlScalarFromVector n))"
| "map_parts_st col f (ScalarSubquery n) = bind_st (f n) (\<lambda>n. return_st (ScalarSubquery n))"
| "map_parts_st col f (Exists n negated) = bind_st (f n) (\<lambda>n. return_st (Exists n negated))"
| "map_parts_st col f (InSubquery e n negated) =
     bind_st (map_parts_st col f e) (\<lambda>e. bind_st (f n) (\<lambda>n. return_st (InSubquery e n negated)))"
| "map_parts_st col f (Negative e sem) =
     bind_st (map_parts_st col f e) (\<lambda>e. return_st (Negative e sem))"
| "map_parts_st col f (Compare l op r sem) =
     bind_st (map_parts_st col f l) (\<lambda>l.
     bind_st (map_parts_st col f r) (\<lambda>r. return_st (Compare l op r sem)))"
| "map_parts_st col f (BoolAnd es) =
     bind_st (seq_st (map (map_parts_st col f) es)) (\<lambda>es. return_st (BoolAnd es))"
| "map_parts_st col f (BoolOr es) =
     bind_st (seq_st (map (map_parts_st col f) es)) (\<lambda>es. return_st (BoolOr es))"
| "map_parts_st col f (Not e) = bind_st (map_parts_st col f e) (\<lambda>e. return_st (Not e))"
| "map_parts_st col f (IsNull e) = bind_st (map_parts_st col f e) (\<lambda>e. return_st (IsNull e))"
| "map_parts_st col f (IsNotNull e) = bind_st (map_parts_st col f e) (\<lambda>e. return_st (IsNotNull e))"
| "map_parts_st col f (Cast e to try_cast) =
     bind_st (map_parts_st col f e) (\<lambda>e. return_st (Cast e to try_cast))"
| "map_parts_st col f (InList e es negated) =
     bind_st (map_parts_st col f e) (\<lambda>e.
     bind_st (seq_st (map (map_parts_st col f) es)) (\<lambda>es. return_st (InList e es negated)))"
| "map_parts_st col f (FunctionCall n es) =
     bind_st (seq_st (map (map_parts_st col f) es)) (\<lambda>es. return_st (FunctionCall n es))"
| "map_parts_st col f (Arithmetic op l r sem) =
     bind_st (map_parts_st col f l) (\<lambda>l.
     bind_st (map_parts_st col f r) (\<lambda>r. return_st (Arithmetic op l r sem)))"
| "map_parts_st col f (Case operand branches else_expr) =
     bind_st (opt_st (map_option (map_parts_st col f) operand)) (\<lambda>operand.
     bind_st (seq_st (map pair_st
       (map (map_prod (map_parts_st col f) (map_parts_st col f)) branches))) (\<lambda>branches.
     bind_st (opt_st (map_option (map_parts_st col f) else_expr)) (\<lambda>else_expr.
     return_st (Case operand branches else_expr))))"

definition map_operator_refs_st ::
  "('c \<Rightarrow> 's \<Rightarrow> 'd \<times> 's) \<Rightarrow> 'c scalar_expr \<Rightarrow> 's \<Rightarrow> 'd scalar_expr \<times> 's" where
  "map_operator_refs_st f = map_parts_st (\<lambda>column. column) f"

text \<open>\<^verbatim>\<open>map_columns\<close>: operator references are kept.\<close>

definition map_columns :: "(column_id \<Rightarrow> column_id) \<Rightarrow> 'c scalar_expr \<Rightarrow> 'c scalar_expr" where
  "map_columns col e = fst (map_parts_st col (\<lambda>n. return_st n) e ())"

lemma map_parts_st_cong:
  "(\<And>c s. c \<in> set_scalar_expr e \<Longrightarrow> f c s = g c s) \<Longrightarrow> map_parts_st col f e = map_parts_st col g e"
proof (induction e)
  case (Case operand branches else_expr)
  have "map_option (map_parts_st col f) operand = map_option (map_parts_st col g) operand"
  proof (rule option.map_cong0)
    fix x assume x: "x \<in> set_option operand"
    show "map_parts_st col f x = map_parts_st col g x"
      by (rule Case.IH(1)[OF x]) (use x in \<open>auto intro: Case.prems\<close>)
  qed
  moreover have "map_option (map_parts_st col f) else_expr = map_option (map_parts_st col g) else_expr"
  proof (rule option.map_cong0)
    fix x assume x: "x \<in> set_option else_expr"
    show "map_parts_st col f x = map_parts_st col g x"
      by (rule Case.IH(4)[OF x]) (use x in \<open>auto intro: Case.prems\<close>)
  qed
  moreover have "map (map_prod (map_parts_st col f) (map_parts_st col f)) branches =
      map (map_prod (map_parts_st col g) (map_parts_st col g)) branches"
  proof (rule list.map_cong0, rule prod.map_cong0)
    fix b x assume b: "b \<in> set branches" and x: "x \<in> Basic_BNFs.fsts b"
    show "map_parts_st col f x = map_parts_st col g x"
      by (rule Case.IH(2)[OF b x]) (use b x in \<open>auto intro!: Case.prems bexI[of _ b]\<close>)
  next
    fix b x assume b: "b \<in> set branches" and x: "x \<in> Basic_BNFs.snds b"
    show "map_parts_st col f x = map_parts_st col g x"
      by (rule Case.IH(3)[OF b x]) (use b x in \<open>auto intro!: Case.prems bexI[of _ b]\<close>)
  qed
  ultimately show ?case by (simp del: map_map map_eq_conv)
next
  case (BoolAnd es)
  then have "map (map_parts_st col f) es = map (map_parts_st col g) es"
    by (intro list.map_cong0) auto
  then show ?case by (simp del: map_eq_conv)
next
  case (BoolOr es)
  then have "map (map_parts_st col f) es = map (map_parts_st col g) es"
    by (intro list.map_cong0) auto
  then show ?case by (simp del: map_eq_conv)
next
  case (FunctionCall n es)
  then have "map (map_parts_st col f) es = map (map_parts_st col g) es"
    by (intro list.map_cong0) auto
  then show ?case by (simp del: map_eq_conv)
next
  case (InList e es negated)
  then have "map (map_parts_st col f) es = map (map_parts_st col g) es"
    by (intro list.map_cong0) auto
  with InList show ?case by (simp del: map_eq_conv)
next
  case (PromqlScalarFromVector n)
  then have "f n = g n" by auto
  then show ?case by simp
next
  case (ScalarSubquery n)
  then have "f n = g n" by auto
  then show ?case by simp
next
  case (Exists n negated)
  then have "f n = g n" by auto
  then show ?case by simp
next
  case (InSubquery e n negated)
  then have "f n = g n" by auto
  with InSubquery show ?case by simp
qed simp_all

end
