(* ===== verification/Accuracy.thy ===== *)
theory Accuracy
  imports F64
begin

text \<open>
  Accuracy requirements and guarantees (\<^verbatim>\<open>crates/types/src/ir/properties/accuracy.rs\<close>,
  \<^verbatim>\<open>guarantee.rs\<close>): metrics and scopes, targets, and the symbolic bound and probability
  expressions of a guarantee with their structural operations (\<^verbatim>\<open>bind\<close>, \<^verbatim>\<open>has_unknown\<close>, \<^verbatim>\<open>is_zero\<close>).
  Numeric evaluation of the expressions (\<^verbatim>\<open>evaluate\<close>) is not modelled: it is float arithmetic.
\<close>

section \<open>Requirements\<close>

datatype norm_scale = StreamL1 | StreamL2

datatype accuracy_metric = Absolute "norm_scale option" | Relative | Rank

text \<open>\<^verbatim>\<open>MetricName\<close>, the wire names, with its two conversions.\<close>

datatype metric_name =
  AbsoluteName | AbsoluteStreamL1Name | AbsoluteStreamL2Name | RelativeName | RankName

fun metric_name_from :: "accuracy_metric \<Rightarrow> metric_name" where
  "metric_name_from (Absolute None) = AbsoluteName"
| "metric_name_from (Absolute (Some StreamL1)) = AbsoluteStreamL1Name"
| "metric_name_from (Absolute (Some StreamL2)) = AbsoluteStreamL2Name"
| "metric_name_from Relative = RelativeName"
| "metric_name_from Rank = RankName"

fun accuracy_metric_from :: "metric_name \<Rightarrow> accuracy_metric" where
  "accuracy_metric_from AbsoluteName = Absolute None"
| "accuracy_metric_from AbsoluteStreamL1Name = Absolute (Some StreamL1)"
| "accuracy_metric_from AbsoluteStreamL2Name = Absolute (Some StreamL2)"
| "accuracy_metric_from RelativeName = Relative"
| "accuracy_metric_from RankName = Rank"

lemma metric_name_roundtrip:
  "accuracy_metric_from (metric_name_from m) = m" "metric_name_from (accuracy_metric_from n) = n"
  by (cases m rule: metric_name_from.cases; simp) (cases n; simp)

datatype accuracy_scope = PerValue | WholeResult | GroupsWithRecordShareAtLeast f64

text \<open>\<^verbatim>\<open>AccuracyScope::covers\<close>.\<close>

fun covers :: "accuracy_scope \<Rightarrow> accuracy_scope \<Rightarrow> bool" where
  "covers WholeResult _ = True"
| "covers PerValue PerValue = True"
| "covers (GroupsWithRecordShareAtLeast s) (GroupsWithRecordShareAtLeast t) = f64_le s t"
| "covers _ _ = False"

text \<open>
  Covering is transitive. It is reflexive except for a share that is not a number.
\<close>

lemma covers_trans: "covers a b \<Longrightarrow> covers b c \<Longrightarrow> covers a c"
  by (cases a; cases b; cases c) (auto intro: f64_le_trans)

record accuracy_target =
  target_metric :: "accuracy_metric option"
  max_error :: f64
  target_failure_probability :: "f64 option"
  target_scope :: accuracy_scope

definition target_exact :: accuracy_target where
  "target_exact =
     \<lparr>target_metric = None, max_error = f64_zero, target_failure_probability = Some f64_zero,
      target_scope = WholeResult\<rparr>"

definition target_max_error :: "f64 \<Rightarrow> accuracy_target" where
  "target_max_error e =
     \<lparr>target_metric = None, max_error = e, target_failure_probability = None,
      target_scope = WholeResult\<rparr>"

definition target_is_exact :: "accuracy_target \<Rightarrow> bool" where
  "target_is_exact t \<longleftrightarrow>
     f64_eq (max_error t) f64_zero
     \<and> (case target_failure_probability t of Some p \<Rightarrow> f64_eq p f64_zero | None \<Rightarrow> False)"

section \<open>Guarantees\<close>

datatype bound_expr =
    BZero
  | BConstant f64
  | BSum "bound_expr list"
  | BProduct "bound_expr list"
  | BScaled f64 bound_expr
  | BMax "bound_expr list"
  | BUnknown string

primrec bound_bind :: "(string \<Rightarrow> f64 option) \<Rightarrow> bound_expr \<Rightarrow> bound_expr" where
  "bound_bind value BZero = BZero"
| "bound_bind value (BConstant v) = BConstant v"
| "bound_bind value (BSum terms) = BSum (map (bound_bind value) terms)"
| "bound_bind value (BProduct factors) = BProduct (map (bound_bind value) factors)"
| "bound_bind value (BScaled factor inner) = BScaled factor (bound_bind value inner)"
| "bound_bind value (BMax terms) = BMax (map (bound_bind value) terms)"
| "bound_bind value (BUnknown statistic) =
     (case value statistic of None \<Rightarrow> BUnknown statistic | Some v \<Rightarrow> BConstant v)"

fun bound_has_unknown :: "bound_expr \<Rightarrow> bool" where
  "bound_has_unknown BZero = False"
| "bound_has_unknown (BConstant _) = False"
| "bound_has_unknown (BSum terms) = list_ex bound_has_unknown terms"
| "bound_has_unknown (BProduct terms) = list_ex bound_has_unknown terms"
| "bound_has_unknown (BMax terms) = list_ex bound_has_unknown terms"
| "bound_has_unknown (BScaled _ inner) = bound_has_unknown inner"
| "bound_has_unknown (BUnknown _) = True"

fun bound_is_zero :: "bound_expr \<Rightarrow> bool" where
  "bound_is_zero BZero = True"
| "bound_is_zero (BConstant v) = f64_eq v f64_zero"
| "bound_is_zero (BSum terms) = list_all bound_is_zero terms"
| "bound_is_zero (BMax terms) = list_all bound_is_zero terms"
| "bound_is_zero (BProduct factors) = list_ex bound_is_zero factors"
| "bound_is_zero (BScaled factor inner) = (f64_eq factor f64_zero \<or> bound_is_zero inner)"
| "bound_is_zero (BUnknown _) = False"

datatype probability_expr =
    PZero
  | PConstant f64
  | UnionBound "probability_expr list"
  | PScaled bound_expr probability_expr
  | PUnknown string

primrec probability_bind :: "(string \<Rightarrow> f64 option) \<Rightarrow> probability_expr \<Rightarrow> probability_expr" where
  "probability_bind value PZero = PZero"
| "probability_bind value (PConstant v) = PConstant v"
| "probability_bind value (UnionBound terms) = UnionBound (map (probability_bind value) terms)"
| "probability_bind value (PScaled count inner) =
     PScaled (bound_bind value count) (probability_bind value inner)"
| "probability_bind value (PUnknown statistic) =
     (case value statistic of None \<Rightarrow> PUnknown statistic | Some v \<Rightarrow> PConstant v)"

fun probability_has_unknown :: "probability_expr \<Rightarrow> bool" where
  "probability_has_unknown PZero = False"
| "probability_has_unknown (PConstant _) = False"
| "probability_has_unknown (UnionBound terms) = list_ex probability_has_unknown terms"
| "probability_has_unknown (PScaled count inner) =
     (bound_has_unknown count \<or> probability_has_unknown inner)"
| "probability_has_unknown (PUnknown _) = True"

fun probability_is_zero :: "probability_expr \<Rightarrow> bool" where
  "probability_is_zero PZero = True"
| "probability_is_zero (PConstant v) = f64_eq v f64_zero"
| "probability_is_zero (UnionBound terms) = list_all probability_is_zero terms"
| "probability_is_zero (PScaled count inner) = (bound_is_zero count \<or> probability_is_zero inner)"
| "probability_is_zero (PUnknown _) = False"

text \<open>The statistics an expression still needs.\<close>

primrec bound_statistics :: "bound_expr \<Rightarrow> string set" where
  "bound_statistics BZero = {}"
| "bound_statistics (BConstant _) = {}"
| "bound_statistics (BSum terms) = \<Union> (set (map bound_statistics terms))"
| "bound_statistics (BProduct terms) = \<Union> (set (map bound_statistics terms))"
| "bound_statistics (BMax terms) = \<Union> (set (map bound_statistics terms))"
| "bound_statistics (BScaled _ inner) = bound_statistics inner"
| "bound_statistics (BUnknown s) = {s}"

primrec probability_statistics :: "probability_expr \<Rightarrow> string set" where
  "probability_statistics PZero = {}"
| "probability_statistics (PConstant _) = {}"
| "probability_statistics (UnionBound terms) = \<Union> (set (map probability_statistics terms))"
| "probability_statistics (PScaled count inner) = bound_statistics count \<union> probability_statistics inner"
| "probability_statistics (PUnknown s) = {s}"

lemma bound_has_unknown_iff: "bound_has_unknown b \<longleftrightarrow> bound_statistics b \<noteq> {}"
  by (induction b) (auto simp: list_ex_iff)

lemma probability_has_unknown_iff: "probability_has_unknown p \<longleftrightarrow> probability_statistics p \<noteq> {}"
  by (induction p) (auto simp: list_ex_iff bound_has_unknown_iff)

lemma bound_bind_statistics: "bound_statistics (bound_bind v b) = bound_statistics b - dom v"
  by (induction b) (auto split: option.splits)

lemma probability_bind_statistics:
  "probability_statistics (probability_bind v p) = probability_statistics p - dom v"
  by (induction p) (auto simp: bound_bind_statistics split: option.splits)

lemma bound_bind_bound: "bound_statistics b \<inter> dom v = {} \<Longrightarrow> bound_bind v b = b"
  by (induction b) (auto intro!: map_idI simp: Int_Un_distrib2 split: option.splits)

lemma bound_bind_zero: "bound_is_zero b \<Longrightarrow> bound_is_zero (bound_bind v b)"
  by (induction b) (auto simp: list_all_iff list_ex_iff)

lemma probability_bind_zero: "probability_is_zero p \<Longrightarrow> probability_is_zero (probability_bind v p)"
  by (induction p) (auto simp: list_all_iff bound_bind_zero)

record accuracy_spec =
  spec_metric :: accuracy_metric
  spec_error :: bound_expr
  spec_failure_probability :: probability_expr
  spec_scope :: accuracy_scope

text \<open>
  The provenance trail and the guarantee it explains. A recorded parameter blob is an opaque
  \<^verbatim>\<open>serde_json::Value\<close>.
\<close>

typedecl json_value

instantiation json_value :: equal
begin
definition equal_json_value :: "json_value \<Rightarrow> json_value \<Rightarrow> bool" where
  "equal_json_value a b \<longleftrightarrow> a = b"
instance by standard (simp add: equal_json_value_def)
end

datatype composition_operator =
    CheckedRelativeDivision | ApproximateAggregate | Lipschitz f64 | ExactSum | ExactAverage
  | ExactExtremum | ExactDivision | ExactProduct | CounterRate | InstantCounterRate
  | CounterIncrease | TopKSelection

datatype guarantee_source =
    ExactSource string
  | TargetSource accuracy_target
  | SketchEvaluation string string json_value string
  | ChildGuarantee nat accuracy_guarantee
  | CompositionStep composition_operator string
  | BudgetAllocation string nat nat accuracy_target accuracy_target
  | UnavailableStatistic string
  | RuntimeObservation string json_value
and accuracy_guarantee =
  AccuracyGuarantee (spec: accuracy_spec) (provenance: "guarantee_source list")

definition guarantee_new ::
  "accuracy_metric \<Rightarrow> bound_expr \<Rightarrow> probability_expr \<Rightarrow> guarantee_source list \<Rightarrow> accuracy_guarantee"
where
  "guarantee_new metric error p trail =
     AccuracyGuarantee \<lparr>spec_metric = metric, spec_error = error, spec_failure_probability = p,
       spec_scope = PerValue\<rparr> trail"

definition guarantee_exact :: "string \<Rightarrow> accuracy_guarantee" where
  "guarantee_exact reason = guarantee_new (Absolute None) BZero PZero [ExactSource reason]"

definition guarantee_bind :: "(string \<Rightarrow> f64 option) \<Rightarrow> accuracy_guarantee \<Rightarrow> accuracy_guarantee" where
  "guarantee_bind value g =
     AccuracyGuarantee
       ((spec g)\<lparr>spec_error := bound_bind value (spec_error (spec g)),
                spec_failure_probability :=
                  probability_bind value (spec_failure_probability (spec g))\<rparr>)
       (provenance g)"

definition guarantee_has_unknown :: "accuracy_guarantee \<Rightarrow> bool" where
  "guarantee_has_unknown g \<longleftrightarrow>
     bound_has_unknown (spec_error (spec g))
     \<or> probability_has_unknown (spec_failure_probability (spec g))"

definition guarantee_is_exact :: "accuracy_guarantee \<Rightarrow> bool" where
  "guarantee_is_exact g \<longleftrightarrow>
     bound_is_zero (spec_error (spec g)) \<and> probability_is_zero (spec_failure_probability (spec g))"

definition guarantee_statistics :: "accuracy_guarantee \<Rightarrow> string set" where
  "guarantee_statistics g =
     bound_statistics (spec_error (spec g)) \<union> probability_statistics (spec_failure_probability (spec g))"

end
