(* ===== verification/OpProps.thy ===== *)
theory OpProps
  imports Scalar Accuracy
begin

text \<open>
  The parameter types of operators (\<^verbatim>\<open>crates/types/src/ir/operator/operator_properties.rs\<close>), the
  aggregation intents (\<^verbatim>\<open>agg_intent.rs\<close>) and the maintained populations
  (\<^verbatim>\<open>maintained_population.rs\<close>). Types generic over the column-reference state keep the parameter
  \<open>'k\<close>. The payload of an extension intent is an opaque \<^verbatim>\<open>serde_json::Value\<close>.
\<close>

section \<open>Grouping keys and reductions\<close>

datatype 'k group_keys = GroupKeys (group_key_list: "'k list") (is_without: bool)

definition group_none :: "'k group_keys" where "group_none = GroupKeys [] False"
definition group_by_keys :: "'k list \<Rightarrow> 'k group_keys" where "group_by_keys ks = GroupKeys ks False"
definition group_without :: "'k list \<Rightarrow> 'k group_keys" where "group_without ks = GroupKeys ks True"

text \<open>\<^verbatim>\<open>PartialEq<Vec<C>> for GroupKeys<C>\<close>.\<close>

definition group_keys_eq_list :: "'k group_keys \<Rightarrow> 'k list \<Rightarrow> bool" where
  "group_keys_eq_list g ks \<longleftrightarrow> \<not> is_without g \<and> group_key_list g = ks"

datatype 'k reduction = Reduce "'k group_keys" | PerEntity

definition reduction_by :: "'k list \<Rightarrow> 'k reduction" where
  "reduction_by ks = Reduce (group_by_keys ks)"

definition group_keys_of :: "'k reduction \<Rightarrow> 'k group_keys option" where
  "group_keys_of r = (case r of Reduce g \<Rightarrow> Some g | PerEntity \<Rightarrow> None)"

text \<open>
  \<^verbatim>\<open>Reduction::partitions_over\<close>: a key index into \<open>inner\<close> becomes the one column of \<open>input\<close> with
  the same name and qualifier.
\<close>

definition unique_match :: "schema \<Rightarrow> column_ref \<Rightarrow> column_id option" where
  "unique_match input key =
     (case filter (\<lambda>i. column_ref_of (schema_fields input ! i) = key)
             [0..<length (schema_fields input)] of
        [i] \<Rightarrow> Some i
      | _ \<Rightarrow> None)"

definition partitions_over ::
  "column_id reduction \<Rightarrow> schema \<Rightarrow> schema \<Rightarrow> column_id reduction option" where
  "partitions_over r inner input =
     (case r of
        PerEntity \<Rightarrow> Some PerEntity
      | Reduce keys \<Rightarrow>
          if is_without keys then None
          else map_option reduction_by
                 (collect_option
                    (\<lambda>index. case get (schema_fields inner) index of
                               None \<Rightarrow> None
                             | Some f \<Rightarrow> unique_match input (column_ref_of f))
                    (group_key_list keys)))"

lemma unique_match_Some:
  "unique_match input key = Some i \<longleftrightarrow>
     i < length (schema_fields input) \<and> column_ref_of (schema_fields input ! i) = key
     \<and> (\<forall>j < length (schema_fields input). column_ref_of (schema_fields input ! j) = key \<longrightarrow> j = i)"
proof -
  let ?n = "length (schema_fields input)"
  let ?p = "\<lambda>i. column_ref_of (schema_fields input ! i) = key"
  let ?xs = "filter ?p [0..<?n]"
  have d: "distinct ?xs" and s: "set ?xs = {j. j < ?n \<and> ?p j}" by auto
  have "unique_match input key = Some i \<longleftrightarrow> ?xs = [i]"
    by (simp add: unique_match_def split: list.splits)
  also have "\<dots> \<longleftrightarrow> set ?xs = {i}"
    by (rule distinct_singleton[OF d])
  also have "\<dots> \<longleftrightarrow> i < ?n \<and> ?p i \<and> (\<forall>j < ?n. ?p j \<longrightarrow> j = i)"
    unfolding s by auto
  finally show ?thesis .
qed

section \<open>Operator parameters\<close>

datatype source = TimeSeries string | TableSource string

datatype vector_set_op_kind = VectorAnd | VectorOr | VectorUnless

datatype binary_op_kind =
    ArithmeticKind arithmetic_op_kind
  | CompareKind compare_op_kind
  | CompareBoolKind compare_op_kind
  | SetKind vector_set_op_kind

datatype join_kind = InnerJoin | LeftJoin | RightJoin | FullJoin | CrossJoin | SemiJoin | AntiJoin

datatype relational_set_op_kind = UnionOp | IntersectOp | ExceptOp

datatype window_func_kind =
    RowNumber | RankFunc | DenseRank | Lag | Lead | LagInFrame | LeadInFrame | FirstValue | LastValue
  | NthValue "nat option" | WindowSum | WindowAvg | WindowCount | WindowMin | WindowMax

datatype window_frame_units = RowsUnits | RangeUnits

datatype window_frame_offset =
  ScalarOffset scalar_value | IntervalOffset int int int \<comment> \<open>months, days, nanoseconds\<close>

datatype window_frame_bound =
  Preceding window_frame_offset | CurrentRow | Following window_frame_offset

record window_frame =
  frame_units :: window_frame_units
  frame_start :: window_frame_bound
  frame_end :: window_frame_bound

record info_matcher =
  info_label :: string
  info_op :: compare_op_kind
  info_value :: string

datatype sample_kind = LimitK nat | LimitRatio f64

datatype vector_match_kind = OnLabels | IgnoringLabels

datatype group_side = GroupLeft | GroupRight

record vector_grouping =
  grouping_side :: group_side
  grouping_labels :: "string list"

record vector_match =
  match_kind :: vector_match_kind
  match_labels :: "string list"
  match_grouping :: "vector_grouping option"

datatype at_modifier = AtStart | AtEnd | AtTimestamp int

record time_shift =
  offset_ms :: int
  shift_at :: "at_modifier option"

definition is_identity_shift :: "time_shift \<Rightarrow> bool" where
  "is_identity_shift s \<longleftrightarrow> offset_ms s = 0 \<and> shift_at s = None"

section \<open>Aggregation intents\<close>

datatype time_func =
    TimestampFn | MinuteFn | HourFn | DayOfWeekFn | DayOfMonthFn | DayOfYearFn | MonthFn | YearFn
  | DaysInMonthFn

datatype math_func =
    AbsFn | CeilFn | FloorFn | ExpFn | LnFn | Log2Fn | Log10Fn | SqrtFn | SgnFn | SinFn | CosFn
  | TanFn | AsinFn | AcosFn | AtanFn | SinhFn | CoshFn | TanhFn | AsinhFn | AcoshFn | AtanhFn
  | DegFn | RadFn | RoundFn f64 | ClampFn f64 f64 | ClampMinFn f64 | ClampMaxFn f64

datatype (plugins del: quickcheck_random quickcheck_exhaustive quickcheck_full_exhaustive
    quickcheck_narrowing quickcheck_bounded_forall) 'k agg_intent =
    AggCount accuracy_target
  | AggSum "'k option"
  | AggMin "'k option"
  | AggMax "'k option"
  | AggAvg "'k option"
  | AggStdDev "'k option" bool
  | AggVariance "'k option" bool
  | AggPearsonCorr 'k 'k
  | AggQuantile "'k option" f64 accuracy_target
  | AggTopK nat accuracy_target
  | AggCardinality "'k list" accuracy_target
  | AggFrequencyL2 "'k option" accuracy_target
  | AggFrequencyEntropy "'k option" accuracy_target
  | AggRate | AggIRate | AggIncrease | AggChanges | AggDelta | AggIDelta | AggDeriv | AggResets
  | AggPredictLinear f64
  | AggDoubleExpSmoothing f64 f64
  | AggHistogramCount | AggHistogramSum | AggHistogramAvg | AggHistogramStdDev | AggHistogramStdVar
  | AggHistogramFraction f64 f64
  | AggHistogramQuantile f64 'k
  | AggMath math_func
  | AggAbsent "(string \<times> string) list" \<comment> \<open>a map in key order\<close>
  | AggAbsentOverTime | AggPresentOverTime
  | AggTimeFn time_func
  | AggGroup
  | AggCountValues string
  | AggLastOverTime | AggFirstOverTime | AggMadOverTime | AggTsOfMinOverTime | AggTsOfMaxOverTime
  | AggTsOfFirstOverTime | AggTsOfLastOverTime
  | AggExtension string json_value

definition is_per_series :: "'k agg_intent \<Rightarrow> bool" where
  "is_per_series a \<longleftrightarrow>
     (case a of
        AggRate \<Rightarrow> True | AggIRate \<Rightarrow> True | AggIncrease \<Rightarrow> True | AggChanges \<Rightarrow> True
      | AggDelta \<Rightarrow> True | AggIDelta \<Rightarrow> True | AggDeriv \<Rightarrow> True | AggResets \<Rightarrow> True
      | AggPredictLinear _ \<Rightarrow> True | AggDoubleExpSmoothing _ _ \<Rightarrow> True
      | AggHistogramCount \<Rightarrow> True | AggHistogramSum \<Rightarrow> True | AggHistogramAvg \<Rightarrow> True
      | AggHistogramStdDev \<Rightarrow> True | AggHistogramStdVar \<Rightarrow> True | AggHistogramFraction _ _ \<Rightarrow> True
      | AggMath _ \<Rightarrow> True | AggAbsentOverTime \<Rightarrow> True | AggPresentOverTime \<Rightarrow> True
      | AggTimeFn _ \<Rightarrow> True | AggLastOverTime \<Rightarrow> True | AggFirstOverTime \<Rightarrow> True
      | AggMadOverTime \<Rightarrow> True | AggTsOfMinOverTime \<Rightarrow> True | AggTsOfMaxOverTime \<Rightarrow> True
      | AggTsOfFirstOverTime \<Rightarrow> True | AggTsOfLastOverTime \<Rightarrow> True
      | _ \<Rightarrow> False)"

definition option_list :: "'a option \<Rightarrow> 'a list" where
  "option_list x = (case x of None \<Rightarrow> [] | Some a \<Rightarrow> [a])"

definition input_cols :: "'k agg_intent \<Rightarrow> 'k list" where
  "input_cols a =
     (case a of
        AggSum c \<Rightarrow> option_list c | AggMin c \<Rightarrow> option_list c | AggMax c \<Rightarrow> option_list c
      | AggAvg c \<Rightarrow> option_list c | AggQuantile c _ _ \<Rightarrow> option_list c
      | AggFrequencyL2 c _ \<Rightarrow> option_list c | AggFrequencyEntropy c _ \<Rightarrow> option_list c
      | AggStdDev c _ \<Rightarrow> option_list c | AggVariance c _ \<Rightarrow> option_list c
      | AggCardinality cs _ \<Rightarrow> cs
      | AggPearsonCorr l r \<Rightarrow> [l, r]
      | _ \<Rightarrow> [])"

text \<open>\<^verbatim>\<open>intent_metric\<close>: the metric an intent's value is most naturally stated in.\<close>

definition intent_metric :: "'k agg_intent \<Rightarrow> accuracy_metric option" where
  "intent_metric a =
     (case a of
        AggCount _ \<Rightarrow> Some (Absolute (Some StreamL1))
      | AggTopK _ _ \<Rightarrow> Some (Absolute (Some StreamL1))
      | AggCardinality _ _ \<Rightarrow> Some Relative
      | AggFrequencyL2 _ _ \<Rightarrow> Some Relative
      | _ \<Rightarrow> None)"

section \<open>Maintained populations\<close>

datatype current_series_match = MatchEqual | MatchNotEqual | MatchRegex | MatchNotRegex

record current_series_matcher =
  matcher_label :: string
  matcher_value :: string
  matcher_operation :: current_series_match

record current_series_input =
  cs_metric :: string
  cs_matchers :: "current_series_matcher list"
  cs_grouping :: "string list"
  cs_without :: bool
  cs_lookback_ms :: nat

datatype population_statistic =
  PopQuantile f64 | PopTopK nat | PopSum | PopCount | PopAverage

datatype 'n population_input =
  CurrentSeries current_series_input | PopRows 'n nat "column_id group_keys"

datatype 'n maintained_population =
  MaintainedPopulation (population_input: "'n population_input") (max_k: nat) (quantiles: bool)

definition supports :: "'n maintained_population \<Rightarrow> population_statistic \<Rightarrow> bool" where
  "supports p evaluation \<longleftrightarrow>
     (case evaluation of
        PopQuantile q \<Rightarrow> quantiles p \<and> is_finite q
      | PopTopK k \<Rightarrow> k \<le> max_k p
      | PopSum \<Rightarrow> True | PopCount \<Rightarrow> True | PopAverage \<Rightarrow> True)"

end
