(* ===== verification/Operators.thy ===== *)
theory Operators
  imports OpProps
begin

text \<open>
  Query operators and ASAP summary operators (\<^verbatim>\<open>crates/types/src/ir/operator/non_asap.rs\<close>,
  \<^verbatim>\<open>asap.rs\<close>), generic in the reference \<open>'c\<close> to their inputs. The population of a
  \<^verbatim>\<open>MaintainPopulation\<close> names whole nodes whatever \<open>'c\<close> is, so the type has a second parameter
  \<open>'n\<close>. Each operator lists its inputs (\<^verbatim>\<open>children\<close>) and is rebuilt over mapped ones
  (\<^verbatim>\<open>map_children\<close>), the mapping closure threading a state in the order the code calls it.
  Durations are nanoseconds.
\<close>

section \<open>The operators\<close>

datatype time_range_kind = InstantRange | RangeRange

record binary_operator =
  checked_relative_division :: bool
  checked_finite_division :: bool
  binary_kind :: binary_op_kind
  vector_match_of :: "vector_match option"

datatype (plugins del: quickcheck_random quickcheck_exhaustive quickcheck_full_exhaustive
    quickcheck_narrowing quickcheck_bounded_forall) 'c non_asap_op =
    Scan source "'c predicate list" schema
  | Values "'c scalar_expr list list" schema
  | Filter "'c predicate" 'c
  | Project "'c project_item list" "string option" 'c
  | Aggregate "column_id reduction" "column_id agg_intent list" "string list"
      "'c predicate option list" "'c predicate option" 'c
  | Join join_kind "'c predicate" 'c 'c
  | SetOp relational_set_op_kind bool 'c 'c
  | Concat "'c list"
  | Dedup "column_id list" 'c
  | Sort "'c sort_key list" "column_id group_keys" 'c
  | Limit "nat option" nat "column_id group_keys" 'c
  | BinaryOp binary_operator bool 'c 'c
  | SQLWindowFunc window_func_kind "'c scalar_expr list" "column_id group_keys" "'c sort_key list"
      "window_frame option" string 'c
  | TimeRange nat time_range_kind 'c
  | TimeShift time_shift 'c
  | PromqlVectorFromScalar "'c scalar_expr"
  | PromqlRelabel string "'c scalar_expr" 'c
  | PromqlInfoEnrich "info_matcher list" 'c
  | PromqlSeriesSample "column_id group_keys" sample_kind 'c
  | PromqlSubquery nat "nat option" 'c

datatype (plugins del: quickcheck_random quickcheck_exhaustive quickcheck_full_exhaustive
    quickcheck_narrowing quickcheck_bounded_forall) ('c, 'n) asap_op =
    SummaryAgg 'c field_data_type summary_update "column_id reduction" grouping_strategy
      "'c predicate option"
  | SummaryEstimate 'c sketch_statistic
  | FinalizeExactAccumulator 'c
  | MaintainPopulation 'c "'n maintained_population"
  | EvaluatePopulation 'c population_statistic
  | SummaryMerge "'c list" "nat option" "column_id list option"
  | SummaryTumblingWindowChain 'c field_data_type summary_update "column_id reduction"
      grouping_strategy "'c predicate option" nat nat
  | SummarySubtract 'c 'c
  | SummaryDelete 'c column_id
  | SummaryJoin 'c 'c column_id field_data_type
  | Extension 'c string

section \<open>Inputs\<close>

text \<open>\<^verbatim>\<open>NonASAPOp::scalar_exprs\<close>.\<close>

fun scalar_exprs :: "'c non_asap_op \<Rightarrow> 'c scalar_expr list" where
  "scalar_exprs (Scan _ predicates _) = map pred_expr predicates"
| "scalar_exprs (Values rows _) = concat rows"
| "scalar_exprs (Filter pred _) = [pred_expr pred]"
| "scalar_exprs (Join _ pred _ _) = [pred_expr pred]"
| "scalar_exprs (Project cols _ _) = map item_expr cols"
| "scalar_exprs (Aggregate _ _ _ filters having _) =
     map pred_expr (concat (map option_list filters) @ option_list having)"
| "scalar_exprs (Sort keys _ _) = map key_expr keys"
| "scalar_exprs (SQLWindowFunc _ args _ order_by _ _ _) = args @ map key_expr order_by"
| "scalar_exprs (PromqlVectorFromScalar e) = [e]"
| "scalar_exprs (PromqlRelabel _ v _) = [v]"
| "scalar_exprs _ = []"

text \<open>\<^verbatim>\<open>NonASAPOp::children\<close>: the direct inputs, then the nodes the scalar expressions read.\<close>

fun direct_inputs :: "'c non_asap_op \<Rightarrow> 'c list" where
  "direct_inputs (Scan _ _ _) = []"
| "direct_inputs (Values _ _) = []"
| "direct_inputs (PromqlVectorFromScalar _) = []"
| "direct_inputs (Filter _ c) = [c]"
| "direct_inputs (Project _ _ c) = [c]"
| "direct_inputs (Aggregate _ _ _ _ _ c) = [c]"
| "direct_inputs (Dedup _ c) = [c]"
| "direct_inputs (Sort _ _ c) = [c]"
| "direct_inputs (Limit _ _ _ c) = [c]"
| "direct_inputs (SQLWindowFunc _ _ _ _ _ _ c) = [c]"
| "direct_inputs (TimeRange _ _ c) = [c]"
| "direct_inputs (TimeShift _ c) = [c]"
| "direct_inputs (PromqlRelabel _ _ c) = [c]"
| "direct_inputs (PromqlInfoEnrich _ c) = [c]"
| "direct_inputs (PromqlSeriesSample _ _ c) = [c]"
| "direct_inputs (PromqlSubquery _ _ c) = [c]"
| "direct_inputs (Join _ _ l r) = [l, r]"
| "direct_inputs (SetOp _ _ l r) = [l, r]"
| "direct_inputs (BinaryOp _ _ l r) = [l, r]"
| "direct_inputs (Concat cs) = cs"

definition non_asap_children :: "'c non_asap_op \<Rightarrow> 'c list" where
  "non_asap_children op = direct_inputs op @ concat (map operator_refs (scalar_exprs op))"

text \<open>\<^verbatim>\<open>ASAPOp::children\<close>.\<close>

fun asap_children :: "('c, 'n) asap_op \<Rightarrow> 'c list" where
  "asap_children (SummaryAgg c _ _ _ _ flt) =
     c # (case flt of None \<Rightarrow> [] | Some p \<Rightarrow> operator_refs (pred_expr p))"
| "asap_children (SummaryTumblingWindowChain c _ _ _ _ flt _ _) =
     c # (case flt of None \<Rightarrow> [] | Some p \<Rightarrow> operator_refs (pred_expr p))"
| "asap_children (FinalizeExactAccumulator c) = [c]"
| "asap_children (MaintainPopulation c _) = [c]"
| "asap_children (EvaluatePopulation c _) = [c]"
| "asap_children (Extension c _) = [c]"
| "asap_children (SummaryEstimate c _) = [c]"
| "asap_children (SummaryDelete c _) = [c]"
| "asap_children (SummarySubtract l r) = [l, r]"
| "asap_children (SummaryJoin l r _ _) = [l, r]"
| "asap_children (SummaryMerge cs _ _) = cs"

section \<open>Rebuilding over mapped inputs\<close>

definition map_pred_st ::
  "('c \<Rightarrow> 's \<Rightarrow> 'd \<times> 's) \<Rightarrow> 'c predicate \<Rightarrow> 's \<Rightarrow> 'd predicate \<times> 's" where
  "map_pred_st f p = bind_st (map_operator_refs_st f (pred_expr p)) (\<lambda>e. return_st (Predicate e))"

definition map_keys_st ::
  "('c \<Rightarrow> 's \<Rightarrow> 'd \<times> 's) \<Rightarrow> 'c sort_key list \<Rightarrow> 's \<Rightarrow> 'd sort_key list \<times> 's" where
  "map_keys_st f =
     map_st (\<lambda>k. bind_st (map_operator_refs_st f (key_expr k))
                   (\<lambda>e. return_st (SortKey e (ascending k) (nulls_first k))))"

definition map_option_st ::
  "('a \<Rightarrow> 's \<Rightarrow> 'b \<times> 's) \<Rightarrow> 'a option \<Rightarrow> 's \<Rightarrow> 'b option \<times> 's" where
  "map_option_st f x =
     (case x of None \<Rightarrow> return_st None | Some a \<Rightarrow> bind_st (f a) (\<lambda>b. return_st (Some b)))"

text \<open>
  \<^verbatim>\<open>NonASAPOp::map_children\<close>. The expressions of an operator are mapped before its direct inputs
  (\<^verbatim>\<open>let pred = map_pred(..)\<close> precedes \<^verbatim>\<open>child: f(child)\<close>).
\<close>

fun map_non_asap_st ::
  "('c \<Rightarrow> 's \<Rightarrow> 'd \<times> 's) \<Rightarrow> 'c non_asap_op \<Rightarrow> 's \<Rightarrow> 'd non_asap_op \<times> 's" where
  "map_non_asap_st f (Scan src predicates sch) =
     bind_st (map_st (map_pred_st f) predicates) (\<lambda>ps. return_st (Scan src ps sch))"
| "map_non_asap_st f (Values rows sch) =
     bind_st (map_st (map_st (map_operator_refs_st f)) rows) (\<lambda>rs. return_st (Values rs sch))"
| "map_non_asap_st f (PromqlVectorFromScalar e) =
     bind_st (map_operator_refs_st f e) (\<lambda>e. return_st (PromqlVectorFromScalar e))"
| "map_non_asap_st f (Filter pred c) =
     bind_st (map_pred_st f pred) (\<lambda>p. bind_st (f c) (\<lambda>c. return_st (Filter p c)))"
| "map_non_asap_st f (Project cols q c) =
     bind_st (map_st (\<lambda>i. bind_st (map_operator_refs_st f (item_expr i))
                          (\<lambda>e. return_st (ProjectItem (alias_of i) e))) cols) (\<lambda>cols.
     bind_st (f c) (\<lambda>c. return_st (Project cols q c)))"
| "map_non_asap_st f (Aggregate red ms ns flts hv c) =
     bind_st (map_st (map_option_st (map_pred_st f)) flts) (\<lambda>flts.
     bind_st (map_option_st (map_pred_st f) hv) (\<lambda>hv.
     bind_st (f c) (\<lambda>c. return_st (Aggregate red ms ns flts hv c))))"
| "map_non_asap_st f (Join k pred l r) =
     bind_st (map_pred_st f pred) (\<lambda>p.
     bind_st (f l) (\<lambda>l. bind_st (f r) (\<lambda>r. return_st (Join k p l r))))"
| "map_non_asap_st f (SetOp k a l r) =
     bind_st (f l) (\<lambda>l. bind_st (f r) (\<lambda>r. return_st (SetOp k a l r)))"
| "map_non_asap_st f (Concat cs) = bind_st (map_st f cs) (\<lambda>cs. return_st (Concat cs))"
| "map_non_asap_st f (Dedup cols c) = bind_st (f c) (\<lambda>c. return_st (Dedup cols c))"
| "map_non_asap_st f (Sort keys part c) =
     bind_st (map_keys_st f keys) (\<lambda>keys. bind_st (f c) (\<lambda>c. return_st (Sort keys part c)))"
| "map_non_asap_st f (Limit n offset part c) =
     bind_st (f c) (\<lambda>c. return_st (Limit n offset part c))"
| "map_non_asap_st f (BinaryOp operator rb l r) =
     bind_st (f l) (\<lambda>l. bind_st (f r) (\<lambda>r. return_st (BinaryOp operator rb l r)))"
| "map_non_asap_st f (SQLWindowFunc func args part order_by frame out c) =
     bind_st (map_st (map_operator_refs_st f) args) (\<lambda>args.
     bind_st (map_keys_st f order_by) (\<lambda>order_by.
     bind_st (f c) (\<lambda>c. return_st (SQLWindowFunc func args part order_by frame out c))))"
| "map_non_asap_st f (TimeRange rng k c) = bind_st (f c) (\<lambda>c. return_st (TimeRange rng k c))"
| "map_non_asap_st f (TimeShift sh c) = bind_st (f c) (\<lambda>c. return_st (TimeShift sh c))"
| "map_non_asap_st f (PromqlRelabel dst v c) =
     bind_st (map_operator_refs_st f v) (\<lambda>v.
     bind_st (f c) (\<lambda>c. return_st (PromqlRelabel dst v c)))"
| "map_non_asap_st f (PromqlInfoEnrich sel c) =
     bind_st (f c) (\<lambda>c. return_st (PromqlInfoEnrich sel c))"
| "map_non_asap_st f (PromqlSeriesSample grp k c) =
     bind_st (f c) (\<lambda>c. return_st (PromqlSeriesSample grp k c))"
| "map_non_asap_st f (PromqlSubquery rng res c) =
     bind_st (f c) (\<lambda>c. return_st (PromqlSubquery rng res c))"

text \<open>\<^verbatim>\<open>ASAPOp::map_children\<close>: here the input is mapped before the filter.\<close>

fun map_asap_st ::
  "('c \<Rightarrow> 's \<Rightarrow> 'd \<times> 's) \<Rightarrow> ('c, 'n) asap_op \<Rightarrow> 's \<Rightarrow> ('d, 'n) asap_op \<times> 's" where
  "map_asap_st f (SummaryAgg c fam inp red grp flt) =
     bind_st (f c) (\<lambda>c. bind_st (map_option_st (map_pred_st f) flt) (\<lambda>flt.
     return_st (SummaryAgg c fam inp red grp flt)))"
| "map_asap_st f (SummaryTumblingWindowChain c fam inp red grp flt w n) =
     bind_st (f c) (\<lambda>c. bind_st (map_option_st (map_pred_st f) flt) (\<lambda>flt.
     return_st (SummaryTumblingWindowChain c fam inp red grp flt w n)))"
| "map_asap_st f (SummaryEstimate c q) = bind_st (f c) (\<lambda>c. return_st (SummaryEstimate c q))"
| "map_asap_st f (FinalizeExactAccumulator c) =
     bind_st (f c) (\<lambda>c. return_st (FinalizeExactAccumulator c))"
| "map_asap_st f (MaintainPopulation c p) =
     bind_st (f c) (\<lambda>c. return_st (MaintainPopulation c p))"
| "map_asap_st f (EvaluatePopulation c e) =
     bind_st (f c) (\<lambda>c. return_st (EvaluatePopulation c e))"
| "map_asap_st f (SummaryMerge cs newest grp) =
     bind_st (map_st f cs) (\<lambda>cs. return_st (SummaryMerge cs newest grp))"
| "map_asap_st f (SummarySubtract l r) =
     bind_st (f l) (\<lambda>l. bind_st (f r) (\<lambda>r. return_st (SummarySubtract l r)))"
| "map_asap_st f (SummaryDelete c k) = bind_st (f c) (\<lambda>c. return_st (SummaryDelete c k))"
| "map_asap_st f (SummaryJoin l r k fam) =
     bind_st (f l) (\<lambda>l. bind_st (f r) (\<lambda>r. return_st (SummaryJoin l r k fam)))"
| "map_asap_st f (Extension c n) = bind_st (f c) (\<lambda>c. return_st (Extension c n))"

section \<open>Names\<close>

fun non_asap_kind_name :: "'c non_asap_op \<Rightarrow> string" where
  "non_asap_kind_name (Scan _ _ _) = ''Scan''"
| "non_asap_kind_name (Values _ _) = ''Values''"
| "non_asap_kind_name (Filter _ _) = ''Filter''"
| "non_asap_kind_name (Project _ _ _) = ''Project''"
| "non_asap_kind_name (Aggregate _ _ _ _ _ _) = ''Aggregate''"
| "non_asap_kind_name (Join _ _ _ _) = ''Join''"
| "non_asap_kind_name (SetOp _ _ _ _) = ''SetOp''"
| "non_asap_kind_name (Concat _) = ''Concat''"
| "non_asap_kind_name (Dedup _ _) = ''Dedup''"
| "non_asap_kind_name (Sort _ _ _) = ''Sort''"
| "non_asap_kind_name (Limit _ _ _ _) = ''Limit''"
| "non_asap_kind_name (BinaryOp _ _ _ _) = ''BinaryOp''"
| "non_asap_kind_name (SQLWindowFunc _ _ _ _ _ _ _) = ''SQLWindowFunc''"
| "non_asap_kind_name (TimeRange _ _ _) = ''TimeRange''"
| "non_asap_kind_name (TimeShift _ _) = ''TimeShift''"
| "non_asap_kind_name (PromqlVectorFromScalar _) = ''PromqlVectorFromScalar''"
| "non_asap_kind_name (PromqlRelabel _ _ _) = ''PromqlRelabel''"
| "non_asap_kind_name (PromqlInfoEnrich _ _) = ''PromqlInfoEnrich''"
| "non_asap_kind_name (PromqlSeriesSample _ _ _) = ''PromqlSeriesSample''"
| "non_asap_kind_name (PromqlSubquery _ _ _) = ''PromqlSubquery''"

fun asap_kind_name :: "('c, 'n) asap_op \<Rightarrow> string" where
  "asap_kind_name (SummaryAgg _ _ _ _ _ _) = ''SummaryAgg''"
| "asap_kind_name (SummaryEstimate _ _) = ''SummaryEstimate''"
| "asap_kind_name (FinalizeExactAccumulator _) = ''FinalizeExactAccumulator''"
| "asap_kind_name (MaintainPopulation _ _) = ''MaintainPopulation''"
| "asap_kind_name (EvaluatePopulation _ _) = ''EvaluatePopulation''"
| "asap_kind_name (SummaryMerge _ _ _) = ''SummaryMerge''"
| "asap_kind_name (SummaryTumblingWindowChain _ _ _ _ _ _ _ _) = ''SummaryTumblingWindowChain''"
| "asap_kind_name (SummarySubtract _ _) = ''SummarySubtract''"
| "asap_kind_name (SummaryDelete _ _) = ''SummaryDelete''"
| "asap_kind_name (SummaryJoin _ _ _ _) = ''SummaryJoin''"
| "asap_kind_name (Extension _ _) = ''Extension''"

end
