(* ===== verification/Traversals.thy ===== *)
theory Traversals
  imports Operators "HOL-Library.Multiset"
begin

text \<open>
  What the rebuilds of \<^verbatim>\<open>scalar/mod.rs\<close>, \<^verbatim>\<open>non_asap.rs\<close> and \<^verbatim>\<open>asap.rs\<close> do with a closure: they call it once
  per reference the operator lists as a child, and return the same operator over the results.
  A closure that records its arguments is run; \<open>runs m d vs\<close> says that \<open>m\<close> returns \<open>d\<close> and records
  exactly \<open>vs\<close>.
\<close>

definition runs :: "('c list \<Rightarrow> 'a \<times> 'c list) \<Rightarrow> 'a \<Rightarrow> 'c list \<Rightarrow> bool" where
  "runs m d vs \<longleftrightarrow> (\<forall>l. m l = (d, l @ vs))"

definition recording :: "('c \<Rightarrow> 'd) \<Rightarrow> 'c \<Rightarrow> 'c list \<Rightarrow> 'd \<times> 'c list" where
  "recording h c l = (h c, l @ [c])"

named_theorems runs_intros \<open>how the combinators record\<close>

lemma runs_return [runs_intros]: "runs (return_st a) a []"
  by (simp add: runs_def)

lemma runs_Pair [runs_intros]: "runs (Pair a) a []"
  by (simp add: runs_def)

lemma runs_recording [runs_intros]: "runs (recording h c) (h c) [c]"
  by (simp add: runs_def recording_def)

lemma runs_bind: "runs m a vs \<Longrightarrow> runs (k a) b ws \<Longrightarrow> runs (bind_st m k) b (vs @ ws)"
  by (simp add: runs_def bind_st_def)

lemma runs_bind_eq [runs_intros]:
  "runs m a vs \<Longrightarrow> runs (k a) b ws \<Longrightarrow> us = vs @ ws \<Longrightarrow> runs (bind_st m k) b us"
  by (simp add: runs_bind)

lemma runs_seq:
  "(\<And>x. x \<in> set xs \<Longrightarrow> runs (m x) (d x) (v x)) \<Longrightarrow>
   runs (seq_st (map m xs)) (map d xs) (concat (map v xs))"
  by (induction xs) (auto intro!: runs_intros)

lemma runs_map_st:
  "(\<And>x. x \<in> set xs \<Longrightarrow> runs (m x) (d x) (v x)) \<Longrightarrow>
   runs (map_st m xs) (map d xs) (concat (map v xs))"
  using runs_seq[of xs m d v] by (simp add: runs_def seq_st_map)

lemma runs_opt:
  "(\<And>x. x \<in> set_option p \<Longrightarrow> runs (m x) (d x) (v x)) \<Longrightarrow>
   runs (opt_st (map_option m p)) (map_option d p) (concat (map v (option_list p)))"
  by (cases p) (auto intro!: runs_intros simp: option_list_def)

lemma runs_map_option_st:
  "(\<And>x. x \<in> set_option p \<Longrightarrow> runs (m x) (d x) (v x)) \<Longrightarrow>
   runs (map_option_st m p) (map_option d p) (concat (map v (option_list p)))"
  by (cases p) (auto intro!: runs_intros simp: option_list_def map_option_st_def)

lemma runs_pair [runs_intros]:
  "runs m a vs \<Longrightarrow> runs n b ws \<Longrightarrow> us = vs @ ws \<Longrightarrow> runs (pair_st (m, n)) (a, b) us"
  by (auto intro!: runs_intros)

section \<open>Scalar expressions\<close>

text \<open>The references in the order the rebuild visits them.\<close>

primrec mapped_refs :: "'c scalar_expr \<Rightarrow> 'c list" where
  "mapped_refs (Column c) = []"
| "mapped_refs (Literal v) = []"
| "mapped_refs CurrentTimestamp = []"
| "mapped_refs EvalTimestamp = []"
| "mapped_refs (PromqlScalarFromVector n) = [n]"
| "mapped_refs (ScalarSubquery n) = [n]"
| "mapped_refs (Exists n negated) = [n]"
| "mapped_refs (InSubquery e n negated) = mapped_refs e @ [n]"
| "mapped_refs (Negative e sem) = mapped_refs e"
| "mapped_refs (Compare l op r sem) = mapped_refs l @ mapped_refs r"
| "mapped_refs (BoolAnd es) = concat (map mapped_refs es)"
| "mapped_refs (BoolOr es) = concat (map mapped_refs es)"
| "mapped_refs (Not e) = mapped_refs e"
| "mapped_refs (IsNull e) = mapped_refs e"
| "mapped_refs (IsNotNull e) = mapped_refs e"
| "mapped_refs (Cast e to try_cast) = mapped_refs e"
| "mapped_refs (InList e es negated) = mapped_refs e @ concat (map mapped_refs es)"
| "mapped_refs (FunctionCall n es) = concat (map mapped_refs es)"
| "mapped_refs (Arithmetic op l r sem) = mapped_refs l @ mapped_refs r"
| "mapped_refs (Case operand branches else_expr) =
     concat (option_list (map_option mapped_refs operand))
     @ concat (map (\<lambda>(w, t). w @ t) (map (map_prod mapped_refs mapped_refs) branches))
     @ concat (option_list (map_option mapped_refs else_expr))"

lemma option_list_map: "option_list (map_option f x) = map f (option_list x)"
  by (cases x) (simp_all add: option_list_def)

lemma set_option_list [simp]: "set (option_list x) = set_option x"
  by (cases x) (simp_all add: option_list_def)

lemma runs_map_parts:
  "runs (map_parts_st (\<lambda>c. c) (recording h) e) (map_scalar_expr h e) (mapped_refs e)"
proof (induction e)
  case (Case operand branches else_expr)
  let ?m = "map_parts_st (\<lambda>c. c) (recording h)"
  have o: "runs (opt_st (map_option ?m operand)) (map_option (map_scalar_expr h) operand)
      (concat (map mapped_refs (option_list operand)))"
    by (rule runs_opt) (rule Case.IH(1))
  have e: "runs (opt_st (map_option ?m else_expr)) (map_option (map_scalar_expr h) else_expr)
      (concat (map mapped_refs (option_list else_expr)))"
    by (rule runs_opt) (rule Case.IH(4))
  have b: "runs (seq_st (map pair_st (map (map_prod ?m ?m) branches)))
      (map (map_prod (map_scalar_expr h) (map_scalar_expr h)) branches)
      (concat (map (\<lambda>b. mapped_refs (fst b) @ mapped_refs (snd b)) branches))"
    unfolding list.map_comp
  proof (rule runs_seq)
    fix b assume b: "b \<in> set branches"
    obtain w t where wt: "b = (w, t)" by (cases b)
    show "runs ((pair_st \<circ> map_prod ?m ?m) b) (map_prod (map_scalar_expr h) (map_scalar_expr h) b)
        (mapped_refs (fst b) @ mapped_refs (snd b))"
      using Case.IH(2,3)[OF b] by (auto simp: wt intro!: runs_intros simp del: pair_st.simps)
  qed
  have refs: "mapped_refs (Case operand branches else_expr) =
      concat (map mapped_refs (option_list operand))
      @ concat (map (\<lambda>b. mapped_refs (fst b) @ mapped_refs (snd b)) branches)
      @ concat (map mapped_refs (option_list else_expr)) @ []"
    by (simp add: option_list_map comp_def case_prod_unfold)
  show ?case
    unfolding map_parts_st.simps refs scalar_expr.map
    by (rule runs_bind, rule o, rule runs_bind, rule b, rule runs_bind, rule e, rule runs_return)
qed (auto intro!: runs_intros runs_seq)

lemma concat_map_pairs:
  "concat (map f (concat (map (\<lambda>(w, t). [w, t]) bs))) = concat (map (\<lambda>(w, t). f w @ f t) bs)"
  by (induction bs) auto

lemma concat_map_option:
  "concat (map f (case x of Some e \<Rightarrow> [e] | None \<Rightarrow> [])) = concat (map f (option_list x))"
  by (cases x) (simp_all add: option_list_def)

lemma operator_refs_case [simp]:
  "operator_refs (Column i) = []"
  "operator_refs (Literal v) = []"
  "operator_refs CurrentTimestamp = []"
  "operator_refs EvalTimestamp = []"
  "operator_refs (PromqlScalarFromVector n) = [n]"
  "operator_refs (ScalarSubquery n) = [n]"
  "operator_refs (Exists n neg) = [n]"
  "operator_refs (InSubquery e n neg) = n # operator_refs e"
  "operator_refs (Negative e sem) = operator_refs e"
  "operator_refs (Compare l cop r sem) = operator_refs l @ operator_refs r"
  "operator_refs (BoolAnd es) = concat (map operator_refs es)"
  "operator_refs (BoolOr es) = concat (map operator_refs es)"
  "operator_refs (Not e) = operator_refs e"
  "operator_refs (IsNull e) = operator_refs e"
  "operator_refs (IsNotNull e) = operator_refs e"
  "operator_refs (Cast e ty try) = operator_refs e"
  "operator_refs (InList e es neg) = operator_refs e @ concat (map operator_refs es)"
  "operator_refs (FunctionCall fn es) = concat (map operator_refs es)"
  "operator_refs (Arithmetic aop l r sem) = operator_refs l @ operator_refs r"
  "operator_refs (Case operand branches else_expr) =
     concat (map operator_refs (option_list operand))
     @ concat (map (\<lambda>(w, t). operator_refs w @ operator_refs t) branches)
     @ concat (map operator_refs (option_list else_expr))"
  by (subst operator_refs.simps,
      simp add: own_operator_refs_def concat_map_option concat_map_pairs)+

text \<open>The rebuild visits what \<^verbatim>\<open>operator_refs\<close> lists, an \<^verbatim>\<open>IN\<close> subquery later than it is listed.\<close>

lemma mset_concat_map_cong:
  "(\<And>x. x \<in> set xs \<Longrightarrow> mset (f x) = mset (g x)) \<Longrightarrow>
   mset (concat (map f xs)) = mset (concat (map g xs))"
  by (induction xs) auto

lemma mapped_refs_mset: "mset (mapped_refs e) = mset (operator_refs e)"
proof (induction e)
  case (Case operand branches else_expr)
  have b: "mset (concat (map (\<lambda>(w, t). mapped_refs w @ mapped_refs t) branches)) =
      mset (concat (map (\<lambda>(w, t). operator_refs w @ operator_refs t) branches))"
    by (rule mset_concat_map_cong) (use Case.IH(2,3) in \<open>auto simp: Basic_BNFs.fsts.simps Basic_BNFs.snds.simps\<close>)
  have o: "mset (concat (map mapped_refs (option_list operand))) =
      mset (concat (map operator_refs (option_list operand)))"
    by (rule mset_concat_map_cong) (use Case.IH(1) in simp)
  have e: "mset (concat (map mapped_refs (option_list else_expr))) =
      mset (concat (map operator_refs (option_list else_expr)))"
    by (rule mset_concat_map_cong) (use Case.IH(4) in simp)
  have "mapped_refs (Case operand branches else_expr) =
      concat (map mapped_refs (option_list operand))
      @ concat (map (\<lambda>(w, t). mapped_refs w @ mapped_refs t) branches)
      @ concat (map mapped_refs (option_list else_expr))"
    by (simp add: option_list_map comp_def case_prod_unfold)
  with b o e show ?case by simp
qed (auto intro!: mset_concat_map_cong simp del: mset_concat)

lemma map_option_list: "map f (option_list x) = option_list (map_option f x)"
  by (simp add: option_list_map)

lemma operator_refs_map: "operator_refs (map_scalar_expr h e) = map h (operator_refs e)"
proof (induction e)
  case (Case operand branches else_expr)
  have b: "concat (map (\<lambda>x. operator_refs (map_scalar_expr h (fst x)) @ operator_refs (map_scalar_expr h (snd x))) branches)
      = concat (map (\<lambda>x. map h (operator_refs (fst x)) @ map h (operator_refs (snd x))) branches)"
    by (rule arg_cong[where f = concat], rule list.map_cong0)
      (use Case.IH(2,3) in \<open>auto simp: Basic_BNFs.fsts.simps Basic_BNFs.snds.simps\<close>)
  show ?case
    using Case.IH(1,4) b
    by (cases operand; cases else_expr)
      (simp_all add: option_list_def map_concat comp_def case_prod_unfold del: map_eq_conv)
qed (auto simp: map_concat intro!: arg_cong[where f = concat])

lemma set_operator_refs: "set (operator_refs e) = set_scalar_expr e"
proof (induction e)
  case (Case operand branches else_expr)
  have b: "(\<Union>b\<in>set branches. set (operator_refs (fst b)) \<union> set (operator_refs (snd b))) =
      (\<Union>b\<in>set branches. set_scalar_expr (fst b) \<union> set_scalar_expr (snd b))"
    by (rule SUP_cong) (use Case.IH(2,3) in \<open>auto simp: Basic_BNFs.fsts.simps Basic_BNFs.snds.simps\<close>)
  have u: "(\<Union>x\<in>set branches. \<Union> (set_scalar_expr ` Basic_BNFs.fsts x) \<union> \<Union> (set_scalar_expr ` Basic_BNFs.snds x)) =
      (\<Union>b\<in>set branches. set_scalar_expr (fst b) \<union> set_scalar_expr (snd b))"
    by (rule SUP_cong) (auto simp: Basic_BNFs.fsts.simps Basic_BNFs.snds.simps)
  show ?case
    using Case.IH(1,4) b
    by (cases operand; cases else_expr) (auto simp: option_list_def case_prod_unfold u)
qed auto

section \<open>Operators\<close>

lemma map_predicate_expr [simp]: "pred_expr (map_predicate h p) = map_scalar_expr h (pred_expr p)"
  by (cases p) simp

lemma map_key_expr [simp]: "key_expr (map_sort_key h k) = map_scalar_expr h (key_expr k)"
  by (cases k) simp

lemma map_item_expr [simp]: "item_expr (map_project_item h k) = map_scalar_expr h (item_expr k)"
  by (cases k) simp

lemma runs_map_refs [runs_intros]:
  "runs (map_operator_refs_st (recording h) e) (map_scalar_expr h e) (mapped_refs e)"
  by (simp add: map_operator_refs_st_def runs_map_parts)

lemma runs_map_pred [runs_intros]:
  "runs (map_pred_st (recording h) p) (map_predicate h p) (mapped_refs (pred_expr p))"
  by (cases p) (auto simp: map_pred_st_def intro!: runs_intros)

lemma runs_map_keys [runs_intros]:
  "runs (map_keys_st (recording h) ks) (map (map_sort_key h) ks) (concat (map (mapped_refs \<circ> key_expr) ks))"
  unfolding map_keys_st_def
proof (rule runs_map_st)
  fix k :: "'a sort_key"
  show "runs (bind_st (map_operator_refs_st (recording h) (key_expr k))
      (\<lambda>e. return_st (SortKey e (ascending k) (nulls_first k)))) (map_sort_key h k) ((mapped_refs \<circ> key_expr) k)"
    by (cases k) (auto intro!: runs_intros)
qed

lemma runs_map_exprs [runs_intros]:
  "runs (map_st (map_operator_refs_st (recording h)) es) (map (map_scalar_expr h) es)
     (concat (map mapped_refs es))"
  by (rule runs_map_st) (rule runs_map_refs)

lemma runs_map_preds [runs_intros]:
  "runs (map_st (map_pred_st (recording h)) ps) (map (map_predicate h) ps)
     (concat (map (mapped_refs \<circ> pred_expr) ps))"
  by (rule runs_map_st) (auto intro!: runs_intros)

lemma runs_map_inputs [runs_intros]: "runs (map_st (recording h) cs) (map h cs) cs"
  using runs_map_st[of cs "recording h" h "\<lambda>c. [c]"] by (simp add: runs_recording)

text \<open>The rebuild of an operator: expressions first, then direct inputs; for a summary the input first.\<close>

lemma runs_map_optional [runs_intros]:
  "runs (map_option_st (map_pred_st (recording h)) p) (map_option (map_predicate h) p)
     (concat (map (mapped_refs \<circ> pred_expr) (option_list p)))"
  by (rule runs_map_option_st) (auto intro!: runs_intros)

lemma runs_map_optionals [runs_intros]:
  "runs (map_st (map_option_st (map_pred_st (recording h))) ps) (map (map_option (map_predicate h)) ps)
     (concat (map (\<lambda>p. concat (map (mapped_refs \<circ> pred_expr) (option_list p))) ps))"
  by (rule runs_map_st) (rule runs_map_optional)

lemma runs_map_rows [runs_intros]:
  "runs (map_st (map_st (map_operator_refs_st (recording h))) rows) (map (map (map_scalar_expr h)) rows)
     (concat (map (\<lambda>es. concat (map mapped_refs es)) rows))"
  by (rule runs_map_st) (rule runs_map_exprs)

lemma runs_map_items [runs_intros]:
  "runs (map_st (\<lambda>i. bind_st (map_operator_refs_st (recording h) (item_expr i))
                       (\<lambda>e. return_st (ProjectItem (alias_of i) e))) items)
     (map (map_project_item h) items) (concat (map (mapped_refs \<circ> item_expr) items))"
proof (rule runs_map_st)
  fix i :: "'a project_item"
  show "runs (bind_st (map_operator_refs_st (recording h) (item_expr i))
      (\<lambda>e. return_st (ProjectItem (alias_of i) e))) (map_project_item h i) ((mapped_refs \<circ> item_expr) i)"
    by (cases i) (auto intro!: runs_intros)
qed

lemma concat_map_concat: "concat (map f (concat xss)) = concat (map (\<lambda>xs. concat (map f xs)) xss)"
  by (induction xss) auto

definition non_asap_visits :: "'c non_asap_op \<Rightarrow> 'c list" where
  "non_asap_visits op = concat (map mapped_refs (scalar_exprs op)) @ direct_inputs op"

definition asap_visits :: "('c, 'n) asap_op \<Rightarrow> 'c list" where
  "asap_visits op =
     (case op of
        SummaryAgg c _ _ _ _ flt \<Rightarrow> c # concat (map (mapped_refs \<circ> pred_expr) (option_list flt))
      | SummaryTumblingWindowChain c _ _ _ _ flt _ _ \<Rightarrow>
          c # concat (map (mapped_refs \<circ> pred_expr) (option_list flt))
      | _ \<Rightarrow> asap_children op)"

lemma runs_map_non_asap:
  "runs (map_non_asap_st (recording h) op) (map_non_asap_op h op) (non_asap_visits op)"
  by (cases op)
    (auto intro!: runs_intros simp: non_asap_visits_def comp_def concat_map_concat)

lemma runs_map_asap:
  "runs (map_asap_st (recording h) op) (map_asap_op h id op) (asap_visits op)"
  by (cases op)
    (auto intro!: runs_intros simp: asap_visits_def maintained_population.map_id)

lemma non_asap_visits_mset: "mset (non_asap_visits op) = mset (non_asap_children op)"
proof -
  have "mset (concat (map mapped_refs (scalar_exprs op))) =
      mset (concat (map operator_refs (scalar_exprs op)))"
    by (rule mset_concat_map_cong) (rule mapped_refs_mset)
  then show ?thesis by (simp add: non_asap_visits_def non_asap_children_def)
qed

lemma asap_visits_mset: "mset (asap_visits op) = mset (asap_children op)"
  by (cases op) (auto simp: asap_visits_def mapped_refs_mset option_list_def split: option.splits)

lemma filter_exprs_map:
  "map pred_expr \<circ> (option_list \<circ> map_option (map_predicate h)) =
   map (map_scalar_expr h) \<circ> (map pred_expr \<circ> option_list)"
  by (rule ext) (simp add: option_list_def split: option.split)

lemma scalar_exprs_map: "scalar_exprs (map_non_asap_op h op) = map (map_scalar_expr h) (scalar_exprs op)"
  by (cases op) (auto simp: map_concat option_list_map filter_exprs_map)

lemma direct_inputs_map: "direct_inputs (map_non_asap_op h op) = map h (direct_inputs op)"
  by (cases op) simp_all

lemma non_asap_children_map: "non_asap_children (map_non_asap_op h op) = map h (non_asap_children op)"
  by (simp add: non_asap_children_def scalar_exprs_map direct_inputs_map operator_refs_map map_concat comp_def)

lemma asap_children_map: "asap_children (map_asap_op h g op) = map h (asap_children op)"
  by (cases op) (auto simp: operator_refs_map split: option.splits)

lemma set_predicate_refs: "set_predicate p = set (operator_refs (pred_expr p))"
  by (cases p) (simp add: set_operator_refs)

lemma set_sort_key_refs: "set_sort_key k = set (operator_refs (key_expr k))"
  by (cases k) (simp add: set_operator_refs)

lemma set_project_item_refs: "set_project_item k = set (operator_refs (item_expr k))"
  by (cases k) (simp add: set_operator_refs)

lemma set_non_asap_children: "set (non_asap_children op) = set_non_asap_op op"
  by (cases op)
    (auto simp: non_asap_children_def set_predicate_refs set_sort_key_refs set_project_item_refs
        set_operator_refs)

lemma set_asap_children: "set (asap_children op) = set1_asap_op op"
  by (cases op) (auto simp: set_predicate_refs split: option.splits)

lemma non_asap_kind_name_map: "non_asap_kind_name (map_non_asap_op h op) = non_asap_kind_name op"
  by (cases op) simp_all

lemma asap_kind_name_map: "asap_kind_name (map_asap_op h g op) = asap_kind_name op"
  by (cases op) simp_all

end
