(* ===== verification/DataState.thy ===== *)
theory DataState
  imports Schema
begin

text \<open>
  When a value exists and what it carries: materialization options
  (\<^verbatim>\<open>crates/types/src/physical/materialization.rs\<close>), execution timings and edge data states
  (\<^verbatim>\<open>crates/types/src/ir/properties/execution_data_state.rs\<close>).
\<close>

datatype execution_timing = IngestionTime | QueryTime

datatype medium = Memory | Disk

datatype materialization =
    NotMaterialized
  | MatAtIngestion medium
  | MatAtQuery medium
  | MatAtQueryKeptAcrossEvaluations medium

fun materialization_timing :: "materialization \<Rightarrow> execution_timing" where
  "materialization_timing (MatAtIngestion _) = IngestionTime"
| "materialization_timing NotMaterialized = QueryTime"
| "materialization_timing (MatAtQuery _) = QueryTime"
| "materialization_timing (MatAtQueryKeptAcrossEvaluations _) = QueryTime"

fun is_materialized_view :: "materialization \<Rightarrow> bool" where
  "is_materialized_view (MatAtIngestion _) = True"
| "is_materialized_view (MatAtQueryKeptAcrossEvaluations _) = True"
| "is_materialized_view _ = False"

fun timing_as_str :: "execution_timing \<Rightarrow> string" where
  "timing_as_str IngestionTime = ''ingestion_time''"
| "timing_as_str QueryTime = ''query_time''"

datatype data_primitive = Raw | SummaryState

fun primitive_as_str :: "data_primitive \<Rightarrow> string" where
  "primitive_as_str Raw = ''raw''"
| "primitive_as_str SummaryState = ''summary_state''"

record execution_data_state =
  state_timing :: execution_timing
  state_primitive :: data_primitive

definition ingestion_rows :: execution_data_state where
  "ingestion_rows = \<lparr>state_timing = IngestionTime, state_primitive = Raw\<rparr>"
definition ingestion_summary :: execution_data_state where
  "ingestion_summary = \<lparr>state_timing = IngestionTime, state_primitive = SummaryState\<rparr>"
definition query_rows :: execution_data_state where
  "query_rows = \<lparr>state_timing = QueryTime, state_primitive = Raw\<rparr>"

lemmas data_states = ingestion_rows_def ingestion_summary_def query_rows_def

text \<open>\<^verbatim>\<open>Display\<close>.\<close>

definition data_state_display :: "execution_data_state \<Rightarrow> string" where
  "data_state_display s = timing_as_str (state_timing s) @ ''/'' @ primitive_as_str (state_primitive s)"

lemma data_state_display_inj: "data_state_display s = data_state_display t \<longleftrightarrow> s = t"
  by (cases s; cases t; cases "state_timing s"; cases "state_timing t"; cases "state_primitive s";
      cases "state_primitive t") (simp_all add: data_state_display_def)

datatype data_state_error =
    InvalidMaintainedPopulation
  | QueryTimeValueUnderIngestionSummary string execution_data_state
  | UnstoredIngestionInputUnderQueryTimeSummary string string
  | IllegalChildDataState string execution_data_state
  | UnsupportedStateComposition field_data_type \<comment> \<open>the family its message prints\<close>
  | ConflictingTiming execution_data_state execution_data_state
  | UnstoredIngestionRoot string
  | MaterializationConflictsWithFixedTiming string execution_timing materialization
  | FilteredSummaryAtIngestion string
  | InvalidIngestionTimeBinary
  | InvalidCheckedDivision
  | NonPlainOperand string field_data_type \<comment> \<open>column, and the type its message prints\<close>
  | UnimplementedOperator string
  | UpstreamNotAtIngestion string
  | UntimedNode string
  | InvalidPhysicalDAG

end
