(* ===== verification/Node.thy ===== *)
theory Node
  imports Traversals DataState
begin

text \<open>
  The operator node (\<^verbatim>\<open>crates/types/src/ir/operator/node.rs\<close>). Nodes are immutable and shared
  through \<^verbatim>\<open>Rc\<close>; a node carries its identity (\<^verbatim>\<open>Rc::as_ptr\<close>) as \<open>node_id\<close>, so a DAG is a tree in
  which equal identities mean equal nodes (\<open>coherent\<close>). A node reached twice is then the same value
  with the same identity, and a table keyed by identity is keyed as the code's tables are.
\<close>

datatype operator_result_kind = RelationKind | InstantVectorKind | RangeVectorKind | StateKind

datatype ('c, 'n) operator = NonASAP "'c non_asap_op" | ASAP "('c, 'n) asap_op"

fun children_of :: "('c, 'n) operator \<Rightarrow> 'c list" where
  "children_of (NonASAP op) = non_asap_children op"
| "children_of (ASAP op) = asap_children op"

fun map_children_st :: "('c \<Rightarrow> 's \<Rightarrow> 'd \<times> 's) \<Rightarrow> ('c, 'n) operator \<Rightarrow> 's \<Rightarrow> ('d, 'n) operator \<times> 's" where
  "map_children_st f (NonASAP op) = bind_st (map_non_asap_st f op) (\<lambda>op. return_st (NonASAP op))"
| "map_children_st f (ASAP op) = bind_st (map_asap_st f op) (\<lambda>op. return_st (ASAP op))"

fun kind_name :: "('c, 'n) operator \<Rightarrow> string" where
  "kind_name (NonASAP op) = non_asap_kind_name op"
| "kind_name (ASAP op) = asap_kind_name op"

text \<open>A rebuild calls its closure on children only.\<close>

named_theorems st_congs \<open>congruence of the stateful traversals\<close>

lemma bind_st_ext [st_congs]:
  "m = m' \<Longrightarrow> (\<And>a. k a = k' a) \<Longrightarrow> bind_st m k = bind_st m' k'"
  by (simp add: bind_st_def fun_eq_iff)

lemma map_st_ext [st_congs]: "(\<And>x. x \<in> set xs \<Longrightarrow> f x = g x) \<Longrightarrow> map_st f xs = map_st g xs"
  by (rule ext) (auto intro!: map_st_cong)

lemma map_option_st_ext [st_congs]:
  "(\<And>x. x \<in> set_option p \<Longrightarrow> f x = g x) \<Longrightarrow> map_option_st f p = map_option_st g p"
  by (cases p) (auto simp: map_option_st_def)

lemma map_refs_ext [st_congs]:
  "(\<And>c. c \<in> set_scalar_expr e \<Longrightarrow> f c = g c) \<Longrightarrow> map_operator_refs_st f e = map_operator_refs_st g e"
  unfolding map_operator_refs_st_def by (rule map_parts_st_cong) simp

lemma map_pred_ext [st_congs]:
  "(\<And>c. c \<in> set_predicate p \<Longrightarrow> f c = g c) \<Longrightarrow> map_pred_st f p = map_pred_st g p"
  by (cases p) (auto simp: map_pred_st_def intro!: st_congs)

lemma map_keys_ext [st_congs]:
  "(\<And>c k. k \<in> set ks \<Longrightarrow> c \<in> set_sort_key k \<Longrightarrow> f c = g c) \<Longrightarrow> map_keys_st f ks = map_keys_st g ks"
  unfolding map_keys_st_def
  by (intro st_congs) (auto intro!: map_refs_ext simp: set_sort_key_refs set_operator_refs)

lemma map_items_ext:
  "(\<And>c i. i \<in> set cols \<Longrightarrow> c \<in> set_project_item i \<Longrightarrow> f c = g c) \<Longrightarrow>
   map_st (\<lambda>i. bind_st (map_operator_refs_st f (item_expr i)) (\<lambda>e. return_st (ProjectItem (alias_of i) e))) cols
   = map_st (\<lambda>i. bind_st (map_operator_refs_st g (item_expr i)) (\<lambda>e. return_st (ProjectItem (alias_of i) e))) cols"
  by (intro st_congs) (auto intro!: map_refs_ext simp: set_project_item_refs set_operator_refs)

lemma map_non_asap_ext:
  "(\<And>c. c \<in> set_non_asap_op op \<Longrightarrow> f c = g c) \<Longrightarrow> map_non_asap_st f op = map_non_asap_st g op"
  by (cases op) (auto intro!: st_congs map_items_ext)

lemma map_asap_ext:
  "(\<And>c. c \<in> set1_asap_op op \<Longrightarrow> f c = g c) \<Longrightarrow> map_asap_st f op = map_asap_st g op"
  by (cases op) (auto intro!: st_congs)

lemma map_children_st_cong [fundef_cong]:
  assumes "op = op'" "s = s'" "\<And>c s. c \<in> set (children_of op') \<Longrightarrow> f c s = g c s"
  shows "map_children_st f op s = map_children_st g op' s'"
proof -
  have "\<And>c. c \<in> set (children_of op') \<Longrightarrow> f c = g c" using assms(3) by (simp add: fun_eq_iff)
  then have "map_children_st f op' = map_children_st g op'"
    by (cases op')
      (auto simp: set_non_asap_children set_asap_children intro!: st_congs map_non_asap_ext map_asap_ext)
  with assms show ?thesis by simp
qed

datatype operator_node =
  OperatorNode
    (node_id: nat)
    (operator_of: "(operator_node, operator_node) operator")
    (result_kind: operator_result_kind)
    (node_schema: schema)
    (node_guarantee: "accuracy_guarantee option")
    (node_timing: "execution_timing option")
    (node_materialization: materialization)

type_synonym node_op = "(operator_node, operator_node) operator"
type_synonym node_asap_op = "(operator_node, operator_node) asap_op"

definition node_children :: "operator_node \<Rightarrow> operator_node list" where
  "node_children n = children_of (operator_of n)"

definition asap_of :: "operator_node \<Rightarrow> node_asap_op option" where
  "asap_of n = (case operator_of n of ASAP op \<Rightarrow> Some op | NonASAP _ \<Rightarrow> None)"

definition non_asap_of :: "operator_node \<Rightarrow> operator_node non_asap_op option" where
  "non_asap_of n = (case operator_of n of NonASAP op \<Rightarrow> Some op | ASAP _ \<Rightarrow> None)"

definition is_asap :: "operator_node \<Rightarrow> bool" where
  "is_asap n \<longleftrightarrow> asap_of n \<noteq> None"

text \<open>The height of the DAG under a node bounds every traversal of it.\<close>

primrec node_height :: "operator_node \<Rightarrow> nat" where
  "node_height (OperatorNode i op k sch g t m) =
     Suc (foldr max (children_of (map_operator node_height node_height op)) 0)"

lemma foldr_max_upper: "x \<in> set xs \<Longrightarrow> (x::nat) \<le> foldr max xs b"
  by (induction xs) auto

lemma children_of_map: "children_of (map_operator h g op) = map h (children_of op)"
  by (cases op) (simp_all add: non_asap_children_map asap_children_map)

lemma set_children_of: "set (children_of op) = set1_operator op"
  by (cases op) (simp_all add: set_non_asap_children set_asap_children)

lemma children_height: "c \<in> set (node_children n) \<Longrightarrow> node_height c < node_height n"
  by (cases n) (auto simp: node_children_def children_of_map intro!: le_imp_less_Suc foldr_max_upper)

end
