(* ===== verification/Equality.thy ===== *)
theory Equality
  imports Node "HOL-Library.Monad_Syntax"
begin

text \<open>
  Derived \<^verbatim>\<open>PartialEq\<close> on whole nodes, as \<^verbatim>\<open>timing.rs\<close> and \<^verbatim>\<open>maintained_population.rs\<close> use it. A derived
  comparison walks both values together; it differs from equality of the values in three places:
  floats compare by \<open>f64_eq\<close> (no NaN equals anything, the two zeros are equal), sketch parameters by
  their own \<^verbatim>\<open>PartialEq\<close>, and the address of a node does not take part. A value is therefore equal to
  another when neither holds a NaN and both have the same canonical form: zeros unsigned, ignored
  sizing data and addresses dropped. The canonical form is \<open>None\<close> under a NaN.
\<close>

section \<open>Combinators\<close>

primrec sequence :: "'a option list \<Rightarrow> 'a list option" where
  "sequence [] = Some []"
| "sequence (x # xs) = do { y \<leftarrow> x; ys \<leftarrow> sequence xs; Some (y # ys) }"

definition sequence_option :: "'a option option \<Rightarrow> 'a option option" where
  "sequence_option x = (case x of None \<Rightarrow> Some None | Some y \<Rightarrow> map_option Some y)"

definition sequence_pair :: "'a option \<times> 'b option \<Rightarrow> ('a \<times> 'b) option" where
  "sequence_pair p = do { a \<leftarrow> fst p; b \<leftarrow> snd p; Some (a, b) }"

definition canon_f64 :: "f64 \<Rightarrow> f64 option" where
  "canon_f64 x = (if is_nan x then None else if is_zero_f64 x then Some f64_zero else Some x)"

definition canon_list :: "('a \<Rightarrow> 'b option) \<Rightarrow> 'a list \<Rightarrow> 'b list option" where
  "canon_list f xs = sequence (map f xs)"

definition canon_option :: "('a \<Rightarrow> 'b option) \<Rightarrow> 'a option \<Rightarrow> 'b option option" where
  "canon_option f x = sequence_option (map_option f x)"

text \<open>The equality a canonical form gives.\<close>

definition same_by :: "('a \<Rightarrow> 'b option) \<Rightarrow> 'a \<Rightarrow> 'a \<Rightarrow> bool" where
  "same_by f x y \<longleftrightarrow> (case (f x, f y) of (Some a, Some b) \<Rightarrow> a = b | _ \<Rightarrow> False)"

lemma same_by_iff: "same_by f x y \<longleftrightarrow> (\<exists>a. f x = Some a \<and> f y = Some a)"
  by (auto simp: same_by_def split: option.splits)

lemma same_by_canon_f64: "same_by canon_f64 x y \<longleftrightarrow> f64_eq x y"
  by (auto simp: same_by_iff canon_f64_def f64_eq_iff is_zero_f64_def is_nan_def inf_mag_def)

lemma same_by_sym: "same_by f x y \<longleftrightarrow> same_by f y x"
  by (auto simp: same_by_iff)

lemma same_by_trans: "same_by f x y \<Longrightarrow> same_by f y z \<Longrightarrow> same_by f x z"
  by (auto simp: same_by_iff)

section \<open>Leaves\<close>

fun canon_scalar_value :: "scalar_value \<Rightarrow> scalar_value option" where
  "canon_scalar_value (Float64Value x) = map_option Float64Value (canon_f64 x)"
| "canon_scalar_value v = Some v"

fun canon_scope :: "accuracy_scope \<Rightarrow> accuracy_scope option" where
  "canon_scope (GroupsWithRecordShareAtLeast s) =
     map_option GroupsWithRecordShareAtLeast (canon_f64 s)"
| "canon_scope s = Some s"

definition canon_target :: "accuracy_target \<Rightarrow> accuracy_target option" where
  "canon_target t = do {
     e \<leftarrow> canon_f64 (max_error t);
     p \<leftarrow> canon_option canon_f64 (target_failure_probability t);
     s \<leftarrow> canon_scope (target_scope t);
     Some (t\<lparr>max_error := e, target_failure_probability := p, target_scope := s\<rparr>) }"

fun canon_math :: "math_func \<Rightarrow> math_func option" where
  "canon_math (RoundFn x) = map_option RoundFn (canon_f64 x)"
| "canon_math (ClampFn l u) = do { l \<leftarrow> canon_f64 l; u \<leftarrow> canon_f64 u; Some (ClampFn l u) }"
| "canon_math (ClampMinFn x) = map_option ClampMinFn (canon_f64 x)"
| "canon_math (ClampMaxFn x) = map_option ClampMaxFn (canon_f64 x)"
| "canon_math f = Some f"

definition canon_intent :: "'k agg_intent \<Rightarrow> 'k agg_intent option" where
  "canon_intent a =
     (case a of
        AggCount t \<Rightarrow> map_option AggCount (canon_target t)
      | AggQuantile c q t \<Rightarrow>
          do { q \<leftarrow> canon_f64 q; t \<leftarrow> canon_target t; Some (AggQuantile c q t) }
      | AggTopK k t \<Rightarrow> map_option (AggTopK k) (canon_target t)
      | AggCardinality cs t \<Rightarrow> map_option (AggCardinality cs) (canon_target t)
      | AggFrequencyL2 c t \<Rightarrow> map_option (AggFrequencyL2 c) (canon_target t)
      | AggFrequencyEntropy c t \<Rightarrow> map_option (AggFrequencyEntropy c) (canon_target t)
      | AggPredictLinear s \<Rightarrow> map_option AggPredictLinear (canon_f64 s)
      | AggDoubleExpSmoothing s t \<Rightarrow>
          do { s \<leftarrow> canon_f64 s; t \<leftarrow> canon_f64 t; Some (AggDoubleExpSmoothing s t) }
      | AggHistogramFraction l u \<Rightarrow>
          do { l \<leftarrow> canon_f64 l; u \<leftarrow> canon_f64 u; Some (AggHistogramFraction l u) }
      | AggHistogramQuantile q le \<Rightarrow> map_option (\<lambda>q. AggHistogramQuantile q le) (canon_f64 q)
      | AggMath f \<Rightarrow> map_option AggMath (canon_math f)
      | other \<Rightarrow> Some other)"

fun canon_sample :: "sample_kind \<Rightarrow> sample_kind option" where
  "canon_sample (LimitRatio r) = map_option LimitRatio (canon_f64 r)"
| "canon_sample k = Some k"

fun canon_frame_offset :: "window_frame_offset \<Rightarrow> window_frame_offset option" where
  "canon_frame_offset (ScalarOffset v) = map_option ScalarOffset (canon_scalar_value v)"
| "canon_frame_offset d = Some d"

fun canon_frame_bound :: "window_frame_bound \<Rightarrow> window_frame_bound option" where
  "canon_frame_bound (Preceding d) = map_option Preceding (canon_frame_offset d)"
| "canon_frame_bound CurrentRow = Some CurrentRow"
| "canon_frame_bound (Following d) = map_option Following (canon_frame_offset d)"

definition canon_frame :: "window_frame \<Rightarrow> window_frame option" where
  "canon_frame f = do {
     s \<leftarrow> canon_frame_bound (frame_start f);
     e \<leftarrow> canon_frame_bound (frame_end f);
     Some (f\<lparr>frame_start := s, frame_end := e\<rparr>) }"

fun canon_params :: "sketch_params \<Rightarrow> sketch_params option" where
  "canon_params (Kll k _) = Some (Kll k None)"
| "canon_params (UnivMon h r c l _) = Some (UnivMon h r c l None)"
| "canon_params (Hll p _) = Some (Hll p None)"
| "canon_params (DDSketch a) = map_option DDSketch (canon_f64 a)"
| "canon_params (Kmv k _) = Some (Kmv k None)"
| "canon_params p = Some p"

lemma canon_params_eq: "same_by canon_params p q \<longleftrightarrow> sketch_params_eq p q"
proof -
  have "same_by canon_params (DDSketch x) (DDSketch y) \<longleftrightarrow> same_by canon_f64 x y" for x y
    by (auto simp: same_by_iff)
  then show ?thesis
    by (cases p; cases q)
      (auto simp: same_by_iff sketch_params_eq_def same_by_canon_f64[symmetric])
qed

fun canon_field_type :: "field_data_type \<Rightarrow> field_data_type option" where
  "canon_field_type (Sketch k g) =
     map_option (\<lambda>p. Sketch (SketchKind (algorithm k) p) g) (canon_params (params k))"
| "canon_field_type t = Some t"

definition canon_field :: "schema_field \<Rightarrow> schema_field option" where
  "canon_field f =
     map_option (\<lambda>t. Field (name f) t (nullable f) (table f)) (canon_field_type (dtype f))"

definition canon_schema :: "schema \<Rightarrow> schema option" where
  "canon_schema s =
     map_option (\<lambda>fs. s\<lparr>schema_fields := fs\<rparr>) (canon_list canon_field (schema_fields s))"

primrec canon_input_expr :: "summary_input_expr \<Rightarrow> summary_input_expr option" where
  "canon_input_expr (ConstantInput x) = map_option ConstantInput (canon_f64 x)"
| "canon_input_expr (ColumnInput c) = Some (ColumnInput c)"
| "canon_input_expr (TupleInput es) = map_option TupleInput (sequence (map canon_input_expr es))"
| "canon_input_expr (EntityIdentityInput i) = Some (EntityIdentityInput i)"

definition canon_update :: "summary_update \<Rightarrow> summary_update option" where
  "canon_update u = do {
     i \<leftarrow> canon_option canon_input_expr (item u);
     w \<leftarrow> canon_input_expr (weight u);
     Some (u\<lparr>item := i, weight := w\<rparr>) }"

fun canon_statistic :: "sketch_statistic \<Rightarrow> sketch_statistic option" where
  "canon_statistic (QuantileStatistic q) = map_option QuantileStatistic (canon_f64 q)"
| "canon_statistic s = Some s"

fun canon_population_statistic :: "population_statistic \<Rightarrow> population_statistic option" where
  "canon_population_statistic (PopQuantile q) = map_option PopQuantile (canon_f64 q)"
| "canon_population_statistic s = Some s"

section \<open>Guarantees\<close>

primrec canon_bound :: "bound_expr \<Rightarrow> bound_expr option" where
  "canon_bound BZero = Some BZero"
| "canon_bound (BConstant x) = map_option BConstant (canon_f64 x)"
| "canon_bound (BSum ts) = map_option BSum (sequence (map canon_bound ts))"
| "canon_bound (BProduct ts) = map_option BProduct (sequence (map canon_bound ts))"
| "canon_bound (BScaled x b) = do { x \<leftarrow> canon_f64 x; b \<leftarrow> canon_bound b; Some (BScaled x b) }"
| "canon_bound (BMax ts) = map_option BMax (sequence (map canon_bound ts))"
| "canon_bound (BUnknown s) = Some (BUnknown s)"

primrec canon_probability :: "probability_expr \<Rightarrow> probability_expr option" where
  "canon_probability PZero = Some PZero"
| "canon_probability (PConstant x) = map_option PConstant (canon_f64 x)"
| "canon_probability (UnionBound ts) = map_option UnionBound (sequence (map canon_probability ts))"
| "canon_probability (PScaled c p) =
     do { c \<leftarrow> canon_bound c; p \<leftarrow> canon_probability p; Some (PScaled c p) }"
| "canon_probability (PUnknown s) = Some (PUnknown s)"

definition canon_spec :: "accuracy_spec \<Rightarrow> accuracy_spec option" where
  "canon_spec s = do {
     e \<leftarrow> canon_bound (spec_error s);
     p \<leftarrow> canon_probability (spec_failure_probability s);
     sc \<leftarrow> canon_scope (spec_scope s);
     Some (s\<lparr>spec_error := e, spec_failure_probability := p, spec_scope := sc\<rparr>) }"

fun canon_composition :: "composition_operator \<Rightarrow> composition_operator option" where
  "canon_composition (Lipschitz x) = map_option Lipschitz (canon_f64 x)"
| "canon_composition c = Some c"

primrec canon_source :: "guarantee_source \<Rightarrow> guarantee_source option"
  and canon_guarantee :: "accuracy_guarantee \<Rightarrow> accuracy_guarantee option" where
  "canon_source (ExactSource r) = Some (ExactSource r)"
| "canon_source (TargetSource t) = map_option TargetSource (canon_target t)"
| "canon_source (SketchEvaluation a c p q) = Some (SketchEvaluation a c p q)"
| "canon_source (ChildGuarantee i g) = map_option (ChildGuarantee i) (canon_guarantee g)"
| "canon_source (CompositionStep c r) = map_option (\<lambda>c. CompositionStep c r) (canon_composition c)"
| "canon_source (BudgetAllocation a l n t u) =
     do { t \<leftarrow> canon_target t; u \<leftarrow> canon_target u; Some (BudgetAllocation a l n t u) }"
| "canon_source (UnavailableStatistic s) = Some (UnavailableStatistic s)"
| "canon_source (RuntimeObservation s d) = Some (RuntimeObservation s d)"
| "canon_guarantee (AccuracyGuarantee s trail) =
     do { s \<leftarrow> canon_spec s; trail \<leftarrow> sequence (map canon_source trail); Some (AccuracyGuarantee s trail) }"

section \<open>Expressions and operators\<close>

text \<open>References arrive as the canonical forms of the nodes they name.\<close>

primrec canon_expr :: "'c option scalar_expr \<Rightarrow> 'c scalar_expr option" where
  "canon_expr (Column c) = Some (Column c)"
| "canon_expr (Literal v) = map_option Literal (canon_scalar_value v)"
| "canon_expr CurrentTimestamp = Some CurrentTimestamp"
| "canon_expr EvalTimestamp = Some EvalTimestamp"
| "canon_expr (PromqlScalarFromVector n) = map_option PromqlScalarFromVector n"
| "canon_expr (ScalarSubquery n) = map_option ScalarSubquery n"
| "canon_expr (Exists n negated) = map_option (\<lambda>n. Exists n negated) n"
| "canon_expr (InSubquery e n negated) =
     do { e \<leftarrow> canon_expr e; n \<leftarrow> n; Some (InSubquery e n negated) }"
| "canon_expr (Negative e sem) = map_option (\<lambda>e. Negative e sem) (canon_expr e)"
| "canon_expr (Compare l op r sem) =
     do { l \<leftarrow> canon_expr l; r \<leftarrow> canon_expr r; Some (Compare l op r sem) }"
| "canon_expr (BoolAnd es) = map_option BoolAnd (sequence (map canon_expr es))"
| "canon_expr (BoolOr es) = map_option BoolOr (sequence (map canon_expr es))"
| "canon_expr (Not e) = map_option Not (canon_expr e)"
| "canon_expr (IsNull e) = map_option IsNull (canon_expr e)"
| "canon_expr (IsNotNull e) = map_option IsNotNull (canon_expr e)"
| "canon_expr (Cast e ty try_cast) = map_option (\<lambda>e. Cast e ty try_cast) (canon_expr e)"
| "canon_expr (InList e es negated) =
     do { e \<leftarrow> canon_expr e; es \<leftarrow> sequence (map canon_expr es); Some (InList e es negated) }"
| "canon_expr (FunctionCall n es) = map_option (FunctionCall n) (sequence (map canon_expr es))"
| "canon_expr (Arithmetic op l r sem) =
     do { l \<leftarrow> canon_expr l; r \<leftarrow> canon_expr r; Some (Arithmetic op l r sem) }"
| "canon_expr (Case operand branches else_expr) = do {
     operand \<leftarrow> sequence_option (map_option canon_expr operand);
     branches \<leftarrow> sequence (map sequence_pair (map (map_prod canon_expr canon_expr) branches));
     else_expr \<leftarrow> sequence_option (map_option canon_expr else_expr);
     Some (Case operand branches else_expr) }"

definition canon_pred :: "'c option predicate \<Rightarrow> 'c predicate option" where
  "canon_pred p = map_option Predicate (canon_expr (pred_expr p))"

definition canon_key :: "'c option sort_key \<Rightarrow> 'c sort_key option" where
  "canon_key k = map_option (\<lambda>e. SortKey e (ascending k) (nulls_first k)) (canon_expr (key_expr k))"

definition canon_item :: "'c option project_item \<Rightarrow> 'c project_item option" where
  "canon_item i = map_option (ProjectItem (alias_of i)) (canon_expr (item_expr i))"

fun canon_non_asap :: "'c option non_asap_op \<Rightarrow> 'c non_asap_op option" where
  "canon_non_asap (Scan src ps sch) =
     do { ps \<leftarrow> canon_list canon_pred ps; sch \<leftarrow> canon_schema sch; Some (Scan src ps sch) }"
| "canon_non_asap (Values rows sch) =
     do { rows \<leftarrow> canon_list (canon_list canon_expr) rows; sch \<leftarrow> canon_schema sch; Some (Values rows sch) }"
| "canon_non_asap (Filter p c) = do { p \<leftarrow> canon_pred p; c \<leftarrow> c; Some (Filter p c) }"
| "canon_non_asap (Project cols q c) =
     do { cols \<leftarrow> canon_list canon_item cols; c \<leftarrow> c; Some (Project cols q c) }"
| "canon_non_asap (Aggregate red ms ns flts hv c) = do {
     ms \<leftarrow> canon_list canon_intent ms;
     flts \<leftarrow> canon_list (canon_option canon_pred) flts;
     hv \<leftarrow> canon_option canon_pred hv;
     c \<leftarrow> c;
     Some (Aggregate red ms ns flts hv c) }"
| "canon_non_asap (Join k p l r) =
     do { p \<leftarrow> canon_pred p; l \<leftarrow> l; r \<leftarrow> r; Some (Join k p l r) }"
| "canon_non_asap (SetOp k a l r) = do { l \<leftarrow> l; r \<leftarrow> r; Some (SetOp k a l r) }"
| "canon_non_asap (Concat cs) = map_option Concat (sequence cs)"
| "canon_non_asap (Dedup cols c) = map_option (Dedup cols) c"
| "canon_non_asap (Sort keys part c) =
     do { keys \<leftarrow> canon_list canon_key keys; c \<leftarrow> c; Some (Sort keys part c) }"
| "canon_non_asap (Limit n offset part c) = map_option (Limit n offset part) c"
| "canon_non_asap (BinaryOp operator rb l r) =
     do { l \<leftarrow> l; r \<leftarrow> r; Some (BinaryOp operator rb l r) }"
| "canon_non_asap (SQLWindowFunc func args part order_by frame out c) = do {
     args \<leftarrow> canon_list canon_expr args;
     order_by \<leftarrow> canon_list canon_key order_by;
     frame \<leftarrow> canon_option canon_frame frame;
     c \<leftarrow> c;
     Some (SQLWindowFunc func args part order_by frame out c) }"
| "canon_non_asap (TimeRange rng k c) = map_option (TimeRange rng k) c"
| "canon_non_asap (TimeShift sh c) = map_option (TimeShift sh) c"
| "canon_non_asap (PromqlVectorFromScalar e) = map_option PromqlVectorFromScalar (canon_expr e)"
| "canon_non_asap (PromqlRelabel dst v c) =
     do { v \<leftarrow> canon_expr v; c \<leftarrow> c; Some (PromqlRelabel dst v c) }"
| "canon_non_asap (PromqlInfoEnrich sel c) = map_option (PromqlInfoEnrich sel) c"
| "canon_non_asap (PromqlSeriesSample grp k c) =
     do { k \<leftarrow> canon_sample k; c \<leftarrow> c; Some (PromqlSeriesSample grp k c) }"
| "canon_non_asap (PromqlSubquery rng res c) = map_option (PromqlSubquery rng res) c"

fun canon_population :: "'n option maintained_population \<Rightarrow> 'n maintained_population option" where
  "canon_population (MaintainedPopulation (CurrentSeries i) k q) =
     Some (MaintainedPopulation (CurrentSeries i) k q)"
| "canon_population (MaintainedPopulation (PopRows n v g) k q) =
     map_option (\<lambda>n. MaintainedPopulation (PopRows n v g) k q) n"

fun canon_asap :: "('c option, 'n option) asap_op \<Rightarrow> ('c, 'n) asap_op option" where
  "canon_asap (SummaryAgg c fam inp red grp flt) = do {
     c \<leftarrow> c; fam \<leftarrow> canon_field_type fam; inp \<leftarrow> canon_update inp;
     flt \<leftarrow> canon_option canon_pred flt;
     Some (SummaryAgg c fam inp red grp flt) }"
| "canon_asap (SummaryTumblingWindowChain c fam inp red grp flt w n) = do {
     c \<leftarrow> c; fam \<leftarrow> canon_field_type fam; inp \<leftarrow> canon_update inp;
     flt \<leftarrow> canon_option canon_pred flt;
     Some (SummaryTumblingWindowChain c fam inp red grp flt w n) }"
| "canon_asap (SummaryEstimate c q) =
     do { c \<leftarrow> c; q \<leftarrow> canon_statistic q; Some (SummaryEstimate c q) }"
| "canon_asap (FinalizeExactAccumulator c) = map_option FinalizeExactAccumulator c"
| "canon_asap (MaintainPopulation c p) =
     do { c \<leftarrow> c; p \<leftarrow> canon_population p; Some (MaintainPopulation c p) }"
| "canon_asap (EvaluatePopulation c e) =
     do { c \<leftarrow> c; e \<leftarrow> canon_population_statistic e; Some (EvaluatePopulation c e) }"
| "canon_asap (SummaryMerge cs newest grp) = map_option (\<lambda>cs. SummaryMerge cs newest grp) (sequence cs)"
| "canon_asap (SummarySubtract l r) = do { l \<leftarrow> l; r \<leftarrow> r; Some (SummarySubtract l r) }"
| "canon_asap (SummaryDelete c k) = map_option (\<lambda>c. SummaryDelete c k) c"
| "canon_asap (SummaryJoin l r k fam) =
     do { l \<leftarrow> l; r \<leftarrow> r; fam \<leftarrow> canon_field_type fam; Some (SummaryJoin l r k fam) }"
| "canon_asap (Extension c n) = map_option (\<lambda>c. Extension c n) c"

fun canon_operator :: "('c option, 'n option) operator \<Rightarrow> ('c, 'n) operator option" where
  "canon_operator (NonASAP op) = map_option NonASAP (canon_non_asap op)"
| "canon_operator (ASAP op) = map_option ASAP (canon_asap op)"

primrec canon_node :: "operator_node \<Rightarrow> operator_node option" where
  "canon_node (OperatorNode i op k s g t m) = do {
     op \<leftarrow> canon_operator (map_operator canon_node canon_node op);
     s \<leftarrow> canon_schema s;
     g \<leftarrow> canon_option canon_guarantee g;
     Some (OperatorNode 0 op k s g t m) }"

text \<open>\<^verbatim>\<open>==\<close> on nodes, on their operators and on schemas.\<close>

definition node_eq :: "operator_node \<Rightarrow> operator_node \<Rightarrow> bool" where
  "node_eq = same_by canon_node"

definition operator_eq :: "node_op \<Rightarrow> node_op \<Rightarrow> bool" where
  "operator_eq = same_by (\<lambda>op. canon_operator (map_operator canon_node canon_node op))"

lemma node_eq_sym: "node_eq a b \<longleftrightarrow> node_eq b a"
  by (simp add: node_eq_def same_by_sym)

lemma node_eq_trans: "node_eq a b \<Longrightarrow> node_eq b c \<Longrightarrow> node_eq a c"
  unfolding node_eq_def by (rule same_by_trans)

text \<open>Two equal nodes agree in everything a plan reads of them besides their inputs.\<close>

lemma node_eq_parts:
  "node_eq a b \<Longrightarrow> result_kind a = result_kind b \<and> node_timing a = node_timing b
     \<and> node_materialization a = node_materialization b"
  by (cases a; cases b) (auto simp: node_eq_def same_by_iff bind_eq_Some_conv)

text \<open>The address plays no part.\<close>

lemma node_eq_address:
  "node_eq (OperatorNode i op k s g t m) b \<longleftrightarrow> node_eq (OperatorNode j op k s g t m) b"
  by (simp add: node_eq_def same_by_def)

end
