(* ===== verification/NodeOps.thy ===== *)
theory NodeOps
  imports Equality
begin

text \<open>
  Facts read off a node and its inputs (\<^verbatim>\<open>node.rs\<close>, \<^verbatim>\<open>asap.rs\<close>, \<^verbatim>\<open>non_asap.rs\<close>): the state an operator
  produces, the category of its output, the build a state comes from, whether equal copies may be
  shared, and the traversals of a shared DAG that visit each node once.
\<close>

section \<open>States and categories\<close>

text \<open>\<^verbatim>\<open>ASAPOp::produced_state\<close>.\<close>

fun produced_state :: "node_asap_op \<Rightarrow> field_data_type option" where
  "produced_state (SummaryAgg _ family _ _ _ _) = Some family"
| "produced_state (SummaryTumblingWindowChain _ family _ _ _ _ _ _) = Some family"
| "produced_state (SummaryJoin _ _ _ family) = Some family"
| "produced_state (SummaryMerge cs _ _) =
     (case cs of [] \<Rightarrow> None
      | c # _ \<Rightarrow> map_option dtype (find (\<lambda>f. \<not> is_plain f) (schema_fields (node_schema c))))"
| "produced_state _ = None"

text \<open>\<^verbatim>\<open>asap::selected_from\<close>.\<close>

definition selected_from :: "operator_node \<Rightarrow> operator_node option" where
  "selected_from n =
     (case non_asap_of n of
        Some (Filter _ c) \<Rightarrow> if result_kind n = StateKind then Some c else None
      | _ \<Rightarrow> None)"

text \<open>\<^verbatim>\<open>asap::source_kind\<close>.\<close>

lemma hd_children_height:
  "operator_of n = ASAP op \<Longrightarrow> asap_children op = c # cs \<Longrightarrow> node_height c < node_height n"
  by (rule children_height) (simp add: node_children_def)

lemma selected_from_height: "selected_from n = Some c \<Longrightarrow> node_height c < node_height n"
proof (rule children_height)
  assume "selected_from n = Some c"
  then obtain p where "operator_of n = NonASAP (Filter p c)"
    by (auto simp: selected_from_def non_asap_of_def split: operator.splits option.splits
        non_asap_op.splits if_splits)
  then show "c \<in> set (node_children n)"
    by (simp add: node_children_def non_asap_children_def)
qed

function source_kind :: "operator_node \<Rightarrow> operator_result_kind" where
  "source_kind n =
     (case selected_from n of
        Some states \<Rightarrow> source_kind states
      | None \<Rightarrow>
          (case operator_of n of
             ASAP op \<Rightarrow> (case asap_children op of c # _ \<Rightarrow> source_kind c | [] \<Rightarrow> RelationKind)
           | NonASAP _ \<Rightarrow>
               (case result_kind n of
                  RangeVectorKind \<Rightarrow> InstantVectorKind
                | StateKind \<Rightarrow> RelationKind
                | other \<Rightarrow> other)))"
  by pat_completeness auto
termination
  by (relation "measure node_height") (auto intro: selected_from_height hd_children_height)

declare source_kind.simps [simp del]

text \<open>\<^verbatim>\<open>non_asap::readable\<close>, \<^verbatim>\<open>non_asap::selects_states\<close>.\<close>

fun readable :: "operator_result_kind \<Rightarrow> operator_result_kind" where
  "readable StateKind = RelationKind"
| "readable k = k"

definition selects_states_of :: "operator_node \<Rightarrow> operator_node predicate \<Rightarrow> bool" where
  "selects_states_of c p \<longleftrightarrow>
     result_kind c = StateKind
     \<and> list_all (\<lambda>column. case get (schema_fields (node_schema c)) column of
                           Some f \<Rightarrow> is_plain f | None \<Rightarrow> False)
         (columns_referenced (pred_expr p))"

text \<open>\<^verbatim>\<open>NonASAPOp::output_kind\<close>, \<^verbatim>\<open>ASAPOp::output_kind\<close>, \<^verbatim>\<open>Operator::output_kind\<close>.\<close>

definition projects_state :: "operator_node project_item list \<Rightarrow> operator_node \<Rightarrow> bool" where
  "projects_state cols c \<longleftrightarrow>
     list_ex (\<lambda>it. case item_expr it of
                     Column i \<Rightarrow> (case get (schema_fields (node_schema c)) i of
                                   Some f \<Rightarrow> \<not> is_plain f | None \<Rightarrow> False)
                   | _ \<Rightarrow> False) cols"

fun non_asap_output_kind :: "operator_node non_asap_op \<Rightarrow> operator_result_kind" where
  "non_asap_output_kind (Scan src _ _) =
     (case src of TimeSeries _ \<Rightarrow> InstantVectorKind | TableSource _ \<Rightarrow> RelationKind)"
| "non_asap_output_kind (Values _ _) = RelationKind"
| "non_asap_output_kind (SQLWindowFunc _ _ _ _ _ _ _) = RelationKind"
| "non_asap_output_kind (TimeRange _ k c) =
     (if result_kind c = RelationKind then RelationKind
      else case k of InstantRange \<Rightarrow> InstantVectorKind | RangeRange \<Rightarrow> RangeVectorKind)"
| "non_asap_output_kind (PromqlSubquery _ _ _) = RangeVectorKind"
| "non_asap_output_kind (PromqlVectorFromScalar _) = InstantVectorKind"
| "non_asap_output_kind (Aggregate red _ _ _ _ c) =
     (case (red, result_kind c) of
        (PerEntity, RangeVectorKind) \<Rightarrow> InstantVectorKind
      | (_, StateKind) \<Rightarrow> InstantVectorKind
      | (_, k) \<Rightarrow> k)"
| "non_asap_output_kind (Project cols _ c) =
     (if projects_state cols c then StateKind else readable (result_kind c))"
| "non_asap_output_kind (Filter p c) =
     (if selects_states_of c p then StateKind else readable (result_kind c))"
| "non_asap_output_kind (Dedup _ c) = readable (result_kind c)"
| "non_asap_output_kind (Sort _ _ c) = readable (result_kind c)"
| "non_asap_output_kind (Limit _ _ _ c) = readable (result_kind c)"
| "non_asap_output_kind (TimeShift _ c) = readable (result_kind c)"
| "non_asap_output_kind (PromqlRelabel _ _ c) = readable (result_kind c)"
| "non_asap_output_kind (PromqlInfoEnrich _ c) = readable (result_kind c)"
| "non_asap_output_kind (PromqlSeriesSample _ _ c) = readable (result_kind c)"
| "non_asap_output_kind (Join _ _ l _) = readable (result_kind l)"
| "non_asap_output_kind (SetOp _ _ l _) = readable (result_kind l)"
| "non_asap_output_kind (Concat cs) =
     (case cs of [] \<Rightarrow> RelationKind | c # _ \<Rightarrow> readable (result_kind c))"
| "non_asap_output_kind (BinaryOp _ _ l _) = readable (result_kind l)"

fun asap_output_kind :: "node_asap_op \<Rightarrow> operator_result_kind" where
  "asap_output_kind (SummaryEstimate c _) = source_kind c"
| "asap_output_kind (FinalizeExactAccumulator c) = source_kind c"
| "asap_output_kind (EvaluatePopulation c _) = source_kind c"
| "asap_output_kind _ = StateKind"

fun output_kind :: "node_op \<Rightarrow> operator_result_kind" where
  "output_kind (NonASAP op) = non_asap_output_kind op"
| "output_kind (ASAP op) = asap_output_kind op"

text \<open>\<^verbatim>\<open>OperatorNode::with_schema\<close>: the address is the allocator's.\<close>

definition with_schema :: "nat \<Rightarrow> node_op \<Rightarrow> schema \<Rightarrow> operator_node" where
  "with_schema i op s = OperatorNode i op (output_kind op) s None None NotMaterialized"

fun with_guarantee :: "operator_node \<Rightarrow> accuracy_guarantee option \<Rightarrow> operator_node" where
  "with_guarantee (OperatorNode i op k s _ t m) g = OperatorNode i op k s g t m"

fun with_timing :: "operator_node \<Rightarrow> execution_timing option \<Rightarrow> operator_node" where
  "with_timing (OperatorNode i op k s g _ m) t = OperatorNode i op k s g t m"

fun with_materialization :: "operator_node \<Rightarrow> materialization \<Rightarrow> operator_node" where
  "with_materialization (OperatorNode i op k s g t _) m = OperatorNode i op k s g t m"

text \<open>The category of a readable value is never state, and an evaluation's never is either.\<close>

lemma readable_not_state: "readable k \<noteq> StateKind"
  by (cases k) simp_all

lemma source_kind_readable: "source_kind n \<noteq> StateKind"
proof (induction n rule: source_kind.induct)
  case (1 n)
  then show ?case
    by (subst source_kind.simps)
      (auto split: option.splits operator.splits list.splits operator_result_kind.splits)
qed

section \<open>Builds\<close>

text \<open>\<^verbatim>\<open>OperatorNode::summary_build\<close>.\<close>

function summary_build :: "operator_node \<Rightarrow> node_asap_op option" where
  "summary_build n =
     (case asap_of n of
        None \<Rightarrow> None
      | Some op \<Rightarrow>
          (case op of
             SummaryAgg _ _ _ _ _ _ \<Rightarrow> Some op
           | SummaryTumblingWindowChain _ _ _ _ _ _ _ _ \<Rightarrow> Some op
           | SummaryMerge cs _ grp \<Rightarrow>
               (case grp of
                  None \<Rightarrow> (case cs of [] \<Rightarrow> None | c # _ \<Rightarrow> summary_build c)
                | Some _ \<Rightarrow> None)
           | _ \<Rightarrow> None))"
  by pat_completeness auto
termination
  by (relation "measure node_height")
    (auto simp: asap_of_def split: operator.splits intro: hd_children_height)

declare summary_build.simps [simp del]

lemma summary_build_is_build:
  "summary_build n = Some b \<Longrightarrow>
     (\<exists>c f i r g p. b = SummaryAgg c f i r g p)
     \<or> (\<exists>c f i r g p w k. b = SummaryTumblingWindowChain c f i r g p w k)"
proof (induction n rule: summary_build.induct)
  case (1 n)
  from 1(2) show ?case
    by (subst (asm) summary_build.simps)
      (auto split: option.splits asap_op.splits list.splits dest: 1(1)[rotated 4])
qed

section \<open>Sharing equal copies\<close>

text \<open>\<^verbatim>\<open>NonASAPOp::is_shareable_when_equal\<close>.\<close>

definition reads_row_positions :: "window_func_kind \<Rightarrow> window_frame option \<Rightarrow> bool" where
  "reads_row_positions func frame \<longleftrightarrow>
     (case func of
        RowNumber \<Rightarrow> True | Lag \<Rightarrow> True | Lead \<Rightarrow> True | LagInFrame \<Rightarrow> True | LeadInFrame \<Rightarrow> True
      | FirstValue \<Rightarrow> True | LastValue \<Rightarrow> True | NthValue _ \<Rightarrow> True
      | RankFunc \<Rightarrow> False | DenseRank \<Rightarrow> False
      | _ \<Rightarrow> (case frame of Some f \<Rightarrow> frame_units f = RowsUnits | None \<Rightarrow> False))"

fun is_shareable_when_equal :: "operator_node non_asap_op \<Rightarrow> bool" where
  "is_shareable_when_equal (Limit n offset partition_by c) =
     (n = None \<and> offset = 0
      \<or> (case non_asap_of c of Some (Sort _ sorted_by _) \<Rightarrow> sorted_by = partition_by | _ \<Rightarrow> False))"
| "is_shareable_when_equal (Dedup cols c) =
     (cols = [] \<or> length (remdups cols) = length (schema_fields (node_schema c)))"
| "is_shareable_when_equal (SQLWindowFunc func _ _ order_by frame _ _) =
     (\<not> reads_row_positions func frame \<or> order_by \<noteq> [])"
| "is_shareable_when_equal _ = True"

section \<open>Traversals that visit a shared node once\<close>

text \<open>The nodes below a node, itself included.\<close>

inductive_set below :: "operator_node \<Rightarrow> operator_node set" for n where
  below_refl: "n \<in> below n"
| below_step: "m \<in> below n \<Longrightarrow> c \<in> set (node_children m) \<Longrightarrow> c \<in> below n"

lemma below_child: "c \<in> set (node_children n) \<Longrightarrow> below c \<subseteq> below n"
proof
  fix m assume c: "c \<in> set (node_children n)" and "m \<in> below c"
  from this(2) show "m \<in> below n"
    by induction (use c in \<open>auto intro: below.intros\<close>)
qed

lemma below_trans: "m \<in> below n \<Longrightarrow> below m \<subseteq> below n"
  by (induction rule: below.induct) (use below_child in blast)+

lemma below_unfold: "below n = insert n (\<Union>c \<in> set (node_children n). below c)"
proof
  show "below n \<subseteq> insert n (\<Union>c \<in> set (node_children n). below c)"
  proof
    fix m assume "m \<in> below n"
    then show "m \<in> insert n (\<Union>c \<in> set (node_children n). below c)"
      by induction (auto intro: below.intros)
  qed
  show "insert n (\<Union>c \<in> set (node_children n). below c) \<subseteq> below n"
    using below_child by (auto intro: below_refl)
qed

lemma below_height: "m \<in> below n \<Longrightarrow> m = n \<or> node_height m < node_height n"
  by (induction rule: below.induct) (use children_height less_trans in blast)+

text \<open>One address names one node.\<close>

definition coherent :: "operator_node set \<Rightarrow> bool" where
  "coherent S \<longleftrightarrow> inj_on node_id S \<and> (\<forall>n \<in> S. set (node_children n) \<subseteq> S)"

lemma coherent_below: "coherent S \<Longrightarrow> n \<in> S \<Longrightarrow> below n \<subseteq> S"
proof
  fix m assume "coherent S" "n \<in> S" "m \<in> below n"
  from this(3,1,2) show "m \<in> S"
    by induction (auto simp: coherent_def)
qed

lemma coherent_eq: "coherent S \<Longrightarrow> m \<in> S \<Longrightarrow> n \<in> S \<Longrightarrow> node_id m = node_id n \<Longrightarrow> m = n"
  by (auto simp: coherent_def inj_on_def)

lemma coherent_insert:
  assumes "coherent T" "\<forall>t \<in> T. node_id t < node_id u" "set (node_children u) \<subseteq> T"
  shows "coherent (insert u T)"
  using assms by (auto simp: coherent_def inj_on_def)

text \<open>\<^verbatim>\<open>OperatorNode::reachable\<close> and \<^verbatim>\<open>OperatorNode::contains_asap\<close>.\<close>

function reach_walk ::
  "operator_node \<Rightarrow> nat set \<times> operator_node list \<Rightarrow> nat set \<times> operator_node list" where
  "reach_walk n (seen, out) =
     (if node_id n \<in> seen then (seen, out)
      else fold reach_walk (node_children n) (insert (node_id n) seen, out @ [n]))"
  by pat_completeness auto
termination
  by (relation "measure (\<lambda>(n, _). node_height n)") (auto intro: children_height)

declare reach_walk.simps [simp del]

definition reachable :: "operator_node \<Rightarrow> operator_node list" where
  "reachable root = snd (reach_walk root ({}, []))"

function contains_walk :: "operator_node \<Rightarrow> nat set \<Rightarrow> bool \<times> nat set" where
  "contains_walk n seen =
     (if is_asap n then (True, seen)
      else any_st (\<lambda>c seen. if node_id c \<in> seen then (False, seen)
                             else contains_walk c (insert (node_id c) seen))
             (node_children n) seen)"
  by pat_completeness auto
termination
  by (relation "measure (\<lambda>(n, _). node_height n)") (auto intro: children_height)

declare contains_walk.simps [simp del]

definition contains_asap :: "operator_node \<Rightarrow> bool" where
  "contains_asap root = fst (contains_walk root {})"

text \<open>
  Why skipping a seen address is right in the middle of a traversal: the nodes whose traversal is
  still open are higher than the one being visited, so a seen node that is not higher has been
  traversed to the end.
\<close>

definition traversed :: "operator_node set \<Rightarrow> nat set \<Rightarrow> nat \<Rightarrow> bool" where
  "traversed S seen h \<longleftrightarrow>
     (\<forall>m \<in> S. node_id m \<in> seen \<and> node_height m < h \<longrightarrow> node_id ` below m \<subseteq> seen)"

lemma traversed_empty [simp]: "traversed S {} h"
  by (simp add: traversed_def)

lemma traversed_mono: "traversed S seen h \<Longrightarrow> h' \<le> h \<Longrightarrow> traversed S seen h'"
  by (auto simp: traversed_def)

lemma traversed_insert:
  assumes "coherent S" "n \<in> S" "traversed S seen (Suc (node_height n))"
  shows "traversed S (insert (node_id n) seen) (node_height n)"
  unfolding traversed_def
proof (intro ballI impI)
  fix m assume m: "m \<in> S" and pre: "node_id m \<in> insert (node_id n) seen \<and> node_height m < node_height n"
  have "node_id m \<noteq> node_id n" using coherent_eq[OF assms(1) m assms(2)] pre by auto
  with assms(3) m pre show "node_id ` below m \<subseteq> insert (node_id n) seen"
    by (auto simp: traversed_def less_Suc_eq)
qed

lemma traversed_union:
  assumes "coherent S" "c \<in> S" "traversed S seen h"
  shows "traversed S (seen \<union> node_id ` below c) h"
  unfolding traversed_def
proof (intro ballI impI)
  fix m assume m: "m \<in> S" and pre: "node_id m \<in> seen \<union> node_id ` below c \<and> node_height m < h"
  show "node_id ` below m \<subseteq> seen \<union> node_id ` below c"
  proof (cases "node_id m \<in> seen")
    case True
    with assms(3) m pre show ?thesis by (auto simp: traversed_def)
  next
    case False
    with pre obtain x where x: "x \<in> below c" "node_id m = node_id x" by auto
    have "x \<in> S" using coherent_below[OF assms(1,2)] x(1) by blast
    with coherent_eq[OF assms(1) m] x have "m = x" by blast
    with below_trans[OF x(1)] show ?thesis by auto
  qed
qed

text \<open>What one traversal step adds: the addresses below the node, each new node once.\<close>

definition adds :: "operator_node set \<Rightarrow> nat set \<times> operator_node list \<Rightarrow> nat set \<times> operator_node list \<Rightarrow> bool" where
  "adds N z z' \<longleftrightarrow>
     fst z' = fst z \<union> node_id ` N
     \<and> (\<exists>new. snd z' = snd z @ new \<and> distinct (map node_id new) \<and> set new \<subseteq> N
              \<and> node_id ` set new = fst z' - fst z)"

lemma adds_seen: "node_id ` N \<subseteq> fst z \<Longrightarrow> adds N z z"
  unfolding adds_def by (intro conjI exI[of _ "[]"]) auto

lemma adds_trans:
  assumes "adds N z z'" "adds M z' z''"
  shows "adds (N \<union> M) z z''"
proof -
  from assms obtain us vs where
    u: "snd z' = snd z @ us" "distinct (map node_id us)" "set us \<subseteq> N" "node_id ` set us = fst z' - fst z"
    and v: "snd z'' = snd z' @ vs" "distinct (map node_id vs)" "set vs \<subseteq> M" "node_id ` set vs = fst z'' - fst z'"
    and f: "fst z' = fst z \<union> node_id ` N" "fst z'' = fst z' \<union> node_id ` M"
    unfolding adds_def by (elim conjE exE)
  have "node_id ` set us \<inter> node_id ` set vs = {}" unfolding u(4) v(4) by blast
  then have "distinct (map node_id (us @ vs))" using u(2) v(2) by simp
  moreover have "node_id ` set (us @ vs) = fst z'' - fst z"
    unfolding set_append image_Un u(4) v(4) using f by blast
  moreover have "snd z'' = snd z @ (us @ vs)" using u(1) v(1) by simp
  moreover have "set (us @ vs) \<subseteq> N \<union> M" unfolding set_append using u(3) v(3) by blast
  moreover have "fst z'' = fst z \<union> node_id ` (N \<union> M)" unfolding f image_Un by (rule Un_assoc)
  ultimately show ?thesis unfolding adds_def by blast
qed

lemma adds_new: "node_id n \<notin> seen \<Longrightarrow> adds {n} (seen, out) (insert (node_id n) seen, out @ [n])"
  unfolding adds_def by (intro conjI exI[of _ "[n]"]) auto

lemma fold_adds:
  assumes "\<And>c z. c \<in> set cs \<Longrightarrow> traversed S (fst z) (Suc (node_height c)) \<Longrightarrow> adds (below c) z (f c z)"
    and "coherent S" and "set cs \<subseteq> S" and "\<And>c. c \<in> set cs \<Longrightarrow> node_height c < h"
    and "traversed S (fst z) h"
  shows "adds (\<Union>c \<in> set cs. below c) z (fold f cs z)"
  using assms
proof (induction cs arbitrary: z)
  case Nil
  then show ?case by (simp add: adds_seen)
next
  case (Cons c cs)
  have c: "adds (below c) z (f c z)"
    by (rule Cons.prems(1)) (use Cons.prems(4,5) in \<open>auto intro: traversed_mono simp: Suc_le_eq\<close>)
  have "traversed S (fst z \<union> node_id ` below c) h"
    using Cons.prems(2,3,5) by (intro traversed_union) auto
  then have "traversed S (fst (f c z)) h"
    using c by (simp add: adds_def)
  then have "adds (\<Union>c \<in> set cs. below c) (f c z) (fold f cs (f c z))"
    using Cons.prems(1,2,3,4) by (intro Cons.IH) auto
  from adds_trans[OF c this] show ?case by simp
qed

lemma reach_walk_adds:
  "coherent S \<Longrightarrow> n \<in> S \<Longrightarrow> traversed S (fst z) (Suc (node_height n)) \<Longrightarrow>
   adds (below n) z (reach_walk n z)"
proof (induction n z rule: reach_walk.induct)
  case (1 n seen out)
  show ?case
  proof (cases "node_id n \<in> seen")
    case True
    with 1(3,4) show ?thesis
      by (subst reach_walk.simps) (force simp: traversed_def intro!: adds_seen)
  next
    case False
    let ?z = "(insert (node_id n) seen, out @ [n])"
    have cs: "set (node_children n) \<subseteq> S" using 1(2,3) by (auto simp: coherent_def)
    have "adds (\<Union>c \<in> set (node_children n). below c) ?z (fold reach_walk (node_children n) ?z)"
    proof (rule fold_adds)
      fix c and z :: "nat set \<times> operator_node list"
      assume "c \<in> set (node_children n)" "traversed S (fst z) (Suc (node_height c))"
      then show "adds (below c) z (reach_walk c z)"
        using 1(1)[OF False, of c z] 1(2) cs by auto
    qed (use 1(2,3,4) cs children_height in \<open>auto intro: traversed_insert\<close>)
    from adds_trans[OF adds_new[OF False] this] show ?thesis
      by (subst reach_walk.simps, subst below_unfold) (use False in simp)
  qed
qed

lemma coherent_self: "inj_on node_id (below n) \<Longrightarrow> coherent (below n)"
  by (auto simp: coherent_def intro: below_step)

lemma reachable_spec:
  assumes "inj_on node_id (below root)"
  shows "distinct (map node_id (reachable root)) \<and> set (reachable root) = below root"
proof -
  have "adds (below root) ({}, []) (reach_walk root ({}, []))"
    by (rule reach_walk_adds[OF coherent_self[OF assms] below_refl]) simp
  then have d: "distinct (map node_id (reachable root))" and s: "set (reachable root) \<subseteq> below root"
    and i: "node_id ` set (reachable root) = node_id ` below root"
    by (auto simp: adds_def reachable_def)
  have "below root \<subseteq> set (reachable root)"
  proof
    fix m assume m: "m \<in> below root"
    with i obtain x where x: "x \<in> set (reachable root)" "node_id m = node_id x" by auto
    with s m assms have "m = x" by (auto dest: inj_onD)
    with x show "m \<in> set (reachable root)" by simp
  qed
  with d s show ?thesis by auto
qed

text \<open>
  A search that stops at the first node failing \<open>P\<close>: a seen node that has been searched to the end is
  clean, everything below it meets \<open>P\<close>.
\<close>

definition clean :: "(operator_node \<Rightarrow> bool) \<Rightarrow> operator_node \<Rightarrow> bool" where
  "clean P n \<longleftrightarrow> (\<forall>m \<in> below n. P m)"

definition searched ::
  "(operator_node \<Rightarrow> bool) \<Rightarrow> operator_node set \<Rightarrow> nat set \<Rightarrow> nat \<Rightarrow> bool" where
  "searched P S seen h \<longleftrightarrow> (\<forall>m \<in> S. node_id m \<in> seen \<and> node_height m < h \<longrightarrow> clean P m)"

lemma searched_empty [simp]: "searched P S {} h"
  by (simp add: searched_def)

lemma searched_insert:
  "coherent S \<Longrightarrow> n \<in> S \<Longrightarrow> searched P S seen h \<Longrightarrow> node_height n \<le> h \<Longrightarrow>
   searched P S (insert (node_id n) seen) (node_height n)"
  using coherent_eq by (fastforce simp: searched_def)

lemma clean_below: "clean P n \<Longrightarrow> m \<in> below n \<Longrightarrow> clean P m"
  using below_trans by (fastforce simp: clean_def)

lemma clean_unfold: "clean P n \<longleftrightarrow> P n \<and> (\<forall>c \<in> set (node_children n). clean P c)"
  unfolding clean_def by (subst below_unfold) auto

lemma searched_grow:
  assumes "coherent S" "n \<in> S" "searched P S seen h" "clean P n" "seen' \<subseteq> seen \<union> node_id ` below n"
  shows "searched P S seen' h"
  unfolding searched_def
proof (intro ballI impI)
  fix m assume m: "m \<in> S" and pre: "node_id m \<in> seen' \<and> node_height m < h"
  show "clean P m"
  proof (cases "node_id m \<in> seen")
    case True
    with assms(3) m pre show ?thesis by (auto simp: searched_def)
  next
    case False
    with pre assms(5) obtain x where x: "x \<in> below n" "node_id m = node_id x" by auto
    then have "m = x"
      using coherent_eq[OF assms(1) m] coherent_below[OF assms(1,2)] by blast
    with x(1) assms(4) show ?thesis by (auto intro: clean_below)
  qed
qed

lemma any_searched:
  assumes "\<And>c seen. c \<in> set cs \<Longrightarrow> node_id c \<notin> seen \<Longrightarrow> searched P S (insert (node_id c) seen) (node_height c) \<Longrightarrow>
      (case f c (insert (node_id c) seen) of (r, seen') \<Rightarrow>
         (r \<longleftrightarrow> \<not> clean P c) \<and> (\<not> r \<longrightarrow> seen' \<subseteq> seen \<union> node_id ` below c))"
    and "coherent S" "set cs \<subseteq> S" "\<And>c. c \<in> set cs \<Longrightarrow> node_height c < h" "searched P S seen h"
  shows "(case any_st (\<lambda>c seen. if node_id c \<in> seen then (False, seen) else f c (insert (node_id c) seen)) cs seen
     of (r, seen') \<Rightarrow> (r \<longleftrightarrow> (\<exists>c \<in> set cs. \<not> clean P c))
        \<and> (\<not> r \<longrightarrow> seen' \<subseteq> seen \<union> (\<Union>c \<in> set cs. node_id ` below c)))"
  using assms
proof (induction cs arbitrary: seen)
  case Nil
  then show ?case by simp
next
  case (Cons c cs)
  have S: "c \<in> S" "node_height c < h" using Cons.prems by auto
  have rest: "(case any_st (\<lambda>c seen. if node_id c \<in> seen then (False, seen) else f c (insert (node_id c) seen)) cs seen'
     of (r, seen'') \<Rightarrow> (r \<longleftrightarrow> (\<exists>c \<in> set cs. \<not> clean P c))
        \<and> (\<not> r \<longrightarrow> seen'' \<subseteq> seen' \<union> (\<Union>c \<in> set cs. node_id ` below c)))"
    if "searched P S seen' h" for seen'
    by (rule Cons.IH) (use Cons.prems that in auto)
  show ?case
  proof (cases "node_id c \<in> seen")
    case True
    then have "clean P c" using Cons.prems(5) S by (auto simp: searched_def)
    with True rest[OF Cons.prems(5)] show ?thesis by (auto split: prod.splits)
  next
    case False
    obtain r seen' where e: "f c (insert (node_id c) seen) = (r, seen')" by (cases "f c (insert (node_id c) seen)")
    have "searched P S (insert (node_id c) seen) (node_height c)"
      using Cons.prems(2,5) S coherent_eq[OF Cons.prems(2) _ S(1)]
      by (fastforce simp: searched_def)
    from Cons.prems(1)[OF _ False this] e
    have r: "r \<longleftrightarrow> \<not> clean P c" "\<not> r \<Longrightarrow> seen' \<subseteq> seen \<union> node_id ` below c" by auto
    show ?thesis
    proof (cases r)
      case True
      with e False r show ?thesis by auto
    next
      case r': False
      then have "searched P S seen' h"
        using searched_grow[OF Cons.prems(2) S(1) Cons.prems(5) _ r(2)] r(1) by blast
      from rest[OF this] e False r r' show ?thesis by (auto split: prod.splits)
    qed
  qed
qed

lemma contains_walk_spec:
  "coherent S \<Longrightarrow> n \<in> S \<Longrightarrow> searched (\<lambda>m. \<not> is_asap m) S seen (node_height n) \<Longrightarrow>
   (case contains_walk n seen of (r, seen') \<Rightarrow>
      (r \<longleftrightarrow> \<not> clean (\<lambda>m. \<not> is_asap m) n) \<and> (\<not> r \<longrightarrow> seen' \<subseteq> seen \<union> node_id ` below n))"
proof (induction n seen rule: contains_walk.induct)
  case (1 n seen)
  show ?case
  proof (cases "is_asap n")
    case True
    then show ?thesis by (subst contains_walk.simps) (simp add: clean_unfold[of _ n])
  next
    case False
    have cs: "set (node_children n) \<subseteq> S" using 1(2,3) by (auto simp: coherent_def)
    have "(case any_st (\<lambda>c seen. if node_id c \<in> seen then (False, seen) else contains_walk c (insert (node_id c) seen))
        (node_children n) seen
      of (r, seen') \<Rightarrow> (r \<longleftrightarrow> (\<exists>c \<in> set (node_children n). \<not> clean (\<lambda>m. \<not> is_asap m) c))
        \<and> (\<not> r \<longrightarrow> seen' \<subseteq> seen \<union> (\<Union>c \<in> set (node_children n). node_id ` below c)))"
    proof (rule any_searched)
      fix c seen
      assume c: "c \<in> set (node_children n)" "node_id c \<notin> seen"
        "searched (\<lambda>m. \<not> is_asap m) S (insert (node_id c) seen) (node_height c)"
      have "insert (node_id c) seen \<union> node_id ` below c = seen \<union> node_id ` below c"
        by (auto intro: below_refl)
      moreover have "c \<in> S" using c(1) cs by blast
      ultimately show "case contains_walk c (insert (node_id c) seen) of (r, seen') \<Rightarrow>
         (r \<longleftrightarrow> \<not> clean (\<lambda>m. \<not> is_asap m) c) \<and> (\<not> r \<longrightarrow> seen' \<subseteq> seen \<union> node_id ` below c)"
        using 1(1)[OF False c(1) c(2) 1(2) _ c(3)] by simp
    qed (use 1(2,4) cs children_height in auto)
    with False show ?thesis
      by (subst contains_walk.simps, simp add: clean_unfold[of _ n] below_unfold[of n])
        (auto split: prod.splits)
  qed
qed

lemma contains_asap_spec:
  assumes "inj_on node_id (below root)"
  shows "contains_asap root \<longleftrightarrow> (\<exists>n \<in> below root. is_asap n)"
  using contains_walk_spec[OF coherent_self[OF assms] below_refl, of "{}"]
  by (auto simp: contains_asap_def searched_def clean_def split: prod.splits)

end
