(* ===== verification/Population.thy ===== *)
theory Population
  imports NodeOps "HOL-Library.List_Lexorder" "HOL-Library.Char_ord" "HOL-Library.Product_Lexorder"
begin

text \<open>
  Whether a maintenance input is the one a maintained population declares
  (\<^verbatim>\<open>crates/types/src/ir/operator/maintained_population.rs\<close>, \<^verbatim>\<open>matches_node\<close>). The derived order on
  matchers compares label, value and operation in that order; a string is ordered by its bytes.
\<close>

fun match_rank :: "current_series_match \<Rightarrow> nat" where
  "match_rank MatchEqual = 0"
| "match_rank MatchNotEqual = 1"
| "match_rank MatchRegex = 2"
| "match_rank MatchNotRegex = 3"

definition matcher_key :: "current_series_matcher \<Rightarrow> string \<times> string \<times> nat" where
  "matcher_key m = (matcher_label m, matcher_value m, match_rank (matcher_operation m))"

lemma matcher_key_inj: "inj matcher_key"
proof (rule injI)
  fix m n :: current_series_matcher
  have "match_rank a = match_rank b \<Longrightarrow> a = b" for a b
    by (cases a; cases b) simp_all
  then show "matcher_key m = matcher_key n \<Longrightarrow> m = n"
    by (cases m; cases n) (auto simp: matcher_key_def)
qed

text \<open>\<^verbatim>\<open>matchers.sort(); matchers.dedup()\<close>.\<close>

definition sorted_matchers :: "current_series_matcher list \<Rightarrow> current_series_matcher list" where
  "sorted_matchers ms = remdups_adj (List.sort_key matcher_key ms)"

lemma set_sorted_matchers: "set (sorted_matchers ms) = set ms"
  by (simp add: sorted_matchers_def)

lemma sorted_remdups_adj_distinct:
  "sorted (xs :: 'a::linorder list) \<Longrightarrow> distinct (remdups_adj xs)"
  by (induction xs rule: remdups_adj.induct) (auto dest: order.antisym)

lemma sorted_matchers_keys: "sorted_wrt (<) (map matcher_key (sorted_matchers ms))"
proof -
  have "map matcher_key (sorted_matchers ms) = remdups_adj (map matcher_key (List.sort_key matcher_key ms))"
    by (simp add: sorted_matchers_def remdups_adj_map_injective[OF matcher_key_inj])
  moreover have "sorted (map matcher_key (List.sort_key matcher_key ms))" by simp
  note sorted_remdups_adj [OF this] sorted_remdups_adj_distinct [OF this]
  ultimately show ?thesis
    by (simp add: strict_sorted_iff)
qed

lemma distinct_sorted_matchers: "distinct (sorted_matchers ms)"
  using sorted_matchers_keys [of ms] by (simp add: strict_sorted_iff distinct_map)

text \<open>A list in the order of the keys, without a repetition, is determined by its matchers.\<close>

lemma matchers_unique:
  assumes "sorted_wrt (<) (map matcher_key ms)" and "sorted_wrt (<) (map matcher_key ns)" and "set ms = set ns"
  shows "ms = ns"
proof -
  have "set (map matcher_key ms) = set (map matcher_key ns)" using assms(3) by simp
  then have "map matcher_key ms = map matcher_key ns"
    using assms(1,2) by (simp only: strict_sorted_equal)
  then show ?thesis using matcher_key_inj by (simp add: inj_map_eq_map)
qed

lemma sorted_matchers_iff:
  "ms = sorted_matchers ns \<longleftrightarrow> sorted_wrt (<) (map matcher_key ms) \<and> set ms = set ns"
  using matchers_unique [OF _ sorted_matchers_keys] sorted_matchers_keys set_sorted_matchers by metis

section \<open>Current series\<close>

fun match_of_compare :: "compare_op_kind \<Rightarrow> current_series_match option" where
  "match_of_compare EqOp = Some MatchEqual"
| "match_of_compare NeOp = Some MatchNotEqual"
| "match_of_compare RegexOp = Some MatchRegex"
| "match_of_compare NotRegexOp = Some MatchNotRegex"
| "match_of_compare _ = None"

text \<open>The matcher a scan predicate states, if it is one column compared with a string.\<close>

definition matcher_of_predicate :: "schema \<Rightarrow> 'c predicate \<Rightarrow> current_series_matcher option" where
  "matcher_of_predicate sch p =
     (case pred_expr p of
        Compare l op r _ \<Rightarrow>
          (case (l, r) of
             (Column col, Literal (Utf8Value v)) \<Rightarrow>
               (case get (schema_fields sch) col of
                  None \<Rightarrow> None
                | Some column \<Rightarrow>
                    if dtype column \<noteq> Plain Utf8Type then None
                    else map_option
                      (\<lambda>operation. \<lparr>matcher_label = name column, matcher_value = v,
                                     matcher_operation = operation\<rparr>)
                      (match_of_compare op))
           | _ \<Rightarrow> None)
      | _ \<Rightarrow> None)"

text \<open>The scan a current-series population reads: an instant range of its lookback, or the default one.\<close>

definition current_series_scan :: "current_series_input \<Rightarrow> operator_node \<Rightarrow> operator_node option" where
  "current_series_scan series input =
     (case operator_of input of
        NonASAP (TimeRange rng k c) \<Rightarrow>
          if k = InstantRange \<and> cs_lookback_ms series > 0 \<and> rng = cs_lookback_ms series * 1000000
          then Some c else None
      | _ \<Rightarrow> if cs_lookback_ms series = 300000 then Some input else None)"

definition current_series_matches :: "current_series_input \<Rightarrow> operator_node \<Rightarrow> bool" where
  "current_series_matches series input =
     (case current_series_scan series input of
        None \<Rightarrow> False
      | Some scan \<Rightarrow>
          (case operator_of scan of
             NonASAP (Scan (TimeSeries metric) predicates sch) \<Rightarrow>
               if cs_metric series = [] \<or> metric \<noteq> cs_metric series
                  \<or> (closed sch \<and> \<not> has_promql_series_identity sch) \<or> time_index sch = None
               then False
               else if list_ex (\<lambda>label. \<not> list_ex (\<lambda>c. name c = label \<and> dtype c = Plain Utf8Type)
                                            (schema_fields sch)) (cs_grouping series)
               then False
               else (case collect_option (matcher_of_predicate sch) predicates of
                       None \<Rightarrow> False
                     | Some ms \<Rightarrow> cs_matchers series = sorted_matchers ms
                                  \<and> successively (<) (cs_grouping series))
           | _ \<Rightarrow> False))"

text \<open>
  The declaration a scan may have: the matchers its label predicates state, in the order of their keys, labels that
  its schema has as strings, and, for a closed schema, the identity of its series.
\<close>

definition states_matcher :: "schema \<Rightarrow> 'c predicate \<Rightarrow> current_series_matcher \<Rightarrow> bool" where
  "states_matcher sch p m \<longleftrightarrow>
     (\<exists>col op sem column. pred_expr p = Compare (Column col) op (Literal (Utf8Value (matcher_value m))) sem
        \<and> col < length (schema_fields sch) \<and> column = schema_fields sch ! col
        \<and> dtype column = Plain Utf8Type \<and> name column = matcher_label m
        \<and> match_of_compare op = Some (matcher_operation m))"

definition declares_scan :: "current_series_input \<Rightarrow> operator_node \<Rightarrow> bool" where
  "declares_scan series scan \<longleftrightarrow>
     (\<exists>predicates sch. operator_of scan = NonASAP (Scan (TimeSeries (cs_metric series)) predicates sch)
        \<and> cs_metric series \<noteq> [] \<and> time_index sch \<noteq> None \<and> (closed sch \<longrightarrow> has_promql_series_identity sch)
        \<and> sorted_wrt (<) (cs_grouping series)
        \<and> (\<forall>label \<in> set (cs_grouping series). \<exists>c \<in> set (schema_fields sch). name c = label \<and> dtype c = Plain Utf8Type)
        \<and> sorted_wrt (<) (map matcher_key (cs_matchers series))
        \<and> (\<forall>p \<in> set predicates. \<exists>m \<in> set (cs_matchers series). states_matcher sch p m)
        \<and> (\<forall>m \<in> set (cs_matchers series). \<exists>p \<in> set predicates. states_matcher sch p m))"

lemma matcher_of_predicate_iff: "matcher_of_predicate sch p = Some m \<longleftrightarrow> states_matcher sch p m"
  by (cases m) (auto simp: matcher_of_predicate_def states_matcher_def get_def split: scalar_expr.splits
      scalar_value.splits option.splits if_splits)

lemma states_matcher_unique: "states_matcher sch p m \<Longrightarrow> states_matcher sch p n \<Longrightarrow> m = n"
  by (metis matcher_of_predicate_iff option.inject)

lemma collect_option_matchers:
  "(\<exists>ms. collect_option (matcher_of_predicate sch) ps = Some ms \<and> xs = sorted_matchers ms) \<longleftrightarrow>
     sorted_wrt (<) (map matcher_key xs)
     \<and> (\<forall>p \<in> set ps. \<exists>m \<in> set xs. states_matcher sch p m) \<and> (\<forall>m \<in> set xs. \<exists>p \<in> set ps. states_matcher sch p m)"
  (is "?l \<longleftrightarrow> ?r")
proof
  assume ?l
  then obtain ms where ms: "list_all2 (states_matcher sch) ps ms" and xs: "xs = sorted_matchers ms"
    by (auto simp: collect_option_Some matcher_of_predicate_iff)
  from ms have "(\<forall>p \<in> set ps. \<exists>m \<in> set ms. states_matcher sch p m) \<and> (\<forall>m \<in> set ms. \<exists>p \<in> set ps. states_matcher sch p m)"
    by (induction rule: list_all2_induct) auto
  with xs show ?r by (simp add: sorted_matchers_keys set_sorted_matchers)
next
  assume r: ?r
  let ?ms = "map (\<lambda>p. the (matcher_of_predicate sch p)) ps"
  have of_states: "the (matcher_of_predicate sch p) = m" if "states_matcher sch p m" for p m
    using that by (simp add: matcher_of_predicate_iff [symmetric])
  have some: "\<exists>m \<in> set xs. matcher_of_predicate sch p = Some m" if "p \<in> set ps" for p
    using r that by (simp add: matcher_of_predicate_iff)
  then have "collect_option (matcher_of_predicate sch) ps = Some ?ms"
    by (fastforce simp: collect_option_Some list.rel_map list_all2_same)
  moreover have "set xs = set ?ms"
  proof (intro equalityI subsetI)
    fix m
    assume "m \<in> set xs"
    then obtain p where "p \<in> set ps" "states_matcher sch p m" using r by blast
    then show "m \<in> set ?ms" using of_states by force
  next
    fix m
    assume "m \<in> set ?ms"
    then obtain p where p: "p \<in> set ps" "m = the (matcher_of_predicate sch p)" by auto
    with some [OF p(1)] show "m \<in> set xs" by auto
  qed
  ultimately show ?l using r by (auto simp: sorted_matchers_iff)
qed

lemma current_series_matches_iff:
  "current_series_matches series input \<longleftrightarrow>
     (\<exists>scan. (scan = input \<and> cs_lookback_ms series = 300000
          \<or> operator_of input = NonASAP (TimeRange (cs_lookback_ms series * 1000000) InstantRange scan)
            \<and> 0 < cs_lookback_ms series)
        \<and> declares_scan series scan)"
proof -
  have "current_series_matches series input \<longleftrightarrow>
      (\<exists>scan. current_series_scan series input = Some scan \<and> declares_scan series scan)"
    by (auto simp: current_series_matches_def declares_scan_def collect_option_matchers [symmetric] list_ex_iff
        successively_conv_sorted_wrt [OF transp_on_less] split: option.splits operator.splits non_asap_op.splits source.splits)
  moreover have "current_series_scan series input = Some scan \<longleftrightarrow>
      scan = input \<and> cs_lookback_ms series = 300000 \<and> (\<forall>w k c. operator_of input \<noteq> NonASAP (TimeRange w k c))
      \<or> operator_of input = NonASAP (TimeRange (cs_lookback_ms series * 1000000) InstantRange scan)
        \<and> 0 < cs_lookback_ms series" for scan
    by (auto simp: current_series_scan_def split: operator.splits non_asap_op.splits)
  moreover have "declares_scan series input \<Longrightarrow> operator_of input \<noteq> NonASAP (TimeRange w k c)" for w k c
    by (auto simp: declares_scan_def)
  ultimately show ?thesis by blast
qed

lemma declares_scan_unique:
  assumes "declares_scan series scan" and "declares_scan other scan"
  shows "cs_metric series = cs_metric other \<and> cs_matchers series = cs_matchers other"
proof -
  from assms(1) obtain predicates sch where
    scan: "operator_of scan = NonASAP (Scan (TimeSeries (cs_metric series)) predicates sch)"
    and ms: "\<forall>p \<in> set predicates. \<exists>m \<in> set (cs_matchers series). states_matcher sch p m"
      "\<forall>m \<in> set (cs_matchers series). \<exists>p \<in> set predicates. states_matcher sch p m"
      "sorted_wrt (<) (map matcher_key (cs_matchers series))"
    unfolding declares_scan_def by blast
  with assms(2) have metric: "cs_metric series = cs_metric other"
    and ns: "\<forall>p \<in> set predicates. \<exists>m \<in> set (cs_matchers other). states_matcher sch p m"
      "\<forall>m \<in> set (cs_matchers other). \<exists>p \<in> set predicates. states_matcher sch p m"
      "sorted_wrt (<) (map matcher_key (cs_matchers other))"
    by (auto simp: declares_scan_def)
  have sub: "set ms \<subseteq> set ns"
    if "\<forall>m \<in> set ms. \<exists>p \<in> set predicates. states_matcher sch p m"
      "\<forall>p \<in> set predicates. \<exists>m \<in> set ns. states_matcher sch p m" for ms ns
  proof
    fix m
    assume "m \<in> set ms"
    with that(1) obtain p where p: "p \<in> set predicates" "states_matcher sch p m" by blast
    with that(2) obtain n where n: "n \<in> set ns" "states_matcher sch p n" by blast
    have "m = n" by (rule states_matcher_unique [OF p(2) n(2)])
    with n(1) show "m \<in> set ns" by simp
  qed
  have "set (cs_matchers series) = set (cs_matchers other)"
    using sub [OF ms(2) ns(1)] sub [OF ns(2) ms(1)] by blast
  with metric matchers_unique [OF ms(3) ns(3)] show ?thesis by blast
qed

section \<open>Rows\<close>

text \<open>\<^verbatim>\<open>MaintainedPopulation::matches_node\<close>.\<close>

definition rows_match :: "operator_node \<Rightarrow> nat \<Rightarrow> column_id group_keys \<Rightarrow> operator_node \<Rightarrow> bool" where
  "rows_match expected value_column grouping input =
     (case operator_of input of
        NonASAP (Scan (TableSource _) _ sch) \<Rightarrow>
          operator_eq (operator_of expected) (operator_of input)
          \<and> schema_eq (node_schema expected) (node_schema input)
          \<and> closed sch
          \<and> (case get (schema_fields sch) value_column of
               Some c \<Rightarrow> dtype c = Plain Float64Type \<and> \<not> nullable c | None \<Rightarrow> False)
          \<and> \<not> is_without grouping
          \<and> list_all (\<lambda>k. k < length (schema_fields sch)) (group_key_list grouping)
      | _ \<Rightarrow> False)"

definition matches_node :: "operator_node maintained_population \<Rightarrow> operator_node \<Rightarrow> bool" where
  "matches_node p input =
     (case population_input p of
        CurrentSeries series \<Rightarrow> current_series_matches series input
      | PopRows expected value_column grouping \<Rightarrow> rows_match expected value_column grouping input)"

text \<open>
  Each population kind reads one kind of source: a current-series population never matches table
  rows, and a row population never matches a time series.
\<close>

lemma current_series_reads_time_series:
  "current_series_matches series input \<Longrightarrow>
     \<exists>scan predicates sch. current_series_scan series input = Some scan
       \<and> operator_of scan = NonASAP (Scan (TimeSeries (cs_metric series)) predicates sch)
       \<and> time_index sch \<noteq> None"
  by (auto simp: current_series_matches_def split: option.splits operator.splits
      non_asap_op.splits source.splits if_splits)

lemma rows_match_reads_table:
  "rows_match expected v g input \<Longrightarrow>
     \<exists>t predicates sch. operator_of input = NonASAP (Scan (TableSource t) predicates sch)
       \<and> v < length (schema_fields sch)"
  by (auto simp: rows_match_def get_Some split: option.splits operator.splits non_asap_op.splits
      source.splits)

text \<open>The declared matchers are the set of the scan's, without a repetition, so their spelling is unique.\<close>

lemma current_series_matchers_distinct:
  "current_series_matches series input \<Longrightarrow> distinct (cs_matchers series)"
  by (auto simp: current_series_matches_def distinct_sorted_matchers split: option.splits
      operator.splits non_asap_op.splits source.splits if_splits)

end
