(* ===== verification/Timing.thy ===== *)
theory Timing
  imports Population
begin

text \<open>
  Execution timing (\<^verbatim>\<open>crates/types/src/ir/properties/timing.rs\<close>): a materialization assignment is
  written into every node from the top down, then every edge is validated. The maps keyed by
  address are finite maps from \<open>node_id\<close>; the caches the code mutates are passed along. A violated
  \<^verbatim>\<open>expect\<close> is the failure \<open>Panicked\<close>.
\<close>

datatype timing_failure = Reported data_state_error | Panicked string

section \<open>Assignments\<close>

record assignment =
  assigned :: "nat \<rightharpoonup> materialization"
  unassigned :: materialization

definition with_default :: "materialization \<Rightarrow> assignment" where
  "with_default m = \<lparr>assigned = Map.empty, unassigned = m\<rparr>"

definition set_assignment :: "assignment \<Rightarrow> operator_node \<Rightarrow> materialization \<Rightarrow> assignment" where
  "set_assignment a n m = a\<lparr>assigned := (assigned a)(node_id n \<mapsto> m)\<rparr>"

definition get_assignment :: "assignment \<Rightarrow> operator_node \<Rightarrow> materialization option" where
  "get_assignment a n = assigned a (node_id n)"

text \<open>\<^verbatim>\<open>is_filtered_build\<close>, \<^verbatim>\<open>is_materialization_point\<close>.\<close>

definition is_filtered_build :: "operator_node \<Rightarrow> bool" where
  "is_filtered_build n \<longleftrightarrow>
     (case asap_of n of
        Some (SummaryAgg _ _ _ _ _ (Some _)) \<Rightarrow> True
      | Some (SummaryTumblingWindowChain _ _ _ _ _ (Some _) _ _) \<Rightarrow> True
      | _ \<Rightarrow> False)"

fun is_materialization_point :: "('c, 'n) operator \<Rightarrow> bool" where
  "is_materialization_point (ASAP (SummaryAgg _ _ _ _ _ _)) = True"
| "is_materialization_point (ASAP (SummaryTumblingWindowChain _ _ _ _ _ _ _ _)) = True"
| "is_materialization_point (ASAP (MaintainPopulation _ _)) = True"
| "is_materialization_point _ = False"

text \<open>\<^verbatim>\<open>MaterializationAssignment::resolve\<close>.\<close>

definition at_ingestion :: "materialization \<Rightarrow> bool" where
  "at_ingestion m \<longleftrightarrow> materialization_timing m = IngestionTime"

definition resolve ::
  "assignment \<Rightarrow> operator_node \<Rightarrow> bool \<Rightarrow> data_state_error + materialization" where
  "resolve a n upstream_at_query_time =
     (case get_assignment a n of
        Some m \<Rightarrow>
          if at_ingestion m \<and> is_filtered_build n
          then Err (FilteredSummaryAtIngestion (kind_name (operator_of n)))
          else if at_ingestion m \<and> upstream_at_query_time
          then Err (UpstreamNotAtIngestion (kind_name (operator_of n)))
          else Ok m
      | None \<Rightarrow>
          if at_ingestion (unassigned a) \<and> (upstream_at_query_time \<or> is_filtered_build n)
          then Ok NotMaterialized
          else Ok (unassigned a))"

section \<open>Data states\<close>

definition primitive :: "operator_node \<Rightarrow> data_primitive" where
  "primitive n =
     (case operator_of n of
        ASAP op \<Rightarrow>
          if produced_state op \<noteq> None \<or> (case op of MaintainPopulation _ _ \<Rightarrow> True | _ \<Rightarrow> False)
             \<or> result_kind n = StateKind
          then SummaryState else Raw
      | NonASAP _ \<Rightarrow> if result_kind n = StateKind then SummaryState else Raw)"

definition data_state :: "operator_node \<Rightarrow> execution_data_state option" where
  "data_state n =
     map_option (\<lambda>t. \<lparr>state_timing = t, state_primitive = primitive n\<rparr>) (node_timing n)"

section \<open>What can only run at query time\<close>

text \<open>\<^verbatim>\<open>per_series_rows\<close>: the rows both sides of ingestion-time arithmetic must share.\<close>

lemma finalize_child_height:
  "operator_of n = NonASAP (BinaryOp b rb l r) \<Longrightarrow> node_height l < node_height n"
  "operator_of n = NonASAP (BinaryOp b rb l r) \<Longrightarrow> node_height r < node_height n"
  by (auto intro!: children_height simp: node_children_def non_asap_children_def)

definition same_rows :: "operator_node option \<Rightarrow> operator_node \<Rightarrow> bool" where
  "same_rows x rows \<longleftrightarrow> (case x of Some n \<Rightarrow> node_eq n rows | None \<Rightarrow> False)"

function per_series_rows :: "operator_node \<Rightarrow> operator_node option" where
  "per_series_rows n =
     (case operator_of n of
        ASAP (FinalizeExactAccumulator c) \<Rightarrow>
          (case operator_of c of
             ASAP (SummaryAgg rows (ExactAggregate k _) _ PerEntity _ None) \<Rightarrow>
               if k = SumKind \<or> k = CountKind then Some rows else None
           | _ \<Rightarrow> None)
      | NonASAP (BinaryOp _ _ l r) \<Rightarrow>
          (case per_series_rows l of
             None \<Rightarrow> None
           | Some rows \<Rightarrow> if same_rows (per_series_rows r) rows then Some rows else None)
      | _ \<Rightarrow> None)"
  by pat_completeness auto
termination
  by (relation "measure node_height") (auto intro: finalize_child_height)

declare per_series_rows.simps [simp del]

definition aligned_rows :: "operator_node \<Rightarrow> operator_node \<Rightarrow> bool" where
  "aligned_rows l r \<longleftrightarrow>
     (case per_series_rows l of None \<Rightarrow> False | Some rows \<Rightarrow> same_rows (per_series_rows r) rows)"

definition has_identity_column :: "schema \<Rightarrow> bool" where
  "has_identity_column s \<longleftrightarrow> list_ex (\<lambda>f. name f = promql_series_identity) (schema_fields s)"

definition unaligned_binary :: "operator_node \<Rightarrow> bool" where
  "unaligned_binary n \<longleftrightarrow>
     (case operator_of n of
        NonASAP (BinaryOp _ _ l r) \<Rightarrow> has_identity_column (node_schema n) \<and> \<not> aligned_rows l r
      | _ \<Rightarrow> False)"

definition is_evaluation :: "operator_node \<Rightarrow> bool" where
  "is_evaluation n \<longleftrightarrow>
     (case operator_of n of
        ASAP (SummaryEstimate _ _) \<Rightarrow> True
      | ASAP (EvaluatePopulation _ _) \<Rightarrow> True
      | _ \<Rightarrow> False)"

text \<open>What an assigned sub-DAG does, given whether its inputs are forced.\<close>

definition forced_by_assignment :: "assignment \<Rightarrow> operator_node \<Rightarrow> bool \<Rightarrow> bool" where
  "forced_by_assignment a n upstream =
     (case resolve a n upstream of
        Inr m \<Rightarrow>
          if m = NotMaterialized \<and> \<not> is_materialization_point (operator_of n) then upstream
          else materialization_timing m = QueryTime
      | Inl _ \<Rightarrow> True)"

definition decided_by_assignment :: "assignment \<Rightarrow> operator_node \<Rightarrow> bool" where
  "decided_by_assignment a n \<longleftrightarrow>
     node_timing n = None
     \<and> (is_materialization_point (operator_of n) \<or> get_assignment a n \<noteq> None)"

text \<open>\<^verbatim>\<open>forces_query_time\<close>, with its cache.\<close>

function forces_query_time ::
  "assignment \<Rightarrow> operator_node \<Rightarrow> (nat \<rightharpoonup> bool) \<Rightarrow> bool \<times> (nat \<rightharpoonup> bool)" where
  "forces_query_time a n seen =
     (case seen (node_id n) of
        Some cached \<Rightarrow> (cached, seen)
      | None \<Rightarrow>
          (case
             (if node_timing n = Some QueryTime then (True, seen)
              else if is_evaluation n then (True, seen)
              else if decided_by_assignment a n then
                (case any_st (forces_query_time a) (node_children n) seen of
                   (upstream, seen) \<Rightarrow> (forced_by_assignment a n upstream, seen))
              else if unaligned_binary n then (True, seen)
              else any_st (forces_query_time a) (node_children n) seen)
           of (forced, seen) \<Rightarrow> (forced, seen(node_id n \<mapsto> forced))))"
  by pat_completeness auto
termination
  by (relation "measure (\<lambda>(_, n, _). node_height n)") (auto intro: children_height)

declare forces_query_time.simps [simp del]

definition upstream_at_query_time ::
  "assignment \<Rightarrow> operator_node \<Rightarrow> (nat \<rightharpoonup> bool) \<Rightarrow> bool \<times> (nat \<rightharpoonup> bool)" where
  "upstream_at_query_time a n = any_st (forces_query_time a) (node_children n)"

section \<open>Placement\<close>

text \<open>\<^verbatim>\<open>placement\<close>: the timing and materialization of a node whose consumer runs at \<open>consumer\<close>.\<close>

definition fixed_placement ::
  "assignment \<Rightarrow> operator_node \<Rightarrow> execution_timing \<Rightarrow> (nat \<rightharpoonup> bool) \<Rightarrow>
     (data_state_error + execution_timing \<times> materialization) \<times> (nat \<rightharpoonup> bool)" where
  "fixed_placement a n placed forced =
     (if placed = IngestionTime \<and> is_filtered_build n
      then (Err (FilteredSummaryAtIngestion (kind_name (operator_of n))), forced)
      else
        (case (if placed = IngestionTime then upstream_at_query_time a n forced else (False, forced)) of
           (upstream, forced) \<Rightarrow>
             (if upstream then Err (UpstreamNotAtIngestion (kind_name (operator_of n)))
              else
                (case get_assignment a n of
                   Some m \<Rightarrow>
                     if m \<noteq> NotMaterialized \<and> materialization_timing m \<noteq> placed
                     then Err (MaterializationConflictsWithFixedTiming
                                 (kind_name (operator_of n)) placed m)
                     else Ok (placed, m)
                 | None \<Rightarrow> Ok (placed, node_materialization n)),
              forced)))"

definition placement ::
  "operator_node \<Rightarrow> execution_timing \<Rightarrow> assignment \<Rightarrow> (nat \<rightharpoonup> bool) \<Rightarrow>
     (data_state_error + execution_timing \<times> materialization) \<times> (nat \<rightharpoonup> bool)" where
  "placement n consumer a forced =
     (case node_timing n of
        Some placed \<Rightarrow> fixed_placement a n placed forced
      | None \<Rightarrow>
          if is_evaluation n then
            (case get_assignment a n of
               Some m \<Rightarrow>
                 if materialization_timing m = IngestionTime
                 then (Err (UpstreamNotAtIngestion (kind_name (operator_of n))), forced)
                 else (Ok (QueryTime, m), forced)
             | None \<Rightarrow> (Ok (QueryTime, NotMaterialized), forced))
          else if is_materialization_point (operator_of n) \<or> get_assignment a n \<noteq> None then
            (case upstream_at_query_time a n forced of
               (upstream, forced) \<Rightarrow>
                 (bind_result (resolve a n upstream)
                    (\<lambda>m. if m = NotMaterialized \<and> \<not> is_materialization_point (operator_of n)
                         then Ok (consumer, NotMaterialized)
                         else Ok (materialization_timing m, m)),
                  forced))
          else (Ok (consumer, NotMaterialized), forced))"

definition timing_under_consumer ::
  "operator_node \<Rightarrow> execution_timing \<Rightarrow> assignment \<Rightarrow> (nat \<rightharpoonup> bool) \<Rightarrow>
     execution_timing \<times> (nat \<rightharpoonup> bool)" where
  "timing_under_consumer n consumer a forced =
     (case placement n consumer a forced of
        (Inl _, forced) \<Rightarrow> (QueryTime, forced)
      | (Inr (t, _), forced) \<Rightarrow> (t, forced))"

section \<open>Writing the timings\<close>

record write_state =
  timed_node_of :: "nat \<rightharpoonup> operator_node" \<comment> \<open>\<^verbatim>\<open>NodeToTimedNodeCache\<close>\<close>
  next_address :: nat \<comment> \<open>where \<^verbatim>\<open>Rc::new\<close> puts the next node\<close>
  forced_of :: "nat \<rightharpoonup> bool"

text \<open>The error a write's closure keeps: the first one.\<close>

definition get_or_insert :: "'e option \<Rightarrow> 'e \<Rightarrow> 'e option" where
  "get_or_insert x e = (case x of None \<Rightarrow> Some e | Some d \<Rightarrow> Some d)"

definition timed_copy ::
  "nat \<Rightarrow> operator_node \<Rightarrow> node_op \<Rightarrow> execution_timing \<Rightarrow> materialization \<Rightarrow> operator_node" where
  "timed_copy i n op t m =
     with_materialization
       (with_timing (with_guarantee (with_schema i op (node_schema n)) (node_guarantee n)) (Some t)) m"

text \<open>A node reached before: its one timed copy, unless the consumer needs the other timing.\<close>

definition reuse_timed :: "operator_node \<Rightarrow> execution_timing \<Rightarrow> timing_failure + operator_node" where
  "reuse_timed earlier timing =
     (case node_timing earlier of
        None \<Rightarrow> Err (Panicked ''memoized node is timed'')
      | Some previous \<Rightarrow>
          if previous \<noteq> timing
          then Err (Reported (ConflictingTiming
                 \<lparr>state_timing = previous, state_primitive = primitive earlier\<rparr>
                 \<lparr>state_timing = timing, state_primitive = primitive earlier\<rparr>))
          else Ok earlier)"

function write_timings ::
  "assignment \<Rightarrow> operator_node \<Rightarrow> execution_timing \<Rightarrow> write_state \<Rightarrow>
     (timing_failure + operator_node) \<times> write_state" where
  "write_timings a n consumer st =
     (case placement n consumer a (forced_of st) of
        (Inl e, forced) \<Rightarrow> (Err (Reported e), st\<lparr>forced_of := forced\<rparr>)
      | (Inr (timing, m), forced) \<Rightarrow>
          (let st = st\<lparr>forced_of := forced\<rparr> in
           case timed_node_of st (node_id n) of
             Some earlier \<Rightarrow> (reuse_timed earlier timing, st)
           | None \<Rightarrow>
               (case map_children_st
                       (\<lambda>c (st, error).
                          case write_timings a c timing st of
                            (Inr timed, st) \<Rightarrow> (timed, (st, error))
                          | (Inl e, st) \<Rightarrow> (c, (st, get_or_insert error e)))
                       (operator_of n) (st, None) of
                  (op, (st, Some e)) \<Rightarrow> (Err e, st)
                | (op, (st, None)) \<Rightarrow>
                    (let timed = timed_copy (next_address st) n op timing m in
                     (Ok timed,
                      st\<lparr>timed_node_of := (timed_node_of st)(node_id n \<mapsto> timed),
                         next_address := Suc (next_address st)\<rparr>)))))"
  by pat_completeness auto
termination
  by (relation "measure (\<lambda>(_, n, _, _). node_height n)")
    (auto intro: children_height simp: node_children_def)

declare write_timings.simps [simp del]

section \<open>Validating the edges\<close>

definition state_of :: "operator_node \<Rightarrow> timing_failure + execution_data_state" where
  "state_of n = ok_or (Panicked ''timed node'') (data_state n)"

definition check :: "bool \<Rightarrow> data_state_error \<Rightarrow> timing_failure + unit" where
  "check ok e = (if ok then Ok () else Err (Reported e))"

text \<open>The first field that fails a test, as an error.\<close>

definition check_fields ::
  "(schema_field \<Rightarrow> bool) \<Rightarrow> (schema_field \<Rightarrow> data_state_error) \<Rightarrow> schema \<Rightarrow> timing_failure + unit" where
  "check_fields ok e s =
     (case find (\<lambda>f. \<not> ok f) (schema_fields s) of None \<Rightarrow> Ok () | Some f \<Rightarrow> Err (Reported (e f)))"

definition is_plain_or_exact :: "schema_field \<Rightarrow> bool" where
  "is_plain_or_exact f \<longleftrightarrow>
     (case dtype f of Plain _ \<Rightarrow> True | ExactAggregate _ _ \<Rightarrow> True | _ \<Rightarrow> False)"

definition is_exact_accumulator_state :: "schema \<Rightarrow> timing_failure + unit" where
  "is_exact_accumulator_state =
     check_fields is_plain_or_exact (\<lambda>f. UnsupportedStateComposition (dtype f))"

definition check_plain_or_exact_values :: "schema \<Rightarrow> timing_failure + unit" where
  "check_plain_or_exact_values =
     check_fields is_plain_or_exact (\<lambda>f. NonPlainOperand (name f) (dtype f))"

definition check_all_plain :: "schema \<Rightarrow> timing_failure + unit" where
  "check_all_plain = check_fields is_plain (\<lambda>f. NonPlainOperand (name f) (dtype f))"

fun all_ok :: "('a \<Rightarrow> 'e + unit) \<Rightarrow> 'a list \<Rightarrow> 'e + unit" where
  "all_ok f [] = Ok ()"
| "all_ok f (x # xs) = bind_result (f x) (\<lambda>_. all_ok f xs)"

lemma all_ok_iff: "all_ok f xs = Inr () \<longleftrightarrow> (\<forall>x \<in> set xs. f x = Inr ())"
  by (induction xs) auto

text \<open>The input of a build (\<^verbatim>\<open>SummaryAgg\<close>, \<^verbatim>\<open>SummaryTumblingWindowChain\<close>).\<close>

definition validate_build_input ::
  "string \<Rightarrow> operator_node \<Rightarrow> execution_timing \<Rightarrow> timing_failure + unit" where
  "validate_build_input edge c timing =
     bind_result (state_of c) (\<lambda>avail.
     bind_result
       (if avail = ingestion_rows \<or> avail = query_rows then Ok ()
        else if state_primitive avail = SummaryState then is_exact_accumulator_state (node_schema c)
        else Err (Reported (QueryTimeValueUnderIngestionSummary edge avail))) (\<lambda>_.
     bind_result
       (check (\<not> (timing = QueryTime \<and> state_timing avail = IngestionTime
                  \<and> materialization_timing (node_materialization c) \<noteq> IngestionTime))
          (UnstoredIngestionInputUnderQueryTimeSummary edge (kind_name (operator_of c)))) (\<lambda>_.
     check (\<not> (timing = IngestionTime \<and> state_timing avail = QueryTime))
       (QueryTimeValueUnderIngestionSummary edge avail))))"

definition population_of :: "operator_node \<Rightarrow> operator_node maintained_population option" where
  "population_of n =
     (case operator_of n of ASAP (MaintainPopulation _ p) \<Rightarrow> Some p | _ \<Rightarrow> None)"

fun validate_asap ::
  "operator_node \<Rightarrow> node_asap_op \<Rightarrow> execution_timing \<Rightarrow> timing_failure + unit" where
  "validate_asap n (SummaryAgg c _ _ _ _ _) timing = validate_build_input ''SummaryAgg.child'' c timing"
| "validate_asap n (SummaryTumblingWindowChain c _ _ _ _ _ _ _) timing =
     validate_build_input ''SummaryTumblingWindowChain.child'' c timing"
| "validate_asap n (SummaryEstimate c _) timing =
     bind_result (state_of c) (\<lambda>s.
     bind_result
       (check (state_primitive s = SummaryState)
          (IllegalChildDataState ''SummaryEstimate.summary_input'' s)) (\<lambda>_.
     if timing \<noteq> QueryTime
     then bind_result (state_of n) (\<lambda>s. Err (Reported (IllegalChildDataState ''SummaryEstimate'' s)))
     else Ok ()))"
| "validate_asap n (FinalizeExactAccumulator c) timing =
     bind_result (state_of c) (\<lambda>s.
     check (\<not> (state_primitive s \<noteq> SummaryState \<or> \<not> is_ok (is_exact_accumulator_state (node_schema c))
               \<or> (timing = IngestionTime \<and> state_timing s \<noteq> timing)))
       (IllegalChildDataState ''FinalizeExactAccumulator.child'' s))"
| "validate_asap n (MaintainPopulation c p) timing =
     (if matches_node p c then
        bind_result (state_of c) (\<lambda>s.
        check (s = \<lparr>state_timing = timing, state_primitive = Raw\<rparr>) InvalidMaintainedPopulation)
      else Err (Reported InvalidMaintainedPopulation))"
| "validate_asap n (EvaluatePopulation c evaluation) timing =
     check (timing = QueryTime
            \<and> (case population_of c of Some p \<Rightarrow> supports p evaluation | None \<Rightarrow> False)
            \<and> node_timing c \<noteq> None)
       InvalidMaintainedPopulation"
| "validate_asap n (SummaryMerge cs _ _) timing =
     all_ok (\<lambda>c.
       bind_result (state_of c) (\<lambda>s.
       check (\<not> (state_primitive s \<noteq> SummaryState \<or> (timing = IngestionTime \<and> state_timing s \<noteq> timing)))
         (IllegalChildDataState ''SummaryMerge.children'' s))) cs"
| "validate_asap n op timing = Err (Reported (UnimplementedOperator (asap_kind_name op)))"

definition selects_states :: "operator_node \<Rightarrow> bool" where
  "selects_states n \<longleftrightarrow> selected_from n \<noteq> None"

fun is_projection_like :: "'c non_asap_op \<Rightarrow> bool" where
  "is_projection_like (Project _ _ _) = True"
| "is_projection_like (Filter _ _) = True"
| "is_projection_like (Sort _ _ _) = True"
| "is_projection_like (Limit _ _ _ _) = True"
| "is_projection_like _ = False"

text \<open>The rule every input of an ordinary operator meets.\<close>

definition validate_input ::
  "operator_node \<Rightarrow> operator_node non_asap_op \<Rightarrow> execution_timing \<Rightarrow> operator_node \<Rightarrow>
     timing_failure + unit" where
  "validate_input n op timing c =
     bind_result (state_of c) (\<lambda>s.
     let passes_state =
           is_projection_like op \<and> state_primitive s = SummaryState
           \<and> (is_ok (is_exact_accumulator_state (node_schema c)) \<or> selects_states n);
         reads_stored =
           timing = QueryTime \<and> materialization_timing (node_materialization c) = IngestionTime
     in check (\<not> (state_timing s \<noteq> timing \<and> \<not> reads_stored
                  \<or> state_primitive s \<noteq> Raw \<and> \<not> passes_state))
          (IllegalChildDataState (non_asap_kind_name op) s))"

definition validate_aggregate ::
  "column_id reduction \<Rightarrow> column_id agg_intent list \<Rightarrow> operator_node \<Rightarrow> timing_failure + unit" where
  "validate_aggregate red ms c =
     (let referenced =
            (case group_keys_of red of Some keys \<Rightarrow> group_key_list keys | None \<Rightarrow> [])
            @ concat (map input_cols ms);
          implicit = list_ex (\<lambda>m. input_cols m = []) ms
      in all_ok (\<lambda>(i, f).
           check (\<not> ((implicit \<or> i \<in> set referenced) \<and> \<not> is_plain f)) (NonPlainOperand (name f) (dtype f)))
           (enumerate 0 (schema_fields (node_schema c))))"

definition plain_float_or_ts :: "schema \<Rightarrow> bool" where
  "plain_float_or_ts s \<longleftrightarrow>
     list_all (\<lambda>f. \<not> nullable f
        \<and> (if name f = promql_series_identity then dtype f = Plain Utf8Type
           else dtype f = Plain Float64Type \<or> dtype f = Plain TimestampType)) (schema_fields s)"

definition is_division :: "binary_op_kind \<Rightarrow> bool" where
  "is_division k \<longleftrightarrow> k = ArithmeticKind DivOp"

definition is_arithmetic :: "binary_op_kind \<Rightarrow> bool" where
  "is_arithmetic k \<longleftrightarrow> (case k of ArithmeticKind _ \<Rightarrow> True | _ \<Rightarrow> False)"

definition validate_binary ::
  "operator_node \<Rightarrow> binary_operator \<Rightarrow> operator_node \<Rightarrow> operator_node \<Rightarrow> execution_timing \<Rightarrow>
     timing_failure + unit" where
  "validate_binary n b l r timing =
     bind_result
       (check (\<not> ((checked_relative_division b \<and> checked_finite_division b)
                  \<or> (checked_relative_division b \<or> checked_finite_division b)
                     \<and> (timing \<noteq> QueryTime \<or> \<not> is_division (binary_kind b))))
          InvalidCheckedDivision) (\<lambda>_.
     check (\<not> (timing = IngestionTime
               \<and> (vector_match_of b \<noteq> None
                  \<or> \<not> is_arithmetic (binary_kind b)
                  \<or> \<not> schema_eq (node_schema l) (node_schema r)
                  \<or> \<not> schema_eq (node_schema l) (node_schema n)
                  \<or> length (filter (\<lambda>f. name f = promql_series_identity) (schema_fields (node_schema n))) > 1
                  \<or> has_identity_column (node_schema n) \<and> \<not> aligned_rows l r
                  \<or> \<not> plain_float_or_ts (node_schema n)
                  \<or> length (filter (\<lambda>f. dtype f = Plain Float64Type) (schema_fields (node_schema n))) \<noteq> 1)))
       InvalidIngestionTimeBinary)"

definition validate_operands ::
  "operator_node \<Rightarrow> operator_node non_asap_op \<Rightarrow> execution_timing \<Rightarrow> timing_failure + unit" where
  "validate_operands n op timing =
     (case op of
        Filter _ c \<Rightarrow>
          if selects_states n then Ok () else check_plain_or_exact_values (node_schema c)
      | Project _ _ c \<Rightarrow> check_plain_or_exact_values (node_schema c)
      | Sort _ _ c \<Rightarrow> check_plain_or_exact_values (node_schema c)
      | Limit _ _ _ c \<Rightarrow> check_plain_or_exact_values (node_schema c)
      | Aggregate red ms _ _ _ c \<Rightarrow> validate_aggregate red ms c
      | BinaryOp b _ l r \<Rightarrow> validate_binary n b l r timing
      | _ \<Rightarrow> all_ok (\<lambda>c. check_all_plain (node_schema c)) (non_asap_children op))"

definition validate_non_asap ::
  "operator_node \<Rightarrow> operator_node non_asap_op \<Rightarrow> execution_timing \<Rightarrow> timing_failure + unit" where
  "validate_non_asap n op timing =
     bind_result (all_ok (validate_input n op timing) (non_asap_children op))
       (\<lambda>_. validate_operands n op timing)"

definition validate_node :: "operator_node \<Rightarrow> timing_failure + unit" where
  "validate_node n =
     bind_result (ok_or (Panicked ''timed node'') (node_timing n)) (\<lambda>timing.
     case operator_of n of
       ASAP op \<Rightarrow> validate_asap n op timing
     | NonASAP op \<Rightarrow> validate_non_asap n op timing)"

text \<open>\<^verbatim>\<open>for child in children { f(child, seen)? }\<close>.\<close>

fun each_result :: "('a \<Rightarrow> 's \<Rightarrow> 'e + 's) \<Rightarrow> 'a list \<Rightarrow> 's \<Rightarrow> 'e + 's" where
  "each_result f [] s = Ok s"
| "each_result f (x # xs) s = bind_result (f x s) (each_result f xs)"

lemma each_result_cong [fundef_cong]:
  "xs = ys \<Longrightarrow> s = t \<Longrightarrow> (\<And>x s. x \<in> set ys \<Longrightarrow> f x s = g x s) \<Longrightarrow> each_result f xs s = each_result g ys t"
proof (induction xs arbitrary: ys s t)
  case Nil
  then show ?case by simp
next
  case (Cons x xs)
  then have "each_result f xs = each_result g xs" by (auto simp: fun_eq_iff)
  with Cons.prems show ?case by auto
qed

function validate :: "operator_node \<Rightarrow> nat set \<Rightarrow> timing_failure + nat set" where
  "validate n seen =
     (if node_id n \<in> seen then Ok seen
      else bind_result (validate_node n) (\<lambda>_.
             each_result validate (node_children n) (insert (node_id n) seen)))"
  by pat_completeness auto
termination
  by (relation "measure (\<lambda>(n, _). node_height n)") (auto intro: children_height)

declare validate.simps [simp del]

section \<open>The pass\<close>

text \<open>\<^verbatim>\<open>apply_materialization_timings\<close>: \<open>forced\<close> starts empty, the cache is the caller's.\<close>

definition is_stored_at_ingestion :: "materialization \<Rightarrow> bool" where
  "is_stored_at_ingestion m \<longleftrightarrow> (case m of MatAtIngestion _ \<Rightarrow> True | _ \<Rightarrow> False)"

definition apply_timings ::
  "operator_node \<Rightarrow> assignment \<Rightarrow> write_state \<Rightarrow> (timing_failure + operator_node) \<times> write_state" where
  "apply_timings root a st =
     (case write_timings a root QueryTime (st\<lparr>forced_of := Map.empty\<rparr>) of
        (Inl e, st) \<Rightarrow> (Err e, st)
      | (Inr timed, st) \<Rightarrow>
          (if node_timing timed = Some IngestionTime
              \<and> \<not> is_stored_at_ingestion (node_materialization timed)
              \<and> map_option state_primitive (data_state timed) = Some Raw
           then Err (Reported (UnstoredIngestionRoot (kind_name (operator_of timed))))
           else bind_result (validate timed {}) (\<lambda>_. Ok timed),
           st))"

end
