(* ===== verification/Rebuild.thy ===== *)
theory Rebuild
  imports Node
begin

text \<open>
  Rebuilding an operator with a closure that mutates what it captures. The interface a pass offers
  is \<open>state_order\<close>: an invariant of the captured state, the order in which it may grow, and a
  relation between a reference and its replacement that survives growth. From a contract of the
  closure on each child it follows that the rebuilt operator is the old one with every child
  replaced by a related one.
\<close>

locale state_order =
  fixes inv :: "'s \<Rightarrow> bool" and le :: "'s \<Rightarrow> 's \<Rightarrow> bool" and R :: "'c \<Rightarrow> 'd \<Rightarrow> 's \<Rightarrow> bool"
  assumes le_refl: "le s s"
    and le_trans: "le s t \<Longrightarrow> le t u \<Longrightarrow> le s u"
    and R_stable: "le s t \<Longrightarrow> R c d s \<Longrightarrow> R c d t"
begin

definition stable :: "('s \<Rightarrow> bool) \<Rightarrow> bool" where
  "stable Q \<longleftrightarrow> (\<forall>s t. le s t \<longrightarrow> Q s \<longrightarrow> Q t)"

definition sat :: "('s \<Rightarrow> 'a \<times> 's) \<Rightarrow> ('a \<Rightarrow> 's \<Rightarrow> bool) \<Rightarrow> bool" where
  "sat m Q \<longleftrightarrow> (\<forall>s. inv s \<longrightarrow> (case m s of (a, t) \<Rightarrow> inv t \<and> le s t \<and> Q a t))"

lemma satD: "sat m Q \<Longrightarrow> inv s \<Longrightarrow> m s = (a, t) \<Longrightarrow> inv t \<and> le s t \<and> Q a t"
  by (auto simp: sat_def)

lemma sat_return: "(\<And>s. Q a s) \<Longrightarrow> sat (return_st a) Q"
  by (simp add: sat_def le_refl)

lemma sat_Pair: "(\<And>s. Q a s) \<Longrightarrow> sat (Pair a) Q"
  by (simp add: sat_def le_refl)

lemma sat_bind:
  assumes "sat m Q" "\<And>a. stable (Q a)" "\<And>a. sat (k a) (\<lambda>b s. Q a s \<longrightarrow> Q' b s)"
  shows "sat (bind_st m k) Q'"
  unfolding sat_def
proof (intro allI impI)
  fix s assume s: "inv s"
  obtain a t where m: "m s = (a, t)" by (cases "m s")
  obtain b u where k: "k a t = (b, u)" by (cases "k a t")
  from satD[OF assms(1) s m] have t: "inv t" "le s t" "Q a t" by auto
  from satD[OF assms(3) t(1) k] have "inv u" "le t u" "Q a u \<longrightarrow> Q' b u" by auto
  with t assms(2)[of a] have "inv u \<and> le s u \<and> Q' b u"
    unfolding stable_def using le_trans by blast
  with m k show "case bind_st m k s of (b, u) \<Rightarrow> inv u \<and> le s u \<and> Q' b u"
    by (simp add: bind_st_def)
qed

lemma sat_weaken: "sat m Q \<Longrightarrow> (\<And>a s. Q a s \<Longrightarrow> Q' a s) \<Longrightarrow> sat m Q'"
  by (fastforce simp: sat_def)

text \<open>A step whose result is only wrapped.\<close>

lemma sat_wrap:
  assumes "sat m Q" "\<And>a. stable (Q a)" "\<And>a s. Q a s \<Longrightarrow> Q' (g a) s"
  shows "sat (bind_st m (\<lambda>a. return_st (g a))) Q'"
  by (rule sat_bind[OF assms(1,2)]) (auto intro!: sat_return assms(3))

lemma sat_then:
  assumes "sat m Q" "\<And>a. stable (Q a)" "\<And>a. sat (k a) (Q'' a)"
    and "\<And>a b s. Q a s \<Longrightarrow> Q'' a b s \<Longrightarrow> Q' b s"
  shows "sat (bind_st m k) Q'"
  by (rule sat_bind[OF assms(1,2)]) (rule sat_weaken[OF assms(3)], blast intro: assms(4))

lemma stable_R: "stable (R c d)"
  by (auto simp: stable_def intro: R_stable)

lemma stable_rel_list: "(\<And>a b. stable (P a b)) \<Longrightarrow> stable (\<lambda>s. list_all2 (\<lambda>a b. P a b s) xs ys)"
  unfolding stable_def by (blast intro: list_all2_mono)

lemma stable_rel_option: "(\<And>a b. stable (P a b)) \<Longrightarrow> stable (\<lambda>s. rel_option (\<lambda>a b. P a b s) x y)"
  unfolding stable_def by (cases x; cases y) auto

lemma sat_seq:
  assumes "\<And>x. x \<in> set xs \<Longrightarrow> sat (m x) (P x)" "\<And>a b. stable (P a b)"
  shows "sat (seq_st (map m xs)) (\<lambda>ys s. list_all2 (\<lambda>a b. P a b s) xs ys)"
  using assms(1)
proof (induction xs)
  case Nil
  then show ?case by (simp add: sat_Pair)
next
  case (Cons x xs)
  have "sat (bind_st (m x) (\<lambda>y. bind_st (seq_st (map m xs)) (\<lambda>ys. return_st (y # ys))))
      (\<lambda>ys s. list_all2 (\<lambda>a b. P a b s) (x # xs) ys)"
    by (rule sat_then[OF Cons.prems[of x] assms(2) sat_wrap[OF Cons.IH[OF Cons.prems] stable_rel_list[OF assms(2)]],
          where Q'' = "\<lambda>y zs s. \<exists>ys. zs = y # ys \<and> list_all2 (\<lambda>a b. P a b s) xs ys"]) auto
  then show ?case by simp
qed

lemma sat_map_st:
  assumes "\<And>x. x \<in> set xs \<Longrightarrow> sat (m x) (P x)" "\<And>a b. stable (P a b)"
  shows "sat (map_st m xs) (\<lambda>ys s. list_all2 (\<lambda>a b. P a b s) xs ys)"
  using sat_seq[OF assms] by (simp add: sat_def seq_st_map)

lemma sat_opt:
  assumes "\<And>x. x \<in> set_option p \<Longrightarrow> sat (m x) (P x)" "\<And>a b. stable (P a b)"
  shows "sat (opt_st (map_option m p)) (\<lambda>q s. rel_option (\<lambda>a b. P a b s) p q)"
  by (cases p) (auto intro!: sat_return sat_wrap[OF assms(1) assms(2)])

lemma sat_map_option_st:
  assumes "\<And>x. x \<in> set_option p \<Longrightarrow> sat (m x) (P x)" "\<And>a b. stable (P a b)"
  shows "sat (map_option_st m p) (\<lambda>q s. rel_option (\<lambda>a b. P a b s) p q)"
  by (cases p) (auto simp: map_option_st_def intro!: sat_return sat_wrap[OF assms(1) assms(2)])

abbreviation expr_rel :: "'c scalar_expr \<Rightarrow> 'd scalar_expr \<Rightarrow> 's \<Rightarrow> bool" where
  "expr_rel e e' s \<equiv> rel_scalar_expr (\<lambda>c d. R c d s) e e'"

lemma stable_expr: "stable (expr_rel e e')"
  unfolding stable_def by (blast intro: scalar_expr.rel_mono_strong R_stable)

text \<open>Binding a reference, an expression, a list of them: the type of the step picks the rule.\<close>

lemma sat_bind_ref:
  "sat m (R c) \<Longrightarrow> (\<And>d. sat (k d) (\<lambda>b s. R c d s \<longrightarrow> Q b s)) \<Longrightarrow> sat (bind_st m k) Q"
  by (rule sat_bind[OF _ stable_R])

lemma sat_bind_expr:
  "sat m (expr_rel e) \<Longrightarrow> (\<And>d. sat (k d) (\<lambda>b s. expr_rel e d s \<longrightarrow> Q b s)) \<Longrightarrow> sat (bind_st m k) Q"
  by (rule sat_bind[OF _ stable_expr])

lemma sat_bind_exprs:
  "(\<And>e. e \<in> set es \<Longrightarrow> sat (g e) (expr_rel e)) \<Longrightarrow>
   (\<And>ds. sat (k ds) (\<lambda>b s. list_all2 (\<lambda>a b. expr_rel a b s) es ds \<longrightarrow> Q b s)) \<Longrightarrow>
   sat (bind_st (seq_st (map g es)) k) Q"
  by (rule sat_bind[OF sat_seq stable_rel_list]) (auto intro: stable_expr)

lemmas sat_binds = sat_bind_ref sat_bind_expr sat_bind_exprs

lemma sat_expr:
  assumes "\<And>c. c \<in> set_scalar_expr e \<Longrightarrow> sat (f c) (R c)"
  shows "sat (map_operator_refs_st f e) (expr_rel e)"
  unfolding map_operator_refs_st_def using assms
proof (induction e)
  case (Case operand branches else_expr)
  let ?m = "map_parts_st (\<lambda>c. c) f"
  let ?pair = "\<lambda>p q s. rel_prod (\<lambda>a b. expr_rel a b s) (\<lambda>a b. expr_rel a b s) p q"
  have P: "stable (?pair p q)" for p q
    using stable_expr unfolding stable_def by (cases p; cases q) auto
  have b: "sat (seq_st (map pair_st (map (map_prod ?m ?m) branches)))
      (\<lambda>bs s. list_all2 (\<lambda>p q. ?pair p q s) branches bs)"
    unfolding list.map_comp
  proof (rule sat_seq[OF _ P])
    fix p assume p: "p \<in> set branches"
    obtain w t where wt: "p = (w, t)" by (cases p)
    have "sat (?m w) (expr_rel w)"
      by (rule Case.IH(2)[OF p]) (auto simp: wt intro!: Case.prems bexI[OF _ p])
    moreover have "sat (?m t) (expr_rel t)"
      by (rule Case.IH(3)[OF p]) (auto simp: wt intro!: Case.prems bexI[OF _ p])
    ultimately have "sat (bind_st (?m w) (\<lambda>a. bind_st (?m t) (\<lambda>b. return_st (a, b)))) (?pair (w, t))"
      by (intro sat_then[OF _ stable_expr sat_wrap[OF _ stable_expr],
            where Q'' = "\<lambda>a q s. \<exists>b. q = (a, b) \<and> expr_rel t b s"]) auto
    then show "sat ((pair_st \<circ> map_prod ?m ?m) p) (?pair p)" by (simp add: wt)
  qed
  have o: "sat (opt_st (map_option ?m operand)) (\<lambda>q s. rel_option (\<lambda>a b. expr_rel a b s) operand q)"
    by (rule sat_opt[OF _ stable_expr]) (use Case.IH(1) Case.prems in auto)
  have e: "sat (opt_st (map_option ?m else_expr)) (\<lambda>q s. rel_option (\<lambda>a b. expr_rel a b s) else_expr q)"
    by (rule sat_opt[OF _ stable_expr]) (use Case.IH(4) Case.prems in auto)
  show ?case
    unfolding map_parts_st.simps
    by (rule sat_bind[OF o stable_rel_option[OF stable_expr]],
        rule sat_bind[OF b stable_rel_list[OF P]],
        rule sat_bind[OF e stable_rel_option[OF stable_expr]], rule sat_return) simp
qed (auto intro!: sat_return sat_Pair sat_binds)

text \<open>Operators.\<close>

lemma sat_pred:
  "(\<And>c. c \<in> set_predicate p \<Longrightarrow> sat (f c) (R c)) \<Longrightarrow>
   sat (map_pred_st f p) (\<lambda>q s. rel_predicate (\<lambda>c d. R c d s) p q)"
  by (cases p) (auto simp: map_pred_st_def intro!: sat_bind_expr sat_expr sat_return sat_Pair)

lemma stable_pred: "stable (\<lambda>s. rel_predicate (\<lambda>c d. R c d s) p q)"
  unfolding stable_def by (blast intro: predicate.rel_mono_strong R_stable)

lemma sat_key:
  "(\<And>c. c \<in> set_sort_key k \<Longrightarrow> sat (f c) (R c)) \<Longrightarrow>
   sat (bind_st (map_operator_refs_st f (key_expr k)) (\<lambda>e. return_st (SortKey e (ascending k) (nulls_first k))))
     (\<lambda>q s. rel_sort_key (\<lambda>c d. R c d s) k q)"
  by (cases k) (auto intro!: sat_bind_expr sat_expr sat_return sat_Pair)

lemma stable_key: "stable (\<lambda>s. rel_sort_key (\<lambda>c d. R c d s) p q)"
  unfolding stable_def by (blast intro: sort_key.rel_mono_strong R_stable)

lemma sat_item:
  "(\<And>c. c \<in> set_project_item i \<Longrightarrow> sat (f c) (R c)) \<Longrightarrow>
   sat (bind_st (map_operator_refs_st f (item_expr i)) (\<lambda>e. return_st (ProjectItem (alias_of i) e)))
     (\<lambda>q s. rel_project_item (\<lambda>c d. R c d s) i q)"
  by (cases i) (auto intro!: sat_bind_expr sat_expr sat_return sat_Pair)

lemma stable_item: "stable (\<lambda>s. rel_project_item (\<lambda>c d. R c d s) p q)"
  unfolding stable_def by (blast intro: project_item.rel_mono_strong R_stable)

lemma sat_bind_pred:
  "(\<And>c. c \<in> set_predicate p \<Longrightarrow> sat (f c) (R c)) \<Longrightarrow>
   (\<And>q. sat (k q) (\<lambda>b s. rel_predicate (\<lambda>c d. R c d s) p q \<longrightarrow> Q b s)) \<Longrightarrow>
   sat (bind_st (map_pred_st f p) k) Q"
  by (rule sat_bind[OF sat_pred stable_pred]) auto

lemma sat_bind_optional:
  "(\<And>c. c \<in> \<Union> (set_predicate ` set_option p) \<Longrightarrow> sat (f c) (R c)) \<Longrightarrow>
   (\<And>q. sat (k q) (\<lambda>b s. rel_option (rel_predicate (\<lambda>c d. R c d s)) p q \<longrightarrow> Q b s)) \<Longrightarrow>
   sat (bind_st (map_option_st (map_pred_st f) p) k) Q"
  by (rule sat_bind[OF sat_map_option_st[OF sat_pred stable_pred] stable_rel_option[OF stable_pred]]) auto

lemma sat_bind_preds:
  "(\<And>c. c \<in> \<Union> (set_predicate ` set ps) \<Longrightarrow> sat (f c) (R c)) \<Longrightarrow>
   (\<And>q. sat (k q) (\<lambda>b s. list_all2 (rel_predicate (\<lambda>c d. R c d s)) ps q \<longrightarrow> Q b s)) \<Longrightarrow>
   sat (bind_st (map_st (map_pred_st f) ps) k) Q"
  by (rule sat_bind[OF sat_map_st[OF sat_pred stable_pred] stable_rel_list[OF stable_pred]]) auto

lemma sat_bind_optionals:
  "(\<And>c. c \<in> (\<Union>p \<in> set ps. \<Union> (set_predicate ` set_option p)) \<Longrightarrow> sat (f c) (R c)) \<Longrightarrow>
   (\<And>q. sat (k q) (\<lambda>b s. list_all2 (rel_option (rel_predicate (\<lambda>c d. R c d s))) ps q \<longrightarrow> Q b s)) \<Longrightarrow>
   sat (bind_st (map_st (map_option_st (map_pred_st f)) ps) k) Q"
  by (rule sat_bind[OF sat_map_st[OF sat_map_option_st[OF sat_pred stable_pred] stable_rel_option[OF stable_pred]]
        stable_rel_list[OF stable_rel_option[OF stable_pred]]]) auto

lemma sat_bind_refs_exprs:
  "(\<And>c. c \<in> \<Union> (set_scalar_expr ` set es) \<Longrightarrow> sat (f c) (R c)) \<Longrightarrow>
   (\<And>q. sat (k q) (\<lambda>b s. list_all2 (rel_scalar_expr (\<lambda>c d. R c d s)) es q \<longrightarrow> Q b s)) \<Longrightarrow>
   sat (bind_st (map_st (map_operator_refs_st f) es) k) Q"
  by (rule sat_bind[OF sat_map_st[OF sat_expr stable_expr] stable_rel_list[OF stable_expr]]) auto

lemma sat_bind_rows:
  "(\<And>c. c \<in> (\<Union>row \<in> set rows. \<Union> (set_scalar_expr ` set row)) \<Longrightarrow> sat (f c) (R c)) \<Longrightarrow>
   (\<And>q. sat (k q) (\<lambda>b s. list_all2 (list_all2 (rel_scalar_expr (\<lambda>c d. R c d s))) rows q \<longrightarrow> Q b s)) \<Longrightarrow>
   sat (bind_st (map_st (map_st (map_operator_refs_st f)) rows) k) Q"
  by (rule sat_bind[OF sat_map_st[OF sat_map_st[OF sat_expr stable_expr] stable_rel_list[OF stable_expr]]
        stable_rel_list[OF stable_rel_list[OF stable_expr]]]) auto

lemma sat_bind_keys:
  "(\<And>c. c \<in> \<Union> (set_sort_key ` set ks) \<Longrightarrow> sat (f c) (R c)) \<Longrightarrow>
   (\<And>q. sat (k q) (\<lambda>b s. list_all2 (rel_sort_key (\<lambda>c d. R c d s)) ks q \<longrightarrow> Q b s)) \<Longrightarrow>
   sat (bind_st (map_keys_st f ks) k) Q"
  unfolding map_keys_st_def
  by (rule sat_bind[OF sat_map_st[OF sat_key stable_key] stable_rel_list[OF stable_key]]) auto

lemma sat_bind_items:
  "(\<And>c. c \<in> \<Union> (set_project_item ` set items) \<Longrightarrow> sat (f c) (R c)) \<Longrightarrow>
   (\<And>q. sat (k q) (\<lambda>b s. list_all2 (rel_project_item (\<lambda>c d. R c d s)) items q \<longrightarrow> Q b s)) \<Longrightarrow>
   sat (bind_st (map_st (\<lambda>i. bind_st (map_operator_refs_st f (item_expr i))
                              (\<lambda>e. return_st (ProjectItem (alias_of i) e))) items) k) Q"
  by (rule sat_bind[OF sat_map_st[OF sat_item stable_item] stable_rel_list[OF stable_item]]) auto

lemma sat_bind_inputs:
  "(\<And>c. c \<in> set cs \<Longrightarrow> sat (f c) (R c)) \<Longrightarrow>
   (\<And>q. sat (k q) (\<lambda>b s. list_all2 (\<lambda>c d. R c d s) cs q \<longrightarrow> Q b s)) \<Longrightarrow>
   sat (bind_st (map_st f cs) k) Q"
  by (rule sat_bind[OF sat_map_st[where P = R, OF _ stable_R] stable_rel_list[where P = R, OF stable_R]]) auto

lemmas sat_op_binds = sat_bind_ref sat_bind_pred sat_bind_optional sat_bind_preds sat_bind_optionals
  sat_bind_refs_exprs sat_bind_rows sat_bind_keys sat_bind_items sat_bind_inputs
  sat_bind_expr[OF sat_expr]

lemma sat_non_asap:
  "(\<And>c. c \<in> set_non_asap_op op \<Longrightarrow> sat (f c) (R c)) \<Longrightarrow>
   sat (map_non_asap_st f op) (\<lambda>op' s. rel_non_asap_op (\<lambda>c d. R c d s) op op')"
  by (cases op) (auto intro!: sat_op_binds sat_return sat_Pair)

lemma sat_asap:
  "(\<And>c. c \<in> set1_asap_op op \<Longrightarrow> sat (f c) (R c)) \<Longrightarrow>
   sat (map_asap_st f op) (\<lambda>op' s. rel_asap_op (\<lambda>c d. R c d s) (=) op op')"
  by (cases op) (auto intro!: sat_op_binds sat_return sat_Pair simp: maintained_population.rel_eq)

lemma sat_children:
  assumes "\<And>c. c \<in> set (children_of op) \<Longrightarrow> sat (f c) (R c)"
  shows "sat (map_children_st f op) (\<lambda>op' s. rel_operator (\<lambda>c d. R c d s) (=) op op')"
proof (cases op)
  case (NonASAP o')
  then have "sat (map_non_asap_st f o') (\<lambda>op' s. rel_non_asap_op (\<lambda>c d. R c d s) o' op')"
    using assms by (intro sat_non_asap) (auto simp: set_non_asap_children)
  moreover have "stable (\<lambda>s. rel_non_asap_op (\<lambda>c d. R c d s) o' p)" for p
    unfolding stable_def by (blast intro: non_asap_op.rel_mono_strong R_stable)
  ultimately show ?thesis by (auto simp: NonASAP intro!: sat_wrap)
next
  case (ASAP o')
  then have "sat (map_asap_st f o') (\<lambda>op' s. rel_asap_op (\<lambda>c d. R c d s) (=) o' op')"
    using assms by (intro sat_asap) (auto simp: set_asap_children)
  moreover have "stable (\<lambda>s. rel_asap_op (\<lambda>c d. R c d s) (=) o' p)" for p
    unfolding stable_def by (blast intro: asap_op.rel_mono_strong R_stable)
  ultimately show ?thesis by (auto simp: ASAP intro!: sat_wrap)
qed

end

text \<open>Replacing every child by the one a function names is the functorial map.\<close>

lemma rel_operator_map:
  "rel_operator (\<lambda>c d. d = h c) (=) op op' \<Longrightarrow> op' = map_operator h id op"
proof -
  assume "rel_operator (\<lambda>c d. d = h c) (=) op op'"
  then have "rel_operator (\<lambda>c d. h c = d) (\<lambda>a b. id a = b) op op'"
    by (rule operator.rel_mono_strong) auto
  then have "rel_operator (=) (=) (map_operator h id op) op'"
    by (simp add: operator.rel_map)
  then show ?thesis by (simp add: operator.rel_eq)
qed

text \<open>A closure without effects: the rebuild is the functorial map.\<close>

interpretation pure: state_order "\<lambda>s. True" "(=)" "\<lambda>c d s. d = h c" for h
  by unfold_locales auto

lemma rel_expr_map: "rel_scalar_expr (\<lambda>c d. d = h c) e e' \<Longrightarrow> e' = map_scalar_expr h e"
proof -
  assume "rel_scalar_expr (\<lambda>c d. d = h c) e e'"
  then have "rel_scalar_expr (\<lambda>c d. h c = d) e e'"
    by (rule scalar_expr.rel_mono_strong) auto
  then show ?thesis by (simp add: scalar_expr.rel_map(1)[symmetric] scalar_expr.rel_eq)
qed

lemma pure_sat: "pure.sat (\<lambda>s. (h c, s)) (\<lambda>d s. d = h c)"
  by (simp add: pure.sat_def)

lemma map_refs_pure: "map_operator_refs_st (\<lambda>c s. (h c, s)) e s = (map_scalar_expr h e, s)"
proof -
  obtain e' s' where run: "map_operator_refs_st (\<lambda>c s. (h c, s)) e s = (e', s')"
    by (cases "map_operator_refs_st (\<lambda>c s. (h c, s)) e s")
  have "pure.sat (map_operator_refs_st (\<lambda>c s. (h c, s)) e) (\<lambda>e' s. rel_scalar_expr (\<lambda>c d. d = h c) e e')"
    by (rule pure.sat_expr) (rule pure_sat)
  from pure.satD[OF this TrueI run] run show ?thesis by (auto dest: rel_expr_map)
qed

lemma map_children_pure: "map_children_st (\<lambda>c s. (h c, s)) op s = (map_operator h id op, s)"
proof -
  obtain o' s' where run: "map_children_st (\<lambda>c s. (h c, s)) op s = (o', s')"
    by (cases "map_children_st (\<lambda>c s. (h c, s)) op s")
  have "pure.sat (map_children_st (\<lambda>c s. (h c, s)) op) (\<lambda>o' s. rel_operator (\<lambda>c d. d = h c) (=) op o')"
    by (rule pure.sat_children) (rule pure_sat)
  from pure.satD[OF this TrueI run] run show ?thesis by (auto dest: rel_operator_map)
qed

end
