(* ===== verification/TimingLaws.thy ===== *)
theory TimingLaws
  imports Timing Rebuild
begin

text \<open>
  What the timing pass guarantees: its query-time cache computes the uncached definition, it never
  trips over one of its own \<^verbatim>\<open>expect\<close>s, every node of its result is timed, and no ingestion-time node
  of it reads a query-time value.
\<close>

section \<open>The cache of forced nodes\<close>

function must_query :: "assignment \<Rightarrow> operator_node \<Rightarrow> bool" where
  "must_query a n =
     (if node_timing n = Some QueryTime \<or> is_evaluation n then True
      else if decided_by_assignment a n
      then forced_by_assignment a n (list_ex (must_query a) (node_children n))
      else unaligned_binary n \<or> list_ex (must_query a) (node_children n))"
  by pat_completeness auto
termination
  by (relation "measure (\<lambda>(_, n). node_height n)") (auto intro: children_height)

declare must_query.simps [simp del]

definition cache_right :: "operator_node set \<Rightarrow> assignment \<Rightarrow> (nat \<rightharpoonup> bool) \<Rightarrow> bool" where
  "cache_right S a seen \<longleftrightarrow> (\<forall>n \<in> S. \<forall>b. seen (node_id n) = Some b \<longrightarrow> b = must_query a n)"

lemma cache_right_empty [simp]: "cache_right S a Map.empty"
  by (simp add: cache_right_def)

lemma cache_right_insert:
  "coherent S \<Longrightarrow> n \<in> S \<Longrightarrow> cache_right S a seen \<Longrightarrow> b = must_query a n \<Longrightarrow>
   cache_right S a (seen(node_id n \<mapsto> b))"
  by (auto simp: cache_right_def dest: coherent_eq)

lemma any_forced:
  assumes "\<And>c seen. c \<in> set cs \<Longrightarrow> cache_right S a seen \<Longrightarrow>
      (case f c seen of (b, seen') \<Rightarrow> b = must_query a c \<and> cache_right S a seen')"
    and "cache_right S a seen"
  shows "case any_st f cs seen of (b, seen') \<Rightarrow> b = list_ex (must_query a) cs \<and> cache_right S a seen'"
  using assms
proof (induction cs arbitrary: seen)
  case Nil
  then show ?case by simp
next
  case (Cons c cs)
  obtain b seen' where e: "f c seen = (b, seen')" by (cases "f c seen")
  with Cons.prems(1)[of c seen] Cons.prems(2) have "b = must_query a c" "cache_right S a seen'" by auto
  with e Cons.IH[of seen'] Cons.prems(1) show ?case by (auto split: prod.splits)
qed

lemma forces_query_time_right:
  "coherent S \<Longrightarrow> n \<in> S \<Longrightarrow> cache_right S a seen \<Longrightarrow>
   (case forces_query_time a n seen of (b, seen') \<Rightarrow> b = must_query a n \<and> cache_right S a seen')"
proof (induction a n seen rule: forces_query_time.induct)
  case (1 a n seen)
  show ?case
  proof (cases "seen (node_id n)")
    case (Some b)
    with 1(3-5) show ?thesis by (subst forces_query_time.simps) (auto simp: cache_right_def)
  next
    case None
    have kids: "c \<in> S" if "c \<in> set (node_children n)" for c using 1(3,4) that by (auto simp: coherent_def)
    have up: "case any_st (forces_query_time a) (node_children n) seen of (b, seen') \<Rightarrow>
        b = list_ex (must_query a) (node_children n) \<and> cache_right S a seen'"
      if "node_timing n \<noteq> Some QueryTime" "\<not> is_evaluation n" "decided_by_assignment a n \<or> \<not> unaligned_binary n"
    proof (rule any_forced[OF _ 1(5)])
      fix c seen assume c: "c \<in> set (node_children n)" "cache_right S a seen"
      show "case forces_query_time a c seen of (b, seen') \<Rightarrow> b = must_query a c \<and> cache_right S a seen'"
      proof (cases "decided_by_assignment a n")
        case True
        from 1(1)[OF None that(1,2) this c(1) 1(3) kids[OF c(1)] c(2)] show ?thesis .
      next
        case False
        with that have "\<not> unaligned_binary n" by blast
        from 1(2)[OF None that(1,2) False this c(1) 1(3) kids[OF c(1)] c(2)] show ?thesis .
      qed
    qed
    obtain b seen' where x: "(if node_timing n = Some QueryTime then (True, seen)
         else if is_evaluation n then (True, seen)
         else if decided_by_assignment a n then
           (case any_st (forces_query_time a) (node_children n) seen of
              (upstream, seen) \<Rightarrow> (forced_by_assignment a n upstream, seen))
         else if unaligned_binary n then (True, seen)
         else any_st (forces_query_time a) (node_children n) seen) = (b, seen')" (is "?x = _")
      by (cases ?x)
    have "case ?x of (b, seen') \<Rightarrow> b = must_query a n \<and> cache_right S a seen'"
      using up 1(5) by (subst must_query.simps) (auto split: prod.splits)
    then have "b = must_query a n" "cache_right S a seen'" by (simp_all only: x prod.case)
    moreover have "forces_query_time a n seen = (b, seen'(node_id n \<mapsto> b))"
      by (subst forces_query_time.simps) (simp only: None option.case x prod.case)
    ultimately show ?thesis using 1(3,4) by (simp add: cache_right_insert)
  qed
qed

lemma upstream_right:
  "coherent S \<Longrightarrow> n \<in> S \<Longrightarrow> cache_right S a seen \<Longrightarrow>
   (case upstream_at_query_time a n seen of (b, seen') \<Rightarrow>
      b = list_ex (must_query a) (node_children n) \<and> cache_right S a seen')"
  unfolding upstream_at_query_time_def
proof (rule any_forced)
  fix c seen assume "coherent S" "n \<in> S" "c \<in> set (node_children n)" "cache_right S a seen"
  then show "case forces_query_time a c seen of (b, seen') \<Rightarrow> b = must_query a c \<and> cache_right S a seen'"
    by (intro forces_query_time_right) (auto simp: coherent_def)
qed

section \<open>Placement without the cache\<close>

definition upstream_forced :: "assignment \<Rightarrow> operator_node \<Rightarrow> bool" where
  "upstream_forced a n = list_ex (must_query a) (node_children n)"

definition place ::
  "assignment \<Rightarrow> operator_node \<Rightarrow> execution_timing \<Rightarrow>
     data_state_error + execution_timing \<times> materialization" where
  "place a n consumer =
     (case node_timing n of
        Some placed \<Rightarrow>
          if placed = IngestionTime \<and> is_filtered_build n
          then Err (FilteredSummaryAtIngestion (kind_name (operator_of n)))
          else if placed = IngestionTime \<and> upstream_forced a n
          then Err (UpstreamNotAtIngestion (kind_name (operator_of n)))
          else
            (case get_assignment a n of
               Some m \<Rightarrow>
                 if m \<noteq> NotMaterialized \<and> materialization_timing m \<noteq> placed
                 then Err (MaterializationConflictsWithFixedTiming (kind_name (operator_of n)) placed m)
                 else Ok (placed, m)
             | None \<Rightarrow> Ok (placed, node_materialization n))
      | None \<Rightarrow>
          if is_evaluation n then
            (case get_assignment a n of
               Some m \<Rightarrow>
                 if materialization_timing m = IngestionTime
                 then Err (UpstreamNotAtIngestion (kind_name (operator_of n)))
                 else Ok (QueryTime, m)
             | None \<Rightarrow> Ok (QueryTime, NotMaterialized))
          else if is_materialization_point (operator_of n) \<or> get_assignment a n \<noteq> None then
            bind_result (resolve a n (upstream_forced a n))
              (\<lambda>m. if m = NotMaterialized \<and> \<not> is_materialization_point (operator_of n)
                   then Ok (consumer, NotMaterialized)
                   else Ok (materialization_timing m, m))
          else Ok (consumer, NotMaterialized))"

lemma placement_right:
  assumes "coherent S" "n \<in> S" "cache_right S a seen"
  shows "case placement n consumer a seen of (r, seen') \<Rightarrow> r = place a n consumer \<and> cache_right S a seen'"
  using upstream_right[OF assms] assms(3)
  by (auto simp: placement_def fixed_placement_def place_def upstream_forced_def
      split: option.splits prod.splits)

text \<open>A filtered build is never placed at ingestion time.\<close>

lemma filtered_build_is_point: "is_filtered_build n \<Longrightarrow> is_materialization_point (operator_of n)"
  by (auto simp: is_filtered_build_def asap_of_def split: operator.splits asap_op.splits option.splits)

lemma filtered_build_not_evaluation: "is_filtered_build n \<Longrightarrow> \<not> is_evaluation n"
  by (auto simp: is_filtered_build_def is_evaluation_def asap_of_def
      split: operator.splits asap_op.splits option.splits)

lemma place_filtered:
  "place a n consumer = Inr (t, m) \<Longrightarrow> is_filtered_build n \<Longrightarrow> t = QueryTime"
  using filtered_build_is_point[of n] filtered_build_not_evaluation[of n]
  by (cases t)
    (auto simp: place_def resolve_def at_ingestion_def split: option.splits if_splits)

text \<open>A node placed at ingestion time has nothing below it that is forced to query time, unless its consumer decided.\<close>

lemma place_decides:
  "place a n consumer = Inr (t, m) \<Longrightarrow> t = consumer
     \<or> (t = IngestionTime \<longrightarrow> \<not> upstream_forced a n \<and> \<not> is_filtered_build n)"
  by (auto simp: place_def resolve_def at_ingestion_def split: option.splits if_splits)

section \<open>Writing\<close>

text \<open>
  What holds of the cache of timed nodes at every moment: its nodes are timed, have distinct
  addresses below the next free one and read only each other, no filtered build among them runs at
  ingestion time, and the copy of a node is that node over the copies of its children.
\<close>

definition copies :: "operator_node set \<Rightarrow> (nat \<rightharpoonup> operator_node) \<Rightarrow> bool" where
  "copies S timed \<longleftrightarrow>
     (\<forall>n \<in> S. \<forall>t. timed (node_id n) = Some t \<longrightarrow>
        (\<forall>c \<in> set (node_children n). timed (node_id c) \<noteq> None)
        \<and> operator_of t = map_operator (\<lambda>c. the (timed (node_id c))) id (operator_of n)
        \<and> node_schema t = node_schema n \<and> node_guarantee t = node_guarantee n)"

definition good_timed :: "operator_node \<Rightarrow> bool" where
  "good_timed t \<longleftrightarrow>
     node_timing t \<noteq> None \<and> \<not> (is_filtered_build t \<and> node_timing t = Some IngestionTime)"

definition write_inv :: "operator_node set \<Rightarrow> assignment \<Rightarrow> write_state \<Rightarrow> bool" where
  "write_inv S a st \<longleftrightarrow>
     cache_right S a (forced_of st)
     \<and> coherent (ran (timed_node_of st))
     \<and> (\<forall>t \<in> ran (timed_node_of st). node_id t < next_address st \<and> good_timed t)
     \<and> copies S (timed_node_of st)"

definition write_le :: "write_state \<Rightarrow> write_state \<Rightarrow> bool" where
  "write_le st st' \<longleftrightarrow> timed_node_of st \<subseteq>\<^sub>m timed_node_of st'"

definition timed_as :: "operator_node \<Rightarrow> operator_node \<Rightarrow> write_state \<Rightarrow> bool" where
  "timed_as n t st \<longleftrightarrow> timed_node_of st (node_id n) = Some t"

text \<open>The state the closure inside a write captures: once an error is kept, nothing is promised.\<close>

definition child_le :: "write_state \<times> 'e option \<Rightarrow> write_state \<times> 'e option \<Rightarrow> bool" where
  "child_le x y \<longleftrightarrow> write_le (fst x) (fst y) \<and> (snd x \<noteq> None \<longrightarrow> snd y \<noteq> None)"

definition child_timed :: "operator_node \<Rightarrow> operator_node \<Rightarrow> write_state \<times> 'e option \<Rightarrow> bool" where
  "child_timed c t x \<longleftrightarrow> snd x \<noteq> None \<or> timed_as c t (fst x)"

definition not_panicked :: "timing_failure option \<Rightarrow> bool" where
  "not_panicked e \<longleftrightarrow> (\<forall>m. e \<noteq> Some (Panicked m))"

text \<open>Only nodes below some height are written.\<close>

definition wrote_below :: "operator_node set \<Rightarrow> nat set \<Rightarrow> nat \<Rightarrow> write_state \<Rightarrow> bool" where
  "wrote_below S D h st \<longleftrightarrow> dom (timed_node_of st) \<subseteq> D \<union> node_id ` {x \<in> S. node_height x < h}"

definition child_inv ::
  "operator_node set \<Rightarrow> assignment \<Rightarrow> nat set \<Rightarrow> nat \<Rightarrow> write_state \<times> timing_failure option \<Rightarrow> bool" where
  "child_inv S a D h x \<longleftrightarrow> write_inv S a (fst x) \<and> not_panicked (snd x) \<and> wrote_below S D h (fst x)"

lemma wrote_below_trans:
  "wrote_below S D h st \<Longrightarrow> wrote_below S (dom (timed_node_of st)) h' st' \<Longrightarrow> h' \<le> h \<Longrightarrow> wrote_below S D h st'"
  by (fastforce simp: wrote_below_def)

lemma write_le_refl: "write_le st st"
  by (simp add: write_le_def)

lemma write_le_trans: "write_le r s \<Longrightarrow> write_le s t \<Longrightarrow> write_le r t"
  unfolding write_le_def by (rule map_le_trans)

lemma timed_as_stable: "write_le s t \<Longrightarrow> timed_as n m s \<Longrightarrow> timed_as n m t"
  by (force simp: write_le_def timed_as_def map_le_def)

interpretation writing: state_order "child_inv S a D h" child_le child_timed for S a D h
proof
  fix s t u :: "write_state \<times> timing_failure option" and c d
  show "child_le s s" by (simp add: child_le_def write_le_refl)
  show "child_le s t \<Longrightarrow> child_le t u \<Longrightarrow> child_le s u"
    by (auto simp: child_le_def intro: write_le_trans)
  show "child_le s t \<Longrightarrow> child_timed c d s \<Longrightarrow> child_timed c d t"
    by (auto simp: child_le_def child_timed_def intro: timed_as_stable)
qed

definition write_child ::
  "assignment \<Rightarrow> execution_timing \<Rightarrow> operator_node \<Rightarrow> write_state \<times> timing_failure option \<Rightarrow>
     operator_node \<times> write_state \<times> timing_failure option" where
  "write_child a timing c =
     (\<lambda>(st, error).
        case write_timings a c timing st of
          (Inr timed, st) \<Rightarrow> (timed, (st, error))
        | (Inl e, st) \<Rightarrow> (c, (st, get_or_insert error e)))"

lemma write_unfold:
  "write_timings a n consumer st =
     (case placement n consumer a (forced_of st) of
        (Inl e, forced) \<Rightarrow> (Err (Reported e), st\<lparr>forced_of := forced\<rparr>)
      | (Inr (timing, m), forced) \<Rightarrow>
          (let st = st\<lparr>forced_of := forced\<rparr> in
           case timed_node_of st (node_id n) of
             Some earlier \<Rightarrow> (reuse_timed earlier timing, st)
           | None \<Rightarrow>
               (case map_children_st (write_child a timing) (operator_of n) (st, None) of
                  (op, (st, Some e)) \<Rightarrow> (Err e, st)
                | (op, (st, None)) \<Rightarrow>
                    (let timed = timed_copy (next_address st) n op timing m in
                     (Ok timed,
                      st\<lparr>timed_node_of := (timed_node_of st)(node_id n \<mapsto> timed),
                         next_address := Suc (next_address st)\<rparr>)))))"
  unfolding write_child_def[abs_def] by (subst write_timings.simps) (rule refl)

text \<open>The contract of one write.\<close>

definition write_ok ::
  "operator_node set \<Rightarrow> assignment \<Rightarrow> operator_node \<Rightarrow> execution_timing \<Rightarrow> write_state \<Rightarrow>
     (timing_failure + operator_node) \<times> write_state \<Rightarrow> bool" where
  "write_ok S a n consumer st out \<longleftrightarrow>
     write_inv S a (snd out) \<and> write_le st (snd out)
     \<and> wrote_below S (dom (timed_node_of st)) (Suc (node_height n)) (snd out)
     \<and> (case fst out of
          Inr t \<Rightarrow> timed_as n t (snd out) \<and> (\<exists>m. place a n consumer = Inr (the (node_timing t), m))
        | Inl e \<Rightarrow> not_panicked (Some e))"

lemma write_child_sat:
  assumes "\<And>st. write_inv S a st \<Longrightarrow> write_ok S a c timing st (write_timings a c timing st)"
    and "node_height c < h"
  shows "writing.sat S a D h (write_child a timing c) (child_timed c)"
  unfolding writing.sat_def
proof (intro allI impI)
  fix s assume s: "child_inv S a D h s"
  obtain st e where se: "s = (st, e)" by (cases s)
  obtain r st' where w: "write_timings a c timing st = (r, st')" by (cases "write_timings a c timing st")
  from assms(1)[of st] s se w have ok: "write_ok S a c timing st (r, st')" by (simp add: child_inv_def)
  then have "wrote_below S D h st'"
    using s se assms(2) by (auto simp: write_ok_def child_inv_def intro: wrote_below_trans)
  with ok s se w show "case write_child a timing c s of (d, t) \<Rightarrow> child_inv S a D h t \<and> child_le s t \<and> child_timed c d t"
    by (cases r; cases e)
      (auto simp: write_child_def write_ok_def child_inv_def child_le_def child_timed_def
        get_or_insert_def not_panicked_def)
qed

lemma timed_copy_simps [simp]:
  "node_id (timed_copy i n op t m) = i" "operator_of (timed_copy i n op t m) = op"
  "node_timing (timed_copy i n op t m) = Some t" "node_schema (timed_copy i n op t m) = node_schema n"
  "node_guarantee (timed_copy i n op t m) = node_guarantee n"
  "node_materialization (timed_copy i n op t m) = m"
  by (simp_all add: timed_copy_def with_schema_def)

lemma is_filtered_build_map:
  "operator_of t = map_operator h id (operator_of n) \<Longrightarrow> is_filtered_build t = is_filtered_build n"
  by (cases "operator_of n")
    (auto simp: is_filtered_build_def asap_of_def split: asap_op.splits option.splits)

text \<open>Storing the copy of a node keeps the invariant.\<close>

lemma copies_insert:
  assumes "coherent S" "n \<in> S" "copies S timed" "timed (node_id n) = None"
    and "\<forall>c \<in> set (node_children n). timed (node_id c) \<noteq> None"
    and "operator_of t = map_operator (\<lambda>c. the (timed (node_id c))) id (operator_of n)"
    and "node_schema t = node_schema n" "node_guarantee t = node_guarantee n"
  shows "copies S (timed(node_id n \<mapsto> t))"
  unfolding copies_def
proof (intro ballI allI impI)
  fix m u assume m: "m \<in> S" and u: "(timed(node_id n \<mapsto> t)) (node_id m) = Some u"
  let ?timed' = "timed(node_id n \<mapsto> t)"
  have same: "map_operator (\<lambda>c. the (?timed' (node_id c))) id (operator_of k) =
      map_operator (\<lambda>c. the (timed (node_id c))) id (operator_of k)"
    if "\<forall>c \<in> set (node_children k). timed (node_id c) \<noteq> None" for k
  proof (rule operator.map_cong0)
    fix c assume "c \<in> set1_operator (operator_of k)"
    then have "c \<in> set (node_children k)" by (simp add: node_children_def set_children_of)
    with that assms(4) have "node_id c \<noteq> node_id n" by auto
    then show "the (?timed' (node_id c)) = the (timed (node_id c))" by simp
  qed simp
  show "(\<forall>c \<in> set (node_children m). ?timed' (node_id c) \<noteq> None)
      \<and> operator_of u = map_operator (\<lambda>c. the (?timed' (node_id c))) id (operator_of m)
      \<and> node_schema u = node_schema m \<and> node_guarantee u = node_guarantee m"
  proof (cases "node_id m = node_id n")
    case True
    then have "m = n" using coherent_eq[OF assms(1) m assms(2)] by blast
    with u assms same[of n] show ?thesis by auto
  next
    case False
    with u assms(3) m have "(\<forall>c \<in> set (node_children m). timed (node_id c) \<noteq> None)
      \<and> operator_of u = map_operator (\<lambda>c. the (timed (node_id c))) id (operator_of m)
      \<and> node_schema u = node_schema m \<and> node_guarantee u = node_guarantee m"
      by (auto simp: copies_def)
    with same[of m] show ?thesis by auto
  qed
qed

lemma store_inv:
  fixes m :: materialization
  assumes S: "coherent S" "n \<in> S" and inv: "write_inv S a st"
    and new: "timed_node_of st (node_id n) = None"
    and kids: "\<forall>c \<in> set (node_children n). timed_node_of st (node_id c) \<noteq> None"
    and op: "op = map_operator (\<lambda>c. the (timed_node_of st (node_id c))) id (operator_of n)"
    and good: "is_filtered_build n \<Longrightarrow> timing = QueryTime"
  defines "t \<equiv> timed_copy (next_address st) n op timing m"
  defines "st' \<equiv> st\<lparr>timed_node_of := (timed_node_of st)(node_id n \<mapsto> t),
      next_address := Suc (next_address st)\<rparr>"
  shows "write_inv S a st' \<and> write_le st st' \<and> timed_as n t st'
    \<and> wrote_below S (dom (timed_node_of st)) (Suc (node_height n)) st'"
proof -
  let ?T = "ran (timed_node_of st)"
  have ch: "set (node_children t) \<subseteq> ?T"
  proof
    fix d assume "d \<in> set (node_children t)"
    then obtain c where "c \<in> set (node_children n)" "d = the (timed_node_of st (node_id c))"
      by (auto simp: t_def op node_children_def children_of_map)
    with kids show "d \<in> ?T" by (auto intro: ranI)
  qed
  have "is_filtered_build t = is_filtered_build n"
    by (rule is_filtered_build_map) (simp add: t_def op)
  with good have "good_timed t" by (auto simp: good_timed_def t_def)
  moreover have "coherent (insert t ?T)"
    using inv ch by (intro coherent_insert) (auto simp: write_inv_def t_def)
  moreover have "copies S ((timed_node_of st)(node_id n \<mapsto> t))"
    using inv by (intro copies_insert[OF S _ new kids]) (auto simp: write_inv_def t_def op)
  ultimately have "write_inv S a st'"
    using inv by (auto simp: write_inv_def st'_def ran_map_upd[of "timed_node_of st", OF new] t_def less_Suc_eq)
  moreover have "write_le st st'" using new by (auto simp: write_le_def st'_def map_le_def)
  moreover have "timed_as n t st'" by (simp add: timed_as_def st'_def)
  moreover have "wrote_below S (dom (timed_node_of st)) (Suc (node_height n)) st'"
    using S(2) by (auto simp: wrote_below_def st'_def)
  ultimately show ?thesis by blast
qed

lemma rel_children_timed:
  assumes "rel_operator (\<lambda>c d. child_timed c d (st, None)) (=) op op'"
  shows "(\<forall>c \<in> set (children_of op). timed_node_of st (node_id c) \<noteq> None)
    \<and> op' = map_operator (\<lambda>c. the (timed_node_of st (node_id c))) id op"
proof
  have "rel_operator (\<lambda>c d. timed_node_of st (node_id c) = Some d) (=) op op'"
    by (rule operator.rel_mono_strong[OF assms]) (auto simp: child_timed_def timed_as_def)
  then have r: "rel_operator (\<lambda>c d. timed_node_of st (node_id c) = Some d) (=) op op'" .
  then show "\<forall>c \<in> set (children_of op). timed_node_of st (node_id c) \<noteq> None"
    by (fastforce simp: operator.in_rel set_children_of operator.set_map)
  show "op' = map_operator (\<lambda>c. the (timed_node_of st (node_id c))) id op"
    by (rule rel_operator_map, rule operator.rel_mono_strong[OF r]) auto
qed

lemma write_timings_ok:
  assumes S: "coherent S"
  shows "n \<in> S \<Longrightarrow> write_inv S a st \<Longrightarrow> write_ok S a n consumer st (write_timings a n consumer st)"
proof (induction n arbitrary: consumer st rule: measure_induct_rule[of node_height])
  case (less n)
  obtain r f where pl: "placement n consumer a (forced_of st) = (r, f)"
    by (cases "placement n consumer a (forced_of st)")
  have "cache_right S a (forced_of st)" using less.prems by (simp add: write_inv_def)
  from placement_right[OF S less.prems(1) this, of consumer] pl
  have r: "r = place a n consumer" and f: "cache_right S a f" by auto
  let ?st = "st\<lparr>forced_of := f\<rparr>"
  let ?D = "dom (timed_node_of st)" and ?h = "node_height n"
  have wb: "wrote_below S ?D h ?st" for h by (auto simp: wrote_below_def)
  have inv: "write_inv S a ?st" and le: "write_le st ?st"
    using less.prems f by (auto simp: write_inv_def write_le_def)
  show ?case
  proof (cases r)
    case (Inl e)
    with pl inv le show ?thesis by (subst write_unfold) (simp add: write_ok_def not_panicked_def wb)
  next
    case (Inr p)
    obtain timing m where p: "p = (timing, m)" by (cases p)
    show ?thesis
    proof (cases "timed_node_of ?st (node_id n)")
      case (Some u)
      have "node_timing u \<noteq> None"
        using inv ranI[of "timed_node_of st" "node_id n" u] Some by (auto simp: write_inv_def good_timed_def)
      with Some pl Inr p inv le r show ?thesis
        by (subst write_unfold)
          (auto simp: write_ok_def reuse_timed_def not_panicked_def timed_as_def wb split: option.splits)
    next
      case None
      have "writing.sat S a ?D ?h (write_child a timing c) (child_timed c)"
        if "c \<in> set (children_of (operator_of n))" for c
      proof (rule write_child_sat)
        have c: "c \<in> set (node_children n)" using that by (simp add: node_children_def)
        then show "node_height c < node_height n" by (rule children_height)
        fix st' assume "write_inv S a st'"
        with c show "write_ok S a c timing st' (write_timings a c timing st')"
          using less.prems(1) S by (intro less.IH) (auto simp: coherent_def intro: children_height)
      qed
      then have sat: "writing.sat S a ?D ?h (map_children_st (write_child a timing) (operator_of n))
          (\<lambda>op' s. rel_operator (\<lambda>c d. child_timed c d s) (=) (operator_of n) op')"
        by (rule writing.sat_children)
      obtain op st1 e where run:
        "map_children_st (write_child a timing) (operator_of n) (?st, None) = (op, (st1, e))"
        by (cases "map_children_st (write_child a timing) (operator_of n) (?st, None)") auto
      have "child_inv S a ?D ?h (?st, None)" using inv wb by (simp add: child_inv_def not_panicked_def)
      from writing.satD[OF sat this run]
      have inv1: "write_inv S a st1" and ne: "not_panicked e" and le1: "write_le ?st st1"
        and wb1: "wrote_below S ?D ?h st1"
        and rel: "rel_operator (\<lambda>c d. child_timed c d (st1, e)) (=) (operator_of n) op"
        by (auto simp: child_inv_def child_le_def)
      show ?thesis
      proof (cases e)
        case (Some x)
        with None pl Inr p run inv1 ne le le1 show ?thesis
          by (subst write_unfold)
            (use wb1 in \<open>auto simp: write_ok_def write_le_trans[OF le le1] wrote_below_def\<close>)
      next
        case e: None
        from rel_children_timed[OF rel[unfolded e]]
        have kids: "\<forall>c \<in> set (node_children n). timed_node_of st1 (node_id c) \<noteq> None"
          and op: "op = map_operator (\<lambda>c. the (timed_node_of st1 (node_id c))) id (operator_of n)"
          by (auto simp: node_children_def)
        have filtered: "is_filtered_build n \<Longrightarrow> timing = QueryTime"
          using place_filtered r Inr p by metis
        have new: "timed_node_of st1 (node_id n) = None"
        proof (rule ccontr)
          assume "timed_node_of st1 (node_id n) \<noteq> None"
          with wb1 None obtain x where "x \<in> S" "node_height x < node_height n" "node_id x = node_id n"
            by (auto simp: wrote_below_def)
          with coherent_eq[OF S _ less.prems(1)] show False by auto
        qed
        from store_inv[OF S less.prems(1) inv1 new kids op filtered, of m] wb1
        have "wrote_below S ?D (Suc ?h) (st1\<lparr>timed_node_of := (timed_node_of st1)(node_id n \<mapsto>
            timed_copy (next_address st1) n op timing m), next_address := Suc (next_address st1)\<rparr>)"
          by (fastforce simp: wrote_below_def)
        with store_inv[OF S less.prems(1) inv1 new kids op filtered, of m]
        show ?thesis using None pl Inr p run e r write_le_trans[OF le le1]
          by (subst write_unfold) (auto simp: write_ok_def Let_def intro: write_le_trans)
      qed
    qed
  qed
qed

section \<open>Validating\<close>

definition valid_node :: "operator_node \<Rightarrow> bool" where
  "valid_node n \<longleftrightarrow> validate_node n = Inr ()"

lemma each_validated:
  assumes "\<And>c seen seen'. c \<in> set cs \<Longrightarrow> searched valid_node S seen (Suc (node_height c)) \<Longrightarrow>
      f c seen = Inr seen' \<Longrightarrow> clean valid_node c \<and> seen' \<subseteq> seen \<union> node_id ` below c"
    and "coherent S" "set cs \<subseteq> S" "\<And>c. c \<in> set cs \<Longrightarrow> node_height c < h"
    and "searched valid_node S seen h" "each_result f cs seen = Inr seen'"
  shows "(\<forall>c \<in> set cs. clean valid_node c) \<and> seen' \<subseteq> seen \<union> (\<Union>c \<in> set cs. node_id ` below c)"
  using assms
proof (induction cs arbitrary: seen)
  case Nil
  then show ?case by simp
next
  case (Cons c cs)
  from Cons.prems(6) obtain s1 where s1: "f c seen = Inr s1" "each_result f cs s1 = Inr seen'" by auto
  have c: "c \<in> S" "node_height c < h" using Cons.prems(3,4) by auto
  have "searched valid_node S seen (Suc (node_height c))"
    using Cons.prems(5) c(2) by (auto simp: searched_def)
  from Cons.prems(1)[OF _ this s1(1)] have v: "clean valid_node c" "s1 \<subseteq> seen \<union> node_id ` below c" by auto
  have "searched valid_node S s1 h" by (rule searched_grow[OF Cons.prems(2) c(1) Cons.prems(5) v])
  with Cons.prems(1,2,3,4) s1(2)
  have "(\<forall>c \<in> set cs. clean valid_node c) \<and> seen' \<subseteq> s1 \<union> (\<Union>c \<in> set cs. node_id ` below c)"
    by (intro Cons.IH) auto
  with v show ?case by auto
qed

lemma validate_sound:
  "coherent S \<Longrightarrow> n \<in> S \<Longrightarrow> searched valid_node S seen (Suc (node_height n)) \<Longrightarrow>
   validate n seen = Inr seen' \<Longrightarrow> clean valid_node n \<and> seen' \<subseteq> seen \<union> node_id ` below n"
proof (induction n seen arbitrary: seen' rule: validate.induct)
  case (1 n seen)
  show ?case
  proof (cases "node_id n \<in> seen")
    case True
    with 1(3-5) show ?thesis by (subst (asm) validate.simps) (auto simp: searched_def)
  next
    case False
    with 1(5) have v: "valid_node n"
      and each: "each_result validate (node_children n) (insert (node_id n) seen) = Inr seen'"
      by (subst (asm) validate.simps; auto simp: valid_node_def)+
    have kids: "set (node_children n) \<subseteq> S" using 1(2,3) by (auto simp: coherent_def)
    have "searched valid_node S (insert (node_id n) seen) (node_height n)"
      by (rule searched_insert[OF 1(2,3,4)]) simp
    moreover have "clean valid_node c \<and> s' \<subseteq> s \<union> node_id ` below c"
      if "c \<in> set (node_children n)" "searched valid_node S s (Suc (node_height c))" "validate c s = Inr s'" for c s s'
      by (rule 1(1)[OF False v[unfolded valid_node_def] that(1) 1(2) _ that(2,3)]) (use that(1) kids in blast)
    ultimately have "(\<forall>c \<in> set (node_children n). clean valid_node c)
        \<and> seen' \<subseteq> insert (node_id n) seen \<union> (\<Union>c \<in> set (node_children n). node_id ` below c)"
      using kids each 1(2)
      by (intro each_validated[where S = S and h = "node_height n"]) (auto intro: children_height)
    then show ?thesis using v by (auto simp: clean_unfold[of _ n] below_unfold[of n] image_UN)
  qed
qed

lemma validate_all:
  "coherent S \<Longrightarrow> n \<in> S \<Longrightarrow> validate n {} = Inr seen' \<Longrightarrow> m \<in> below n \<Longrightarrow> validate_node m = Inr ()"
  using validate_sound[of S n "{}"] by (auto simp: clean_def valid_node_def)

section \<open>The edges of a valid node\<close>

lemma check_Inr [simp]: "check ok e = Inr u \<longleftrightarrow> ok"
  by (simp add: check_def)

lemma state_of_Inr [simp]:
  "state_of n = Inr s \<longleftrightarrow> (\<exists>t. node_timing n = Some t \<and> s = \<lparr>state_timing = t, state_primitive = primitive n\<rparr>)"
  by (auto simp: state_of_def data_state_def)

lemma bind_unit_Inr [simp]: "bind_result r f = Inr () \<longleftrightarrow> (\<exists>a. r = Inr a \<and> f a = Inr ())"
  by simp

text \<open>An ingestion-time node reads ingestion-time inputs only; a filter's references count as inputs.\<close>

lemma validate_build_input_ingestion:
  "validate_build_input edge c IngestionTime = Inr () \<Longrightarrow> node_timing c = Some IngestionTime"
  by (auto simp: validate_build_input_def) (metis execution_timing.exhaust)

lemma valid_ingestion_children:
  assumes v: "validate_node n = Inr ()" and t: "node_timing n = Some IngestionTime"
    and nf: "\<not> is_filtered_build n" and c: "c \<in> set (node_children n)"
  shows "node_timing c = Some IngestionTime"
proof (cases "operator_of n")
  case (NonASAP op)
  with v t have "all_ok (validate_input n op IngestionTime) (non_asap_children op) = Inr ()"
    by (auto simp: validate_node_def validate_non_asap_def)
  with c NonASAP show ?thesis
    by (auto simp: all_ok_iff node_children_def validate_input_def Let_def)
next
  case (ASAP op)
  with v t have va: "validate_asap n op IngestionTime = Inr ()" by (simp add: validate_node_def)
  have cc: "c \<in> set (asap_children op)" using c ASAP by (simp add: node_children_def)
  show ?thesis
  proof (cases op)
    case (SummaryAgg d fam inp red grp flt)
    with nf ASAP have "flt = None" by (cases flt) (auto simp: is_filtered_build_def asap_of_def)
    with va cc SummaryAgg show ?thesis by (auto dest: validate_build_input_ingestion)
  next
    case (SummaryTumblingWindowChain d fam inp red grp flt w k)
    with nf ASAP have "flt = None" by (cases flt) (auto simp: is_filtered_build_def asap_of_def)
    with va cc SummaryTumblingWindowChain show ?thesis by (auto dest: validate_build_input_ingestion)
  qed (use va cc in \<open>auto simp: all_ok_iff split: if_splits\<close>)
qed

text \<open>Evaluations run at query time, over states; reserved operators never validate.\<close>

lemma valid_evaluation:
  "validate_node n = Inr () \<Longrightarrow> is_evaluation n \<Longrightarrow> node_timing n = Some QueryTime"
  by (auto simp: validate_node_def is_evaluation_def split: operator.splits asap_op.splits if_splits)

section \<open>The pass\<close>

text \<open>What a caller's cache holds before a call: the result of earlier calls on the same DAG.\<close>

definition pass_inv :: "operator_node set \<Rightarrow> assignment \<Rightarrow> write_state \<Rightarrow> bool" where
  "pass_inv S a st \<longleftrightarrow> write_inv S a (st\<lparr>forced_of := Map.empty\<rparr>)"

definition empty_write_state :: "nat \<Rightarrow> write_state" where
  "empty_write_state i = \<lparr>timed_node_of = Map.empty, next_address = i, forced_of = Map.empty\<rparr>"

lemma pass_inv_empty: "pass_inv S a (empty_write_state i)"
  by (simp add: pass_inv_def write_inv_def empty_write_state_def coherent_def copies_def)

lemma apply_write:
  assumes "coherent S" "root \<in> S" "pass_inv S a st"
  shows "write_ok S a root QueryTime (st\<lparr>forced_of := Map.empty\<rparr>)
           (write_timings a root QueryTime (st\<lparr>forced_of := Map.empty\<rparr>))"
  by (rule write_timings_ok) (use assms in \<open>simp_all add: pass_inv_def\<close>)

lemma pass_inv_write: "write_inv S a st \<Longrightarrow> pass_inv S a st"
  by (simp add: pass_inv_def write_inv_def)

lemma apply_timings_inv:
  assumes "coherent S" "root \<in> S" "pass_inv S a st" "apply_timings root a st = (r, st')"
  shows "pass_inv S a st'"
  using apply_write[OF assms(1-3)] assms(4)
  by (auto simp: apply_timings_def write_ok_def intro: pass_inv_write split: prod.splits sum.splits if_splits)

lemma apply_timings_Ok:
  assumes "coherent S" "root \<in> S" "pass_inv S a st" "apply_timings root a st = (Inr timed, st')"
  shows "write_inv S a st' \<and> timed_as root timed st' \<and> (\<exists>seen. validate timed {} = Inr seen)
    \<and> (\<exists>m. place a root QueryTime = Inr (the (node_timing timed), m))
    \<and> (node_timing timed = Some IngestionTime \<longrightarrow>
         is_stored_at_ingestion (node_materialization timed) \<or> primitive timed = SummaryState)"
  using apply_write[OF assms(1-3)] assms(4)
  by (auto simp: apply_timings_def write_ok_def data_state_def split: prod.splits sum.splits if_splits)
    (metis data_primitive.exhaust)+

lemma below_timed:
  assumes "write_inv S a st" "timed_as root timed st"
  shows "coherent (ran (timed_node_of st))" "timed \<in> ran (timed_node_of st)"
    "below timed \<subseteq> ran (timed_node_of st)" "\<forall>t \<in> below timed. good_timed t"
proof -
  show c: "coherent (ran (timed_node_of st))" using assms(1) by (simp add: write_inv_def)
  show m: "timed \<in> ran (timed_node_of st)" using assms(2) by (auto simp: timed_as_def intro: ranI)
  show b: "below timed \<subseteq> ran (timed_node_of st)" by (rule coherent_below[OF c m])
  show "\<forall>t \<in> below timed. good_timed t" using assms(1) b by (auto simp: write_inv_def)
qed

section \<open>No violated \<^verbatim>\<open>expect\<close>\<close>

definition no_panic :: "timing_failure + 'a \<Rightarrow> bool" where
  "no_panic r \<longleftrightarrow> (\<forall>m. r \<noteq> Inl (Panicked m))"

named_theorems no_panics \<open>checks that report and do not panic\<close>

lemma no_panic_check [no_panics]: "no_panic (check ok e)"
  by (simp add: no_panic_def check_def)

lemma no_panic_reported [no_panics]: "no_panic (Inr x)" "no_panic (Inl (Reported e))"
  by (simp_all add: no_panic_def)

lemma no_panic_fields [no_panics]: "no_panic (check_fields ok e s)"
  by (simp add: no_panic_def check_fields_def split: option.split)

lemma no_panic_bind [no_panics]:
  "no_panic r \<Longrightarrow> (\<And>a. r = Inr a \<Longrightarrow> no_panic (f a)) \<Longrightarrow> no_panic (bind_result r f)"
  by (cases r) (auto simp: no_panic_def)

lemma no_panic_all [no_panics]: "(\<And>x. x \<in> set xs \<Longrightarrow> no_panic (f x)) \<Longrightarrow> no_panic (all_ok f xs)"
  by (induction xs) (auto intro!: no_panics)

lemma no_panic_state [no_panics]: "node_timing n \<noteq> None \<Longrightarrow> no_panic (state_of n)"
  by (auto simp: no_panic_def state_of_def data_state_def)

lemma no_panic_if [no_panics]: "(b \<Longrightarrow> no_panic r) \<Longrightarrow> (\<not> b \<Longrightarrow> no_panic s) \<Longrightarrow> no_panic (if b then r else s)"
  by simp

lemma no_panic_build [no_panics]:
  "node_timing c \<noteq> None \<Longrightarrow> no_panic (validate_build_input edge c t)"
  unfolding validate_build_input_def is_exact_accumulator_state_def by (intro no_panics)

lemma no_panic_asap:
  assumes "node_timing n \<noteq> None" "\<And>c. c \<in> set (asap_children op) \<Longrightarrow> node_timing c \<noteq> None"
  shows "no_panic (validate_asap n op t)"
proof (cases op)
  case (SummaryEstimate c q)
  with assms show ?thesis by (cases "t = QueryTime") (auto intro!: no_panics)
qed (use assms in \<open>auto intro!: no_panics\<close>)

lemma no_panic_operands: "no_panic (validate_operands n op t)"
  unfolding validate_operands_def validate_aggregate_def validate_binary_def
    check_plain_or_exact_values_def check_all_plain_def Let_def
  by (auto split: non_asap_op.split intro!: no_panics)

lemma no_panic_non_asap:
  assumes "\<And>c. c \<in> set (non_asap_children op) \<Longrightarrow> node_timing c \<noteq> None"
  shows "no_panic (validate_non_asap n op t)"
  unfolding validate_non_asap_def validate_input_def Let_def
  by (intro no_panics no_panic_operands) (use assms in auto)

lemma no_panic_node:
  assumes "node_timing n \<noteq> None" "\<And>c. c \<in> set (node_children n) \<Longrightarrow> node_timing c \<noteq> None"
  shows "no_panic (validate_node n)"
  using assms no_panic_asap[of n] no_panic_non_asap[of _ n]
  by (auto simp: validate_node_def node_children_def split: operator.splits)

lemma no_panic_each:
  "(\<And>c s. c \<in> set cs \<Longrightarrow> no_panic (f c s)) \<Longrightarrow> no_panic (each_result f cs s)"
  by (induction cs arbitrary: s) (auto intro!: no_panics)

lemma no_panic_validate: "\<forall>m \<in> below n. node_timing m \<noteq> None \<Longrightarrow> no_panic (validate n seen)"
proof (induction n seen rule: validate.induct)
  case (1 n seen)
  have kids: "\<forall>m \<in> below c. node_timing m \<noteq> None" if "c \<in> set (node_children n)" for c
    using 1(2) below_child[OF that] by blast
  have "no_panic (validate_node n)"
    using 1(2) by (intro no_panic_node) (blast intro: below_refl below_step)+
  moreover have "no_panic (each_result validate (node_children n) (insert (node_id n) seen))"
    if "node_id n \<notin> seen" "validate_node n = Inr u" for u
    by (rule no_panic_each) (use 1(1)[OF that] kids in blast)
  ultimately show ?case
    by (subst validate.simps) (auto intro!: no_panics)
qed

lemma apply_timings_no_panic:
  assumes "coherent S" "root \<in> S" "pass_inv S a st"
  shows "no_panic (fst (apply_timings root a st))"
proof -
  show ?thesis
  proof (cases "write_timings a root QueryTime (st\<lparr>forced_of := Map.empty\<rparr>)")
    case (Pair r st')
    from apply_write[OF assms] Pair have ok: "write_ok S a root QueryTime (st\<lparr>forced_of := Map.empty\<rparr>) (r, st')" by simp
    show ?thesis
    proof (cases r)
      case (Inl e)
      with ok Pair show ?thesis
        by (auto simp: apply_timings_def write_ok_def not_panicked_def no_panic_def)
    next
      case (Inr t)
      with ok have "write_inv S a st'" "timed_as root t st'" by (auto simp: write_ok_def)
      from below_timed(4)[OF this] have "no_panic (validate t {})"
        by (intro no_panic_validate) (auto simp: good_timed_def)
      with Inr Pair show ?thesis by (auto simp: apply_timings_def intro!: no_panics)
    qed
  qed
qed

end
