(* ===== verification/TimingPass.thy ===== *)
theory TimingPass
  imports TimingLaws
begin

text \<open>
  The timing pass over a workload (\<^verbatim>\<open>apply_materialization_timings_to_roots\<close> of \<^verbatim>\<open>timing.rs\<close>, with the
  query roots of \<^verbatim>\<open>crates/types/src/ir/operator/query.rs\<close>), and the properties of its result.
\<close>

section \<open>Query roots\<close>

datatype 'c query_root = OperatorRoot 'c | ScalarRoot "'c scalar_expr"

fun as_operator :: "'c query_root \<Rightarrow> 'c option" where
  "as_operator (OperatorRoot n) = Some n"
| "as_operator (ScalarRoot _) = None"

fun root_refs :: "'c query_root \<Rightarrow> 'c list" where
  "root_refs (OperatorRoot n) = [n]"
| "root_refs (ScalarRoot e) = operator_refs e"

section \<open>The pass over the roots\<close>

text \<open>The references of a scalar root, each timed; the first error stops.\<close>

fun apply_each ::
  "operator_node list \<Rightarrow> assignment \<Rightarrow> write_state \<Rightarrow> (timing_failure + unit) \<times> write_state" where
  "apply_each [] a st = (Ok (), st)"
| "apply_each (n # ns) a st =
     (case apply_timings n a st of
        (Inl e, st) \<Rightarrow> (Err e, st)
      | (Inr _, st) \<Rightarrow> apply_each ns a st)"

definition timed_expr ::
  "operator_node scalar_expr \<Rightarrow> write_state \<Rightarrow> timing_failure + operator_node scalar_expr" where
  "timed_expr e st =
     (if list_all (\<lambda>n. timed_node_of st (node_id n) \<noteq> None) (operator_refs e)
      then Ok (fst (map_operator_refs_st (\<lambda>n u. (the (timed_node_of st (node_id n)), u)) e ()))
      else Err (Panicked ''scalar reference was timed''))"

fun apply_root ::
  "operator_node query_root \<Rightarrow> assignment \<Rightarrow> write_state \<Rightarrow>
     (timing_failure + operator_node query_root) \<times> write_state" where
  "apply_root (OperatorRoot n) a st =
     (case apply_timings n a st of
        (Inl e, st) \<Rightarrow> (Err e, st)
      | (Inr t, st) \<Rightarrow> (Ok (OperatorRoot t), st))"
| "apply_root (ScalarRoot e) a st =
     (case apply_each (operator_refs e) a st of
        (Inl f, st) \<Rightarrow> (Err f, st)
      | (Inr _, st) \<Rightarrow> (bind_result (timed_expr e st) (\<lambda>e. Ok (ScalarRoot e)), st))"

fun apply_roots ::
  "operator_node query_root list \<Rightarrow> assignment \<Rightarrow> write_state \<Rightarrow>
     (timing_failure + operator_node query_root list) \<times> write_state" where
  "apply_roots [] a st = (Ok [], st)"
| "apply_roots (r # rs) a st =
     (case apply_root r a st of
        (Inl e, st) \<Rightarrow> (Err e, st)
      | (Inr t, st) \<Rightarrow>
          (case apply_roots rs a st of
             (Inl e, st) \<Rightarrow> (Err e, st)
           | (Inr ts, st) \<Rightarrow> (Ok (t # ts), st)))"

text \<open>The cache starts empty; \<open>i\<close> is the first free address.\<close>

definition apply_timings_to_roots ::
  "operator_node query_root list \<Rightarrow> assignment \<Rightarrow> nat \<Rightarrow>
     timing_failure + operator_node query_root list" where
  "apply_timings_to_roots roots a i = fst (apply_roots roots a (empty_write_state i))"

section \<open>One root after another\<close>

text \<open>The nodes a workload reads, and the well-formedness \<^verbatim>\<open>Rc\<close> gives it: one address, one node.\<close>

definition workload_nodes :: "operator_node query_root list \<Rightarrow> operator_node set" where
  "workload_nodes roots = (\<Union>r \<in> set roots. \<Union>n \<in> set (root_refs r). below n)"

definition well_addressed :: "operator_node query_root list \<Rightarrow> bool" where
  "well_addressed roots \<longleftrightarrow> inj_on node_id (workload_nodes roots)"

lemma workload_coherent: "well_addressed roots \<Longrightarrow> coherent (workload_nodes roots)"
  by (auto simp: well_addressed_def coherent_def workload_nodes_def intro: below_step)

lemma workload_refs: "r \<in> set roots \<Longrightarrow> set (root_refs r) \<subseteq> workload_nodes roots"
  by (auto simp: workload_nodes_def intro: below_refl)

text \<open>A timed root is valid below, and stays what the cache holds.\<close>

definition root_timed :: "operator_node \<Rightarrow> operator_node \<Rightarrow> write_state \<Rightarrow> bool" where
  "root_timed n t st \<longleftrightarrow>
     timed_as n t st \<and> (\<forall>m \<in> below t. validate_node m = Inr () \<and> good_timed m)
     \<and> (node_timing t = Some IngestionTime \<longrightarrow>
          is_stored_at_ingestion (node_materialization t) \<or> primitive t = SummaryState)"

lemma root_timed_stable: "write_le s u \<Longrightarrow> root_timed n t s \<Longrightarrow> root_timed n t u"
  by (auto simp: root_timed_def intro: timed_as_stable)

lemma apply_timings_le:
  assumes "coherent S" "root \<in> S" "pass_inv S a st" "apply_timings root a st = (r, st')"
  shows "write_le st st'"
  using apply_write[OF assms(1-3)] assms(4)
  by (auto simp: apply_timings_def write_ok_def write_le_def split: prod.splits sum.splits if_splits)

lemma apply_timings_root:
  assumes "coherent S" "root \<in> S" "pass_inv S a st" "apply_timings root a st = (Inr t, st')"
  shows "root_timed root t st'"
proof -
  note A = apply_timings_Ok[OF assms]
  then have w: "write_inv S a st'" and t: "timed_as root t st'" by auto
  from A obtain seen where "validate t {} = Inr seen" by auto
  from validate_all[OF below_timed(1,2)[OF w t] this] below_timed(4)[OF w t] A t
  show ?thesis by (auto simp: root_timed_def)
qed

text \<open>What the passes over the roots keep.\<close>

lemma apply_each_ok:
  assumes "coherent S" "set ns \<subseteq> S" "pass_inv S a st" "apply_each ns a st = (r, st')"
  shows "pass_inv S a st' \<and> write_le st st' \<and> no_panic r
    \<and> (r = Inr () \<longrightarrow> (\<forall>n \<in> set ns. \<exists>t. root_timed n t st'))"
  using assms(2-4)
proof (induction ns arbitrary: st)
  case Nil
  then show ?case by (auto simp: write_le_refl intro: no_panics)
next
  case (Cons n ns)
  obtain r1 st1 where e: "apply_timings n a st = (r1, st1)" by (cases "apply_timings n a st")
  have n: "n \<in> S" using Cons.prems(1) by simp
  note inv1 = apply_timings_inv[OF assms(1) n Cons.prems(2) e]
  note le1 = apply_timings_le[OF assms(1) n Cons.prems(2) e]
  show ?case
  proof (cases r1)
    case (Inl x)
    with e Cons.prems(3) inv1 le1 apply_timings_no_panic[OF assms(1) n Cons.prems(2)]
    show ?thesis by (auto simp: no_panic_def)
  next
    case (Inr t)
    with e Cons.prems(3) have "apply_each ns a st1 = (r, st')" by simp
    from Cons.IH[OF _ inv1 this] Cons.prems(1)
    have rest: "pass_inv S a st' \<and> write_le st1 st' \<and> no_panic r
        \<and> (r = Inr () \<longrightarrow> (\<forall>n \<in> set ns. \<exists>t. root_timed n t st'))" by auto
    have "root_timed n t st1"
      by (rule apply_timings_root[OF assms(1) n Cons.prems(2)]) (use e Inr in simp)
    with rest le1 show ?thesis by (auto intro: write_le_trans root_timed_stable)
  qed
qed

definition root_ok :: "operator_node query_root \<Rightarrow> operator_node query_root \<Rightarrow> write_state \<Rightarrow> bool" where
  "root_ok r t st \<longleftrightarrow>
     rel_query_root (\<lambda>n m. root_timed n m st) r t"

lemma rel_query_root_stable:
  "write_le s u \<Longrightarrow> root_ok r t s \<Longrightarrow> root_ok r t u"
  unfolding root_ok_def by (erule query_root.rel_mono_strong) (auto intro: root_timed_stable)

lemma timed_expr_rel:
  assumes "\<forall>n \<in> set (operator_refs e). \<exists>t. root_timed n t st"
  shows "\<exists>e'. timed_expr e st = Inr e' \<and> rel_scalar_expr (\<lambda>n t. root_timed n t st) e e'"
proof -
  let ?h = "\<lambda>n. the (timed_node_of st (node_id n))"
  have h: "root_timed n (?h n) st \<and> timed_node_of st (node_id n) \<noteq> None" if "n \<in> set (operator_refs e)" for n
    using assms that by (force simp: root_timed_def timed_as_def)
  have "fst (map_operator_refs_st (\<lambda>n u. (?h n, u)) e ()) = map_scalar_expr ?h e"
    by (simp add: map_refs_pure)
  moreover have "rel_scalar_expr (\<lambda>n t. root_timed n t st) e (map_scalar_expr ?h e)"
    using h by (auto simp: scalar_expr.rel_map set_operator_refs intro!: scalar_expr.rel_refl_strong)
  ultimately show ?thesis using h by (auto simp: timed_expr_def list_all_iff)
qed

lemma apply_root_ok:
  assumes "coherent S" "set (root_refs r) \<subseteq> S" "pass_inv S a st" "apply_root r a st = (out, st')"
  shows "pass_inv S a st' \<and> write_le st st' \<and> no_panic out
    \<and> (\<forall>t. out = Inr t \<longrightarrow> root_ok r t st')"
proof (cases r)
  case (OperatorRoot n)
  then have n: "n \<in> S" using assms(2) by simp
  obtain x st1 where e: "apply_timings n a st = (x, st1)" by (cases "apply_timings n a st")
  note facts = apply_timings_inv[OF assms(1) n assms(3) e] apply_timings_le[OF assms(1) n assms(3) e]
    apply_timings_no_panic[OF assms(1) n assms(3)]
  have "root_timed n t st1" if "x = Inr t" for t
    by (rule apply_timings_root[OF assms(1) n assms(3)]) (use e that in simp)
  with facts e assms(4) OperatorRoot show ?thesis
    by (cases x) (auto simp: root_ok_def no_panic_def)
next
  case (ScalarRoot expr)
  obtain x st1 where e: "apply_each (operator_refs expr) a st = (x, st1)"
    by (cases "apply_each (operator_refs expr) a st")
  from assms(2) ScalarRoot have "set (operator_refs expr) \<subseteq> S" by simp
  note ok = apply_each_ok[OF assms(1) this assms(3) e]
  show ?thesis
  proof (cases x)
    case (Inl f)
    with e assms(4) ScalarRoot ok show ?thesis by (auto simp: no_panic_def)
  next
    case (Inr u)
    with ok have "\<forall>n \<in> set (operator_refs expr). \<exists>t. root_timed n t st1" by simp
    from timed_expr_rel[OF this]
    obtain e' where "timed_expr expr st1 = Inr e'" "rel_scalar_expr (\<lambda>n t. root_timed n t st1) expr e'"
      by blast
    with e assms(4) ScalarRoot ok Inr show ?thesis by (auto simp: root_ok_def intro: no_panics)
  qed
qed

lemma apply_roots_ok:
  assumes "coherent S" "\<forall>r \<in> set roots. set (root_refs r) \<subseteq> S" "pass_inv S a st"
    and "apply_roots roots a st = (out, st')"
  shows "pass_inv S a st' \<and> write_le st st' \<and> no_panic out
    \<and> (\<forall>ts. out = Inr ts \<longrightarrow> list_all2 (\<lambda>r t. root_ok r t st') roots ts)"
  using assms(2-4)
proof (induction roots arbitrary: st out st')
  case Nil
  then show ?case by (auto simp: write_le_refl intro: no_panics)
next
  case (Cons r rs)
  obtain x st1 where e: "apply_root r a st = (x, st1)" by (cases "apply_root r a st")
  from Cons.prems(1) have r: "set (root_refs r) \<subseteq> S" by simp
  note ok = apply_root_ok[OF assms(1) r Cons.prems(2) e]
  show ?case
  proof (cases x)
    case (Inl f)
    with e Cons.prems(3) ok show ?thesis by (auto simp: no_panic_def)
  next
    case (Inr t)
    obtain y st2 where e2: "apply_roots rs a st1 = (y, st2)" by (cases "apply_roots rs a st1")
    from Cons.IH[OF _ _ e2] Cons.prems(1) ok
    have rest: "pass_inv S a st2 \<and> write_le st1 st2 \<and> no_panic y
        \<and> (\<forall>ts. y = Inr ts \<longrightarrow> list_all2 (\<lambda>r t. root_ok r t st2) rs ts)" by auto
    from Inr e e2 Cons.prems(3) have out: "st' = st2"
      "out = (case y of Inl f \<Rightarrow> Inl f | Inr ts \<Rightarrow> Inr (t # ts))" by (auto split: sum.splits)
    from rest ok Inr have "root_ok r t st2" by (auto intro: rel_query_root_stable)
    with rest ok out show ?thesis
      by (cases y) (auto simp: no_panic_def intro: write_le_trans)
  qed
qed

lemma to_roots_ok:
  assumes "well_addressed roots"
  obtains st where "write_inv (workload_nodes roots) a st"
    and "no_panic (apply_timings_to_roots roots a i)"
    and "\<And>ts. apply_timings_to_roots roots a i = Inr ts \<Longrightarrow> list_all2 (\<lambda>r t. root_ok r t st) roots ts"
proof -
  obtain out st' where e: "apply_roots roots a (empty_write_state i) = (out, st')"
    by (cases "apply_roots roots a (empty_write_state i)")
  from apply_roots_ok[OF workload_coherent[OF assms] _ pass_inv_empty e] workload_refs
  have "pass_inv (workload_nodes roots) a st' \<and> no_panic out
    \<and> (\<forall>ts. out = Inr ts \<longrightarrow> list_all2 (\<lambda>r t. root_ok r t st') roots ts)" by blast
  with that[of "st'\<lparr>forced_of := Map.empty\<rparr>"] e show thesis
    by (auto simp: pass_inv_def apply_timings_to_roots_def root_ok_def root_timed_def timed_as_def)
qed

section \<open>The result of the pass\<close>

lemma set_root_refs: "set (root_refs r) = set_query_root r"
  by (cases r) (simp_all add: set_operator_refs)

lemma root_ok_refs:
  assumes "root_ok r t st" "m \<in> set (root_refs t)"
  shows "\<exists>n \<in> set (root_refs r). root_timed n m st"
proof -
  from assms(1) obtain z where z: "set_query_root z \<subseteq> {(x, y). root_timed x y st}"
    "r = map_query_root fst z" "t = map_query_root snd z"
    by (auto simp: root_ok_def query_root.in_rel)
  from assms(2) z(3) obtain n where "(n, m) \<in> set_query_root z"
    by (auto simp: set_root_refs query_root.set_map)
  with z show ?thesis
    by (intro bexI[of _ n]) (force simp: set_root_refs query_root.set_map)+
qed

lemma root_ok_refs':
  assumes "root_ok r t st" "n \<in> set (root_refs r)"
  shows "\<exists>m. root_timed n m st"
  using assms unfolding root_ok_def set_root_refs
  by (fastforce simp: query_root.in_rel query_root.set_map)

lemma list_all2_right: "list_all2 P xs ys \<Longrightarrow> y \<in> set ys \<Longrightarrow> \<exists>x \<in> set xs. P x y"
  by (induction rule: list_all2_induct) auto

lemma list_all2_left: "list_all2 P xs ys \<Longrightarrow> x \<in> set xs \<Longrightarrow> \<exists>y \<in> set ys. P x y"
  by (induction rule: list_all2_induct) auto

lemma timed_workload_node:
  assumes "list_all2 (\<lambda>r t. root_ok r t st) roots ts" "n \<in> workload_nodes ts"
  shows "\<exists>r \<in> set roots. \<exists>m \<in> set (root_refs r). \<exists>t. root_timed m t st \<and> n \<in> below t"
proof -
  from assms(2) obtain t u where t: "t \<in> set ts" "u \<in> set (root_refs t)" "n \<in> below u"
    by (auto simp: workload_nodes_def)
  from list_all2_right[OF assms(1) t(1)] obtain r where r: "r \<in> set roots" "root_ok r t st" by blast
  from root_ok_refs[OF r(2) t(2)] r(1) t(3) show ?thesis by blast
qed

lemma timed_node_facts:
  assumes "well_addressed roots" "apply_timings_to_roots roots a i = Inr ts" "n \<in> workload_nodes ts"
  shows "validate_node n = Inr () \<and> good_timed n"
proof -
  obtain st where "list_all2 (\<lambda>r t. root_ok r t st) roots ts"
    using to_roots_ok[OF assms(1), of a i] assms(2) by metis
  from timed_workload_node[OF this assms(3)] show ?thesis by (auto simp: root_timed_def)
qed

text \<open>
  C1: In every plan the timing pass returns, each node has a timing, and an ingestion-time node reads
  only ingestion-time inputs - its operands and the nodes its filter or scalar expressions reference:
  no value that exists only at query time feeds work done at ingestion.
\<close>

theorem ingestion_reads_ingestion:
  assumes "well_addressed roots" "apply_timings_to_roots roots a i = Inr ts" "n \<in> workload_nodes ts"
  shows "node_timing n \<noteq> None
    \<and> (node_timing n = Some IngestionTime \<longrightarrow>
         (\<forall>c \<in> set (node_children n). node_timing c = Some IngestionTime))"
  using timed_node_facts[OF assms] valid_ingestion_children[of n]
  by (auto simp: good_timed_def)

text \<open>
  C2: In every plan the pass returns, an evaluation (a sketch estimate or a population read) and a
  summary build with a filter run at query time.
\<close>

theorem evaluations_run_at_query_time:
  assumes "well_addressed roots" "apply_timings_to_roots roots a i = Inr ts" "n \<in> workload_nodes ts"
    and "is_evaluation n \<or> is_filtered_build n"
  shows "node_timing n = Some QueryTime"
proof (cases "is_evaluation n")
  case True
  with timed_node_facts[OF assms(1-3)] show ?thesis by (auto dest: valid_evaluation)
next
  case False
  with timed_node_facts[OF assms(1-3)] assms(4) show ?thesis
    by (auto simp: good_timed_def) (metis execution_timing.exhaust)
qed

text \<open>The stored inputs of query-time work.\<close>

lemma ingestion_materialization:
  "materialization_timing m = IngestionTime \<longleftrightarrow> is_stored_at_ingestion m"
  by (cases m) (auto simp: is_stored_at_ingestion_def)

lemma valid_reads_stored:
  assumes "validate_node n = Inr ()" "node_timing n = Some QueryTime" "operator_of n = NonASAP op"
    and "c \<in> set (node_children n)" "node_timing c = Some IngestionTime"
  shows "is_stored_at_ingestion (node_materialization c)"
proof -
  have "c \<in> set (non_asap_children op)" using assms(3,4) by (simp add: node_children_def)
  with assms(1-3,5) show ?thesis
    by (auto simp: validate_node_def validate_non_asap_def all_ok_iff validate_input_def Let_def
        ingestion_materialization)
qed

lemma valid_build_reads_stored:
  "validate_build_input edge c QueryTime = Inr () \<Longrightarrow> node_timing c = Some IngestionTime \<Longrightarrow>
   is_stored_at_ingestion (node_materialization c)"
  by (auto simp: validate_build_input_def ingestion_materialization)

text \<open>
  C3: In every plan the pass returns, a query-time relational operator, and a query-time summary
  build, read an input produced at ingestion time only where that input is stored
  (\<^verbatim>\<open>MatAtIngestion\<close>).
\<close>

theorem query_time_reads_what_is_stored:
  assumes "well_addressed roots" "apply_timings_to_roots roots a i = Inr ts" "n \<in> workload_nodes ts"
    and "node_timing n = Some QueryTime" "node_timing c = Some IngestionTime"
    and "(\<exists>op. operator_of n = NonASAP op) \<and> c \<in> set (node_children n)
      \<or> (\<exists>fam inp red grp flt. operator_of n = ASAP (SummaryAgg c fam inp red grp flt))
      \<or> (\<exists>fam inp red grp flt w k. operator_of n = ASAP (SummaryTumblingWindowChain c fam inp red grp flt w k))"
  shows "is_stored_at_ingestion (node_materialization c)"
proof -
  have v: "validate_node n = Inr ()" using timed_node_facts[OF assms(1-3)] by blast
  from assms(6) show ?thesis
  proof (elim disjE conjE exE)
    fix op assume "operator_of n = NonASAP op" "c \<in> set (node_children n)"
    with v assms(4,5) show ?thesis by (auto intro: valid_reads_stored)
  qed (use v assms(4,5) in \<open>auto simp: validate_node_def intro: valid_build_reads_stored\<close>)
qed

text \<open>
  C4: The pass never trips over an assertion of its own: every timed node it looks up or validates
  has a timing, and every reference of a scalar root was timed.
\<close>

theorem timing_pass_does_not_panic:
  assumes "well_addressed roots"
  shows "apply_timings_to_roots roots a i \<noteq> Inl (Panicked m)"
proof -
  obtain st where "no_panic (apply_timings_to_roots roots a i)"
    using to_roots_ok[OF assms, of a i] by metis
  then show ?thesis by (auto simp: no_panic_def)
qed

text \<open>Every node of the workload has its one timed copy.\<close>

lemma copies_below:
  assumes "copies S timed" "coherent S" "m \<in> below n" "n \<in> S" "timed (node_id n) \<noteq> None"
  shows "m \<in> S \<and> timed (node_id m) \<noteq> None"
  using assms(3)
proof induction
  case below_refl
  with assms show ?case by simp
next
  case (below_step m c)
  then obtain t where "timed (node_id m) = Some t" by auto
  with below_step assms(1,2) show ?case by (auto simp: copies_def coherent_def)
qed

lemma root_timed_the: "root_timed n t st \<Longrightarrow> the (timed_node_of st (node_id n)) = t"
  by (simp add: root_timed_def timed_as_def)

lemma rel_scalar_timed:
  "rel_scalar_expr (\<lambda>n t. root_timed n t st) e e' \<Longrightarrow>
   e' = map_scalar_expr (\<lambda>n. the (timed_node_of st (node_id n))) e"
  by (rule rel_expr_map, erule scalar_expr.rel_mono_strong) (auto simp: root_timed_def timed_as_def)

lemma root_ok_copy:
  "root_ok r t st \<Longrightarrow> t = map_query_root (\<lambda>n. the (timed_node_of st (node_id n))) r"
  by (cases r; cases t) (auto simp: root_ok_def dest: rel_scalar_timed root_timed_the)

text \<open>
  C5: The pass keeps the plan and its sharing: there is one function \<open>h\<close> from nodes to timed nodes such
  that the roots are the old roots under \<open>h\<close>, the copy of a node is its operator over the copies of its
  inputs with the same schema and guarantee, and in the result, too, one address names one node. A
  node several queries share is timed once and stays one node.
\<close>

theorem timing_pass_preserves_plan:
  assumes "well_addressed roots" "apply_timings_to_roots roots a i = Inr ts"
  shows "well_addressed ts
    \<and> (\<exists>h. ts = map (map_query_root h) roots
         \<and> (\<forall>n \<in> workload_nodes roots.
              operator_of (h n) = map_operator h id (operator_of n)
              \<and> node_schema (h n) = node_schema n \<and> node_guarantee (h n) = node_guarantee n))"
proof -
  obtain st where inv: "write_inv (workload_nodes roots) a st"
    and ok: "list_all2 (\<lambda>r t. root_ok r t st) roots ts"
    using to_roots_ok[OF assms(1), of a i] assms(2) by metis
  let ?S = "workload_nodes roots" and ?timed = "timed_node_of st"
  let ?h = "\<lambda>n. the (?timed (node_id n))"
  have c: "copies ?S ?timed" and coh: "coherent (ran ?timed)" using inv by (simp_all add: write_inv_def)
  have "workload_nodes ts \<subseteq> ran ?timed"
  proof
    fix n assume "n \<in> workload_nodes ts"
    from timed_workload_node[OF ok this] obtain m t where "root_timed m t st" "n \<in> below t" by blast
    then show "n \<in> ran ?timed" using below_timed(3)[OF inv] by (auto simp: root_timed_def)
  qed
  then have "well_addressed ts"
    using coh by (auto simp: well_addressed_def coherent_def intro: inj_on_subset)
  moreover have "ts = map (map_query_root ?h) roots"
    using ok by (auto simp: list_all2_conv_all_nth intro!: nth_equalityI root_ok_copy)
  moreover have "operator_of (?h n) = map_operator ?h id (operator_of n)
      \<and> node_schema (?h n) = node_schema n \<and> node_guarantee (?h n) = node_guarantee n"
    if n: "n \<in> ?S" for n
  proof -
    from n obtain r m where r: "r \<in> set roots" "m \<in> set (root_refs r)" "n \<in> below m"
      by (auto simp: workload_nodes_def)
    from list_all2_left[OF ok r(1)] obtain t where "root_ok r t st" by blast
    from root_ok_refs'[OF this r(2)] have "?timed (node_id m) \<noteq> None"
      by (auto simp: root_timed_def timed_as_def)
    with copies_below[OF c workload_coherent[OF assms(1)] r(3)] workload_refs[OF r(1)] r(2)
    have "?timed (node_id n) \<noteq> None" by blast
    with c n show ?thesis by (auto simp: copies_def)
  qed
  ultimately show ?thesis by blast
qed

text \<open>
  C6: Caching what is forced to query time changes nothing: with any cache built by earlier calls on
  the same DAG, \<^verbatim>\<open>forces_query_time\<close> answers what its uncached definition says.
\<close>

theorem forces_query_time_cache_correct:
  assumes "well_addressed roots" "cache_right (workload_nodes roots) a seen" "n \<in> workload_nodes roots"
  shows "fst (forces_query_time a n seen) = must_query a n
    \<and> cache_right (workload_nodes roots) a (snd (forces_query_time a n seen))"
  using forces_query_time_right[OF workload_coherent[OF assms(1)] assms(3,2)]
  by (auto split: prod.splits)

section \<open>The properties at work\<close>

text \<open>
  A quantile over a sketch of a metric, and a filter over the same scan. With every state
  materialized at ingestion the sketch is built there and read at query time; with the scan itself
  stored, the filter reads what is stored.
\<close>

definition sample_schema :: schema where
  "sample_schema = schema_with_time_index
     [plain_field ''ts'' TimestampType False, plain_field ''value'' Float64Type False] 0 []"

definition sample_scan :: operator_node where
  "sample_scan = OperatorNode 0 (NonASAP (Scan (TimeSeries ''m'') [] sample_schema))
     InstantVectorKind sample_schema None None NotMaterialized"

definition sample_family :: field_data_type where
  "sample_family = Sketch (SketchKind KllAlgorithm (Kll 200 None)) PerSubpopulationInstance"

definition sample_build :: operator_node where
  "sample_build = OperatorNode 1
     (ASAP (SummaryAgg sample_scan sample_family (summary_update_column SampleValue)
        (Reduce group_none) PerSubpopulationInstance None))
     StateKind (schema_new [field_new ''state'' sample_family False]) None None NotMaterialized"

definition sample_estimate :: operator_node where
  "sample_estimate = OperatorNode 2 (ASAP (SummaryEstimate sample_build (QuantileStatistic f64_one)))
     InstantVectorKind (schema_new [plain_field ''quantile'' Float64Type False]) None None NotMaterialized"

definition sample_filter :: operator_node where
  "sample_filter = OperatorNode 3 (NonASAP (Filter (Predicate (Literal (BooleanValue True))) sample_scan))
     InstantVectorKind sample_schema None None NotMaterialized"

definition timed_scan :: "nat \<Rightarrow> materialization \<Rightarrow> operator_node" where
  "timed_scan i m = OperatorNode i (NonASAP (Scan (TimeSeries ''m'') [] sample_schema))
     InstantVectorKind sample_schema None (Some IngestionTime) m"

definition timed_build :: operator_node where
  "timed_build = OperatorNode 11
     (ASAP (SummaryAgg (timed_scan 10 NotMaterialized) sample_family (summary_update_column SampleValue)
        (Reduce group_none) PerSubpopulationInstance None))
     StateKind (schema_new [field_new ''state'' sample_family False]) None (Some IngestionTime)
     (MatAtIngestion Memory)"

definition timed_estimate :: operator_node where
  "timed_estimate = OperatorNode 12 (ASAP (SummaryEstimate timed_build (QuantileStatistic f64_one)))
     InstantVectorKind (schema_new [plain_field ''quantile'' Float64Type False]) None (Some QueryTime)
     NotMaterialized"

definition timed_filter :: operator_node where
  "timed_filter = OperatorNode 11
     (NonASAP (Filter (Predicate (Literal (BooleanValue True))) (timed_scan 10 (MatAtIngestion Disk))))
     InstantVectorKind sample_schema None (Some QueryTime) NotMaterialized"

definition all_at_ingestion :: assignment where
  "all_at_ingestion = with_default (MatAtIngestion Memory)"

definition scan_stored :: assignment where
  "scan_stored = set_assignment (with_default NotMaterialized) sample_scan (MatAtIngestion Disk)"

lemma sample_pass:
  "apply_timings_to_roots [OperatorRoot sample_estimate] all_at_ingestion 10 = Inr [OperatorRoot timed_estimate]"
  by code_simp

lemma sample_pass_filter:
  "apply_timings_to_roots [OperatorRoot sample_filter] scan_stored 10 = Inr [OperatorRoot timed_filter]"
  by code_simp

lemma sample_children:
  "node_children sample_scan = []" "node_children sample_build = [sample_scan]"
  "node_children sample_estimate = [sample_build]" "node_children sample_filter = [sample_scan]"
  "node_children (timed_scan i m) = []" "node_children timed_build = [timed_scan 10 NotMaterialized]"
  "node_children timed_estimate = [timed_build]"
  "node_children timed_filter = [timed_scan 10 (MatAtIngestion Disk)]"
  by (simp_all add: node_children_def non_asap_children_def sample_scan_def sample_build_def
      sample_estimate_def sample_filter_def timed_scan_def timed_build_def timed_estimate_def
      timed_filter_def)

lemma sample_ids:
  "node_id sample_scan = 0" "node_id sample_build = 1" "node_id sample_estimate = 2"
  "node_id sample_filter = 3"
  by (simp_all add: sample_scan_def sample_build_def sample_estimate_def sample_filter_def)

lemmas sample_below =
  below_unfold[of sample_scan] below_unfold[of sample_build] below_unfold[of sample_estimate]
  below_unfold[of sample_filter] below_unfold[of "timed_scan i m" for i m] below_unfold[of timed_build]
  below_unfold[of timed_estimate] below_unfold[of timed_filter]

lemma sample_well_addressed:
  "well_addressed [OperatorRoot sample_estimate]" "well_addressed [OperatorRoot sample_filter]"
  by (auto simp: well_addressed_def workload_nodes_def sample_below sample_children sample_ids inj_on_def)

lemma sample_nodes:
  "timed_build \<in> workload_nodes [OperatorRoot timed_estimate]"
  "timed_estimate \<in> workload_nodes [OperatorRoot timed_estimate]"
  "timed_filter \<in> workload_nodes [OperatorRoot timed_filter]"
  by (simp_all add: workload_nodes_def sample_below sample_children)

theorem ingestion_reads_ingestion_witness:
  "node_timing timed_build \<noteq> None \<and> node_timing (timed_scan 10 NotMaterialized) = Some IngestionTime"
  using ingestion_reads_ingestion[OF sample_well_addressed(1) sample_pass sample_nodes(1)]
  by (simp add: sample_children) (simp add: timed_build_def)

theorem evaluations_run_at_query_time_witness: "node_timing timed_estimate = Some QueryTime"
proof (rule evaluations_run_at_query_time[OF sample_well_addressed(1) sample_pass sample_nodes(2)])
  show "is_evaluation timed_estimate \<or> is_filtered_build timed_estimate"
    by (simp add: is_evaluation_def timed_estimate_def)
qed

theorem query_time_reads_what_is_stored_witness:
  "is_stored_at_ingestion (node_materialization (timed_scan 10 (MatAtIngestion Disk)))"
proof (rule query_time_reads_what_is_stored[OF sample_well_addressed(2) sample_pass_filter sample_nodes(3)])
  show "node_timing timed_filter = Some QueryTime" by (simp add: timed_filter_def)
  show "node_timing (timed_scan 10 (MatAtIngestion Disk)) = Some IngestionTime" by (simp add: timed_scan_def)
  show "(\<exists>op. operator_of timed_filter = NonASAP op)
        \<and> timed_scan 10 (MatAtIngestion Disk) \<in> set (node_children timed_filter)
      \<or> (\<exists>fam inp red grp flt. operator_of timed_filter
           = ASAP (SummaryAgg (timed_scan 10 (MatAtIngestion Disk)) fam inp red grp flt))
      \<or> (\<exists>fam inp red grp flt w k. operator_of timed_filter
           = ASAP (SummaryTumblingWindowChain (timed_scan 10 (MatAtIngestion Disk)) fam inp red grp flt w k))"
    by (simp add: sample_children) (simp add: timed_filter_def)
qed

theorem timing_pass_does_not_panic_witness:
  "apply_timings_to_roots [OperatorRoot sample_estimate] all_at_ingestion 10
     \<noteq> Inl (Panicked ''memoized node is timed'')"
  by (rule timing_pass_does_not_panic[OF sample_well_addressed(1)])

theorem timing_pass_preserves_plan_witness:
  "\<exists>h. h sample_estimate = timed_estimate
     \<and> operator_of (h sample_estimate) = map_operator h id (operator_of sample_estimate)
     \<and> operator_of (h sample_build) = map_operator h id (operator_of sample_build)
     \<and> node_schema (h sample_build) = node_schema sample_build"
proof -
  have nodes: "sample_estimate \<in> workload_nodes [OperatorRoot sample_estimate]"
    "sample_build \<in> workload_nodes [OperatorRoot sample_estimate]"
    by (simp_all add: workload_nodes_def sample_below sample_children)
  from timing_pass_preserves_plan[OF sample_well_addressed(1) sample_pass]
  obtain h where h: "[OperatorRoot timed_estimate] = map (map_query_root h) [OperatorRoot sample_estimate]"
    and ops: "\<forall>n \<in> workload_nodes [OperatorRoot sample_estimate].
      operator_of (h n) = map_operator h id (operator_of n)
      \<and> node_schema (h n) = node_schema n \<and> node_guarantee (h n) = node_guarantee n"
    by (elim conjE exE)
  from h have "h sample_estimate = timed_estimate" by (simp only: list.map query_root.map list.inject query_root.inject)
  with bspec[OF ops nodes(1)] bspec[OF ops nodes(2)] show ?thesis by (intro exI[of _ h] conjI) (elim conjE; assumption)+
qed

theorem forces_query_time_cache_correct_witness:
  "fst (forces_query_time all_at_ingestion sample_estimate Map.empty)
     = must_query all_at_ingestion sample_estimate
   \<and> cache_right (workload_nodes [OperatorRoot sample_estimate]) all_at_ingestion
       (snd (forces_query_time all_at_ingestion sample_estimate Map.empty))"
proof (rule forces_query_time_cache_correct[OF sample_well_addressed(1) cache_right_empty])
  show "sample_estimate \<in> workload_nodes [OperatorRoot sample_estimate]"
    by (simp add: workload_nodes_def below_refl)
qed

end
