(* ===== verification/DagProps.thy ===== *)
theory DagProps
  imports Capability TimingPass "HOL-Library.Sublist" 
begin

text \<open>
  Properties of the operator DAG's bookkeeping: its traversals, the rebuild of an operator, output
  categories, builds, grouping keys over another schema, guarantees and merges of families.
\<close>

section \<open>Traversals\<close>

lemma fold_prefix:
  assumes "\<And>c z. c \<in> set cs \<Longrightarrow> prefix (snd z) (snd (f c z))"
  shows "prefix (snd z) (snd (fold f cs z))"
  using assms
proof (induction cs arbitrary: z)
  case (Cons c cs)
  have "prefix (snd z) (snd (f c z))" using Cons.prems by simp
  moreover have "prefix (snd (f c z)) (snd (fold f cs (f c z)))" using Cons by simp
  ultimately show ?case by (auto intro: prefix_order.trans)
qed simp

lemma reach_walk_prefix: "prefix out (snd (reach_walk n (seen, out)))"
proof (induction n "(seen, out)" arbitrary: seen out rule: reach_walk.induct)
  case (1 n seen out)
  show ?case
  proof (cases "node_id n \<in> seen")
    case True
    then show ?thesis by (subst reach_walk.simps) simp
  next
    case False
    have "prefix (out @ [n]) (snd (fold reach_walk (node_children n) (insert (node_id n) seen, out @ [n])))"
      using fold_prefix[of "node_children n" reach_walk "(insert (node_id n) seen, out @ [n])"] 1[OF False]
      by auto
    with False show ?thesis by (subst reach_walk.simps) (auto dest: append_prefixD)
  qed
qed

text \<open>
  C7: \<^verbatim>\<open>OperatorNode::reachable\<close> lists every node below the root, the root first, and each address
  once, in any DAG where one address is one node.
\<close>

theorem reachable_lists_each_node_once:
  assumes "inj_on node_id (below root)"
  shows "distinct (map node_id (reachable root)) \<and> set (reachable root) = below root
    \<and> hd (reachable root) = root"
proof -
  have "prefix [root] (reachable root)"
    using fold_prefix[of "node_children root" reach_walk "({node_id root}, [root])"] reach_walk_prefix
    by (auto simp: reachable_def reach_walk.simps[of root])
  then have "hd (reachable root) = root" by (auto simp: prefix_def)
  with reachable_spec[OF assms] show ?thesis by blast
qed

text \<open>
  C8: \<^verbatim>\<open>contains_asap\<close>, which stops at the first summary operator and never re-enters a node it has
  seen, finds one exactly when some node below the root is one.
\<close>

theorem contains_asap_finds_summaries:
  assumes "inj_on node_id (below root)"
  shows "contains_asap root \<longleftrightarrow> (\<exists>n \<in> below root. is_asap n)"
  by (rule contains_asap_spec[OF assms])

section \<open>Rebuilds\<close>

text \<open>
  C9: A rebuild (\<^verbatim>\<open>Operator::map_children\<close>) calls its closure exactly once per child, references
  inside scalar expressions included, and returns the same operator over the results, whose children
  are the results in order.
\<close>

theorem rebuild_visits_each_child_once:
  "\<exists>vs. map_children_st (recording h) op [] = (map_operator h id op, vs)
      \<and> mset vs = mset (children_of op)
      \<and> children_of (fst (map_children_st (recording h) op [])) = map h (children_of op)"
proof (cases op)
  case (NonASAP x)
  with runs_map_non_asap[of h x] non_asap_visits_mset[of x] show ?thesis
    by (simp add: runs_def bind_st_def non_asap_children_map)
next
  case (ASAP x)
  with runs_map_asap[of h x] asap_visits_mset[of x] show ?thesis
    by (simp add: runs_def bind_st_def asap_children_map)
qed

section \<open>Output categories and builds\<close>

text \<open>
  On every node the constructors build, what the timing pass takes for summary state is exactly
  what the node's output category calls state: reads of a state (estimates, finalized accumulators,
  population evaluations) are rows, every other summary operator is state.
\<close>

theorem built_node_state_is_its_category:
  "primitive (with_schema i op s) = SummaryState \<longleftrightarrow> result_kind (with_schema i op s) = StateKind"
proof (cases op)
  case (ASAP x)
  then show ?thesis
    by (cases x) (auto simp: primitive_def with_schema_def source_kind_readable)
qed (auto simp: primitive_def with_schema_def)

lemma summary_build_below:
  "summary_build n = Some b \<Longrightarrow> \<exists>m \<in> below n. operator_of m = ASAP b \<and> is_materialization_point (ASAP b)"
proof (induction n rule: summary_build.induct)
  case (1 n)
  from 1(2) obtain op where op: "operator_of n = ASAP op"
    by (subst (asm) summary_build.simps) (auto simp: asap_of_def split: option.splits operator.splits)
  show ?case
  proof (cases "\<exists>c cs k. op = SummaryMerge (c # cs) k None")
    case True
    then obtain c cs k where m: "op = SummaryMerge (c # cs) k None" by blast
    with op 1(2) have "summary_build c = Some b"
      by (subst (asm) summary_build.simps) (simp add: asap_of_def)
    with 1(1)[of op "c # cs" k None c cs] op m
    have "\<exists>m \<in> below c. operator_of m = ASAP b \<and> is_materialization_point (ASAP b)"
      by (simp add: asap_of_def)
    moreover have "below c \<subseteq> below n"
      by (rule below_child) (simp add: node_children_def op m)
    ultimately show ?thesis by blast
  next
    case False
    with op 1(2) have "b = op \<and> is_materialization_point (ASAP b)"
      by (subst (asm) summary_build.simps)
        (auto simp: asap_of_def split: asap_op.splits option.splits list.splits)
    with op show ?thesis by (auto intro: below_refl)
  qed
qed

text \<open>
  The build a state node is said to carry is the operator of a node below it, and it is a build:
  a node the materialization assignment decides about.
\<close>

theorem summary_build_is_a_build_below:
  assumes "summary_build n = Some b"
  shows "\<exists>m \<in> below n. operator_of m = ASAP b \<and> is_materialization_point (ASAP b)"
  by (rule summary_build_below[OF assms])

section \<open>Grouping keys over another schema\<close>

definition same_column :: "schema \<Rightarrow> schema \<Rightarrow> column_id \<Rightarrow> column_id \<Rightarrow> bool" where
  "same_column inner input k j \<longleftrightarrow>
     k < length (schema_fields inner) \<and> j < length (schema_fields input)
     \<and> (\<forall>i < length (schema_fields input).
          column_ref_of (schema_fields input ! i) = column_ref_of (schema_fields inner ! k) \<longleftrightarrow> i = j)"

lemma collect_option_iff: "collect_option f xs = Some ys \<longleftrightarrow> list_all2 (\<lambda>x y. f x = Some y) xs ys"
  by (induction xs arbitrary: ys) (auto simp: list_all2_Cons1 split: option.splits)

text \<open>
  \<^verbatim>\<open>Reduction::partitions_over\<close> answers exactly when every key of a kept-key reduction names one and
  only one column of the input by name and qualifier, and then with those columns in key order;
  excluded keys are never carried over.
\<close>

theorem partitions_over_exact:
  "partitions_over (Reduce g) inner input = Some r \<longleftrightarrow>
     \<not> is_without g \<and> (\<exists>js. r = reduction_by js \<and> list_all2 (same_column inner input) (group_key_list g) js)"
proof -
  have "(case get (schema_fields inner) k of None \<Rightarrow> None | Some f \<Rightarrow> unique_match input (column_ref_of f)) = Some j
      \<longleftrightarrow> same_column inner input k j" for k j
    by (auto simp: same_column_def unique_match_Some get_def split: option.splits)
  then show ?thesis
    by (auto simp: partitions_over_def collect_option_iff)
qed

section \<open>Guarantees\<close>

text \<open>
  Binding measured statistics into a guarantee removes exactly the ones it has a value for: the
  others stay, and the bound guarantee has an unknown part exactly when one of them is left.
\<close>

theorem bind_removes_what_is_measured:
  "guarantee_statistics (guarantee_bind value g) = guarantee_statistics g - dom value
   \<and> (guarantee_has_unknown (guarantee_bind value g) \<longleftrightarrow> \<not> guarantee_statistics g \<subseteq> dom value)"
  by (auto simp: guarantee_statistics_def guarantee_bind_def guarantee_has_unknown_def
      bound_bind_statistics probability_bind_statistics bound_has_unknown_iff probability_has_unknown_iff)

section \<open>Merging groups\<close>

text \<open>
  A rollup may merge the states of different groups exactly for the sums, counts and extrema, and
  for the sketches kept per group that the library merges; counter states, Hydras and every family
  without a merge are refused, whatever the library says of them.
\<close>

theorem merges_groups_exactly:
  "merges_groups library_row family \<longleftrightarrow>
     (\<exists>k p. family = ExactAggregate k p \<and> k \<in> {SumKind, CountKind, MinKind, MaxKind})
     \<or> (\<exists>k. family = Sketch k PerSubpopulationInstance
            \<and> library_merge_inputs (library_row (algorithm k)) \<noteq> None)"
proof (cases family)
  case (ExactAggregate k p)
  then show ?thesis by (cases k) (auto simp: merges_groups_def)
next
  case (Sketch k g)
  have "(case map_option merge_input_rule_from x of Some Disjoint \<Rightarrow> True | Some MayOverlap \<Rightarrow> True | _ \<Rightarrow> False)
      \<longleftrightarrow> x \<noteq> None" for x
    by (cases x; cases "the x") simp_all
  with Sketch show ?thesis
    by (cases g) (auto simp: merges_groups_def of_per_instance_sketch_def Let_def)
qed (auto simp: merges_groups_def)

section \<open>Maintained populations\<close>

text \<open>
  C15: A current-series population accepts exactly the maintenance inputs its declaration describes: a scan of the
  declared metric, under the default lookback or under the declared one as an instant range, over a schema with
  a time index, with the identity of a series where it is closed, and with every grouping label as a string
  column; the grouping labels ascend strictly; the declared matchers are those the label predicates of the
  scan state, each once, in the order of label, value and operation. So all declarations that accept one input agree
  in metric, matchers and lookback.
\<close>

theorem current_series_contract:
  "(matches_node (MaintainedPopulation (CurrentSeries series) k_max has_quantiles) input \<longleftrightarrow>
      (\<exists>scan. (scan = input \<and> cs_lookback_ms series = 300000
           \<or> operator_of input = NonASAP (TimeRange (cs_lookback_ms series * 1000000) InstantRange scan)
             \<and> 0 < cs_lookback_ms series)
         \<and> declares_scan series scan))
   \<and> (matches_node (MaintainedPopulation (CurrentSeries series) k_max has_quantiles) input
      \<and> matches_node (MaintainedPopulation (CurrentSeries other) k_max' has_quantiles') input
      \<longrightarrow> cs_metric series = cs_metric other \<and> cs_matchers series = cs_matchers other
          \<and> cs_lookback_ms series = cs_lookback_ms other)"
proof -
  let ?under = "\<lambda>s scan. scan = input \<and> cs_lookback_ms s = 300000
      \<or> operator_of input = NonASAP (TimeRange (cs_lookback_ms s * 1000000) InstantRange scan) \<and> 0 < cs_lookback_ms s"
  have exact: "matches_node (MaintainedPopulation (CurrentSeries s) k q) input \<longleftrightarrow>
      (\<exists>scan. ?under s scan \<and> declares_scan s scan)" for s k q
    by (simp add: matches_node_def current_series_matches_iff)
  have no_range: "operator_of input \<noteq> NonASAP (TimeRange w k scan)" if "declares_scan s input" for s w k scan
    using that by (auto simp: declares_scan_def)
  have one: "scan = scan' \<and> cs_lookback_ms series = cs_lookback_ms other"
    if "?under series scan" "declares_scan series scan" "?under other scan'" "declares_scan other scan'" for scan scan'
    using that no_range by auto
  have "cs_metric series = cs_metric other \<and> cs_matchers series = cs_matchers other
      \<and> cs_lookback_ms series = cs_lookback_ms other"
    if both: "\<exists>scan. ?under series scan \<and> declares_scan series scan"
      "\<exists>scan. ?under other scan \<and> declares_scan other scan"
  proof -
    from both(1) obtain scan where s: "?under series scan" "declares_scan series scan" by (elim exE conjE)
    from both(2) obtain scan' where t: "?under other scan'" "declares_scan other scan'" by (elim exE conjE)
    from one [OF s t] have same: "scan = scan'" "cs_lookback_ms series = cs_lookback_ms other" by (rule conjunct1, rule conjunct2)
    from declares_scan_unique [OF s(2) t(2) [folded same(1)]] same(2) show ?thesis by (simp only: simp_thms)
  qed
  then show ?thesis by (simp only: exact simp_thms) (intro impI, elim conjE)
qed

section \<open>The properties at work\<close>

lemma sample_inj: "inj_on node_id (below sample_estimate)"
  by (auto simp: sample_below sample_children sample_ids inj_on_def)

theorem reachable_lists_each_node_once_witness:
  "distinct (map node_id (reachable sample_estimate))
   \<and> set (reachable sample_estimate) = {sample_estimate, sample_build, sample_scan}"
proof -
  have "below sample_estimate = {sample_estimate, sample_build, sample_scan}"
    by (simp add: sample_below sample_children insert_commute)
  with reachable_lists_each_node_once[OF sample_inj] show ?thesis by (elim conjE) (rule conjI; simp)
qed

theorem contains_asap_finds_summaries_witness: "contains_asap sample_estimate"
  by (simp only: contains_asap_finds_summaries[OF sample_inj])
    (auto simp: is_asap_def asap_of_def sample_estimate_def intro!: bexI[OF _ below_refl])

lemma sample_summary_build:
  "summary_build sample_build = Some (SummaryAgg sample_scan sample_family
     (summary_update_column SampleValue) (Reduce group_none) PerSubpopulationInstance None)"
  by (subst summary_build.simps) (simp add: asap_of_def sample_build_def)

theorem summary_build_is_a_build_below_witness:
  "\<exists>m \<in> below sample_build. operator_of m = ASAP (SummaryAgg sample_scan sample_family
     (summary_update_column SampleValue) (Reduce group_none) PerSubpopulationInstance None)"
  using summary_build_is_a_build_below[OF sample_summary_build] by blast

definition sample_series :: current_series_input where
  "sample_series = \<lparr>cs_metric = ''m'', cs_matchers = [\<lparr>matcher_label = ''job'', matcher_value = ''api'',
     matcher_operation = MatchEqual\<rparr>], cs_grouping = [''job''], cs_without = False, cs_lookback_ms = 300000\<rparr>"

definition series_scan :: operator_node where
  "series_scan =
     (let sch = schema_with_time_index [plain_field ''ts'' TimestampType False,
        plain_field ''job'' Utf8Type False, plain_field promql_series_identity Utf8Type False] 0 []
      in OperatorNode 0 (NonASAP (Scan (TimeSeries ''m'')
           [Predicate (Compare (Column 1) EqOp (Literal (Utf8Value ''api'')) PromqlSemantics)] sch))
           InstantVectorKind sch None None NotMaterialized)"

lemma sample_series_matches: "matches_node (MaintainedPopulation (CurrentSeries sample_series) 5 True) series_scan"
  by (simp add: matches_node_def current_series_matches_def current_series_scan_def sample_series_def
      series_scan_def Let_def schema_with_time_index_def schema_new_def plain_field_def field_new_def has_promql_series_identity_def
      matcher_of_predicate_def get_def sorted_matchers_def promql_series_identity_def)

theorem current_series_contract_witness:
  "declares_scan sample_series series_scan
   \<and> \<not> matches_node (MaintainedPopulation (CurrentSeries (sample_series\<lparr>cs_matchers := []\<rparr>)) 7 False) series_scan"
proof
  have no_range: "operator_of series_scan \<noteq> NonASAP (TimeRange r k c)" for r k c
    by (simp add: series_scan_def Let_def)
  show "declares_scan sample_series series_scan"
    using current_series_contract [of sample_series 5 True series_scan] sample_series_matches no_range by blast
  show "\<not> matches_node (MaintainedPopulation (CurrentSeries (sample_series\<lparr>cs_matchers := []\<rparr>)) 7 False) series_scan"
    using current_series_contract [of sample_series 5 True series_scan "sample_series\<lparr>cs_matchers := []\<rparr>" 7 False]
      sample_series_matches by (auto simp: sample_series_def)
qed

section \<open>The order of \<^verbatim>\<open>reachable\<close>\<close>

text \<open>
  The comment on \<^verbatim>\<open>OperatorNode::reachable\<close> says parents come before children. In a DAG whose root reads
  a node both directly and through another input, the direct visit lists the child first.
\<close>

definition direct_and_filtered :: operator_node where
  "direct_and_filtered = OperatorNode 4 (NonASAP (SetOp UnionOp True sample_scan sample_filter))
     InstantVectorKind sample_schema None None NotMaterialized"

lemma reachable_child_before_parent:
  "map node_id (reachable direct_and_filtered) = [4, 0, 3]
   \<and> sample_scan \<in> set (node_children sample_filter) \<and> node_id sample_scan = 0 \<and> node_id sample_filter = 3"
  by code_simp

end
