(* ===== verification/Kahn.thy ===== *)
theory Kahn
  imports Prelude "HOL-Library.Multiset"
begin

text \<open>
  Kahn's algorithm as \<^verbatim>\<open>stages/candidates.rs\<close> (over a binary heap) and \<^verbatim>\<open>stages/physical/graph.rs\<close> (over a
  stack) run it. What the loop needs of its worklist is the locale \<open>worklist\<close>: pushing adds an
  element, popping removes one. Nodes are indices below \<open>n\<close>; \<open>readers g\<close> lists, with repetition, the
  nodes waiting for \<open>g\<close>. A decrement below zero and an index out of range panic: the result is \<open>None\<close>.
\<close>

section \<open>The loop\<close>

fun release ::
  "(nat \<Rightarrow> 'q \<Rightarrow> 'q) \<Rightarrow> nat list \<Rightarrow> nat list \<Rightarrow> 'q \<Rightarrow> (nat list \<times> 'q) option" where
  "release push [] waiting ready = Some (waiting, ready)"
| "release push (c # cs) waiting ready =
     (if c < length waiting \<and> 0 < waiting ! c
      then release push cs (waiting[c := waiting ! c - 1])
             (if waiting ! c - 1 = 0 then push c ready else ready)
      else None)"

partial_function (option) kahn ::
  "(nat \<Rightarrow> 'q \<Rightarrow> 'q) \<Rightarrow> ('q \<Rightarrow> (nat \<times> 'q) option) \<Rightarrow> (nat \<Rightarrow> nat list) \<Rightarrow> nat list \<Rightarrow> 'q \<Rightarrow> nat list \<Rightarrow> nat list option"
where
  [code]: "kahn push pop readers waiting ready order =
     (case pop ready of
        None \<Rightarrow> Some order
      | Some (g, ready) \<Rightarrow>
          (case release push (readers g) waiting ready of
             None \<Rightarrow> None
           | Some (waiting, ready) \<Rightarrow> kahn push pop readers waiting ready (order @ [g])))"

lemma distinct_count_list: "distinct xs \<Longrightarrow> count_list xs c = (if c \<in> set xs then 1 else 0)"
  by (induction xs) auto

section \<open>Worklists\<close>

locale worklist =
  fixes push :: "nat \<Rightarrow> 'q \<Rightarrow> 'q" and pop :: "'q \<Rightarrow> (nat \<times> 'q) option" and bag :: "'q \<Rightarrow> nat multiset"
  assumes bag_push: "bag (push x q) = add_mset x (bag q)"
    and pop_None: "pop q = None \<longleftrightarrow> bag q = {#}"
    and pop_Some: "pop q = Some (x, q') \<Longrightarrow> bag q = add_mset x (bag q')"

locale min_worklist = worklist +
  assumes pop_least: "pop q = Some (x, q') \<Longrightarrow> y \<in># bag q \<Longrightarrow> x \<le> y"

section \<open>What is still waited for\<close>

text \<open>How often a node occurs among the readers of nodes not handled yet.\<close>

definition waits :: "(nat \<Rightarrow> nat list) \<Rightarrow> nat \<Rightarrow> nat set \<Rightarrow> nat \<Rightarrow> nat" where
  "waits readers n seen c = (\<Sum>g \<in> {..<n} - seen. count_list (readers g) c)"

definition reads_of :: "(nat \<Rightarrow> nat list) \<Rightarrow> nat \<Rightarrow> (nat \<times> nat) set" where
  "reads_of readers n = {(g, c). g < n \<and> c \<in> set (readers g)}"

lemma waits_insert:
  assumes "g < n" "g \<notin> seen"
  shows "waits readers n seen c = count_list (readers g) c + waits readers n (insert g seen) c"
proof -
  have "{..<n} - insert g seen = ({..<n} - seen) - {g}" by auto
  with assms show ?thesis unfolding waits_def by (simp add: sum.remove[of "{..<n} - seen" g])
qed

lemma waits_zero: "waits readers n seen c = 0 \<longleftrightarrow> (\<forall>g. (g, c) \<in> reads_of readers n \<longrightarrow> g \<in> seen)"
  by (auto simp: waits_def reads_of_def count_list_0_iff)

text \<open>A list in which every node comes after the nodes it reads.\<close>

definition dependency_order :: "(nat \<Rightarrow> nat list) \<Rightarrow> nat \<Rightarrow> nat list \<Rightarrow> bool" where
  "dependency_order readers n order \<longleftrightarrow>
     distinct order \<and> set order \<subseteq> {..<n}
     \<and> (\<forall>i < length order. \<forall>g. (g, order ! i) \<in> reads_of readers n \<longrightarrow> g \<in> set (take i order))"

definition least_first :: "(nat \<Rightarrow> nat list) \<Rightarrow> nat \<Rightarrow> nat list \<Rightarrow> bool" where
  "least_first readers n order \<longleftrightarrow>
     (\<forall>i < length order. \<forall>c < n. c \<notin> set (take i order)
        \<longrightarrow> (\<forall>g. (g, c) \<in> reads_of readers n \<longrightarrow> g \<in> set (take i order)) \<longrightarrow> order ! i \<le> c)"

lemma dependency_order_snoc:
  "dependency_order readers n (order @ [g]) \<longleftrightarrow>
     dependency_order readers n order \<and> g < n \<and> g \<notin> set order
     \<and> (\<forall>h. (h, g) \<in> reads_of readers n \<longrightarrow> h \<in> set order)"
  unfolding dependency_order_def by (auto simp: nth_append less_Suc_eq)

lemma least_first_snoc:
  "least_first readers n (order @ [g]) \<longleftrightarrow>
     least_first readers n order
     \<and> (\<forall>c < n. c \<notin> set order \<longrightarrow> (\<forall>h. (h, c) \<in> reads_of readers n \<longrightarrow> h \<in> set order) \<longrightarrow> g \<le> c)"
  unfolding least_first_def by (auto simp: nth_append less_Suc_eq)

lemma dependency_order_waits:
  assumes "dependency_order readers n order" "c \<in> set order"
  shows "waits readers n (set order) c = 0"
proof -
  obtain i where "i < length order" "order ! i = c" using assms(2) by (auto simp: in_set_conv_nth)
  with assms(1) show ?thesis
    unfolding waits_zero dependency_order_def using in_set_takeD by metis
qed

section \<open>One round\<close>

context worklist begin

lemma release_spec:
  "set cs \<subseteq> {..<length waiting} \<Longrightarrow> (\<And>c. c < length waiting \<Longrightarrow> count_list cs c \<le> waiting ! c) \<Longrightarrow>
   \<exists>waiting' ready'. release push cs waiting ready = Some (waiting', ready')
     \<and> length waiting' = length waiting
     \<and> (\<forall>c < length waiting. waiting' ! c + count_list cs c = waiting ! c)
     \<and> (\<forall>c. count (bag ready') c =
          count (bag ready) c + (if c \<in> set cs \<and> waiting ! c = count_list cs c then 1 else 0))"
proof (induction cs arbitrary: waiting ready)
  case Nil
  then show ?case by simp
next
  case (Cons d cs)
  let ?w = "waiting[d := waiting ! d - 1]"
  let ?r = "if waiting ! d - 1 = 0 then push d ready else ready"
  have d: "d < length waiting" "0 < waiting ! d"
    using Cons.prems(1) Cons.prems(2)[of d] by auto
  have le: "count_list cs c \<le> ?w ! c" if "c < length waiting" for c
    using Cons.prems(2)[OF that] that d by (cases "c = d") auto
  from Cons.IH[of ?w ?r] Cons.prems(1) le obtain waiting' ready' where
    run: "release push cs ?w ?r = Some (waiting', ready')" "length waiting' = length waiting"
    and w: "\<forall>c < length waiting. waiting' ! c + count_list cs c = ?w ! c"
    and q: "\<forall>c. count (bag ready') c =
          count (bag ?r) c + (if c \<in> set cs \<and> ?w ! c = count_list cs c then 1 else 0)"
    by auto
  have "waiting' ! c + count_list (d # cs) c = waiting ! c" if "c < length waiting" for c
    using w that d by (cases "c = d") auto
  moreover have "count (bag ready') c =
      count (bag ready) c + (if c \<in> set (d # cs) \<and> waiting ! c = count_list (d # cs) c then 1 else 0)" for c
    using q[rule_format, of c] d Cons.prems(2)[of d] count_list_0_iff[of cs d]
    by (cases "c = d") (auto simp: bag_push)
  ultimately show ?case using run d by auto
qed

text \<open>What holds before every round.\<close>

definition waiting_right ::
  "(nat \<Rightarrow> nat list) \<Rightarrow> nat \<Rightarrow> nat list \<Rightarrow> 'q \<Rightarrow> nat list \<Rightarrow> bool" where
  "waiting_right readers n waiting ready order \<longleftrightarrow>
     length waiting = n \<and> dependency_order readers n order
     \<and> (\<forall>c < n. waiting ! c = waits readers n (set order) c)
     \<and> (\<forall>c. count (bag ready) c = (if c < n \<and> waiting ! c = 0 \<and> c \<notin> set order then 1 else 0))"

lemma round_right:
  assumes closed: "\<forall>g < n. set (readers g) \<subseteq> {..<n}"
    and inv: "waiting_right readers n waiting ready order" and pop: "pop ready = Some (g, rest)"
  shows "\<exists>waiting' ready'. release push (readers g) waiting rest = Some (waiting', ready')
    \<and> waiting_right readers n waiting' ready' (order @ [g])"
proof -
  have len: "length waiting = n" and order: "dependency_order readers n order"
    and w: "\<And>c. c < n \<Longrightarrow> waiting ! c = waits readers n (set order) c"
    and q: "\<And>c. count (bag ready) c = (if c < n \<and> waiting ! c = 0 \<and> c \<notin> set order then 1 else 0)"
    using inv by (auto simp: waiting_right_def)
  note bag = pop_Some[OF pop]
  have g: "g < n" "waiting ! g = 0" "g \<notin> set order"
    using q[of g] bag by (auto split: if_splits)
  have sum: "waiting ! c = count_list (readers g) c + waits readers n (insert g (set order)) c" if "c < n" for c
    using w[OF that] waits_insert[OF g(1,3), of readers c] by simp
  then obtain waiting' ready' where run: "release push (readers g) waiting rest = Some (waiting', ready')"
      "length waiting' = n"
    and w': "\<And>c. c < n \<Longrightarrow> waiting' ! c + count_list (readers g) c = waiting ! c"
    and q': "\<And>c. count (bag ready') c =
        count (bag rest) c + (if c \<in> set (readers g) \<and> waiting ! c = count_list (readers g) c then 1 else 0)"
    using release_spec[of "readers g" waiting rest] closed g(1) len by auto
  have w'': "waiting' ! c = waits readers n (set (order @ [g])) c" if "c < n" for c
    using sum[OF that] w'[OF that] by simp
  have "dependency_order readers n (order @ [g])"
    using order g w[OF g(1)] by (simp add: dependency_order_snoc waits_zero)
  moreover have "count (bag ready') c = (if c < n \<and> waiting' ! c = 0 \<and> c \<notin> set (order @ [g]) then 1 else 0)" for c
  proof (cases "c \<in> set (readers g)")
    case True
    then have c: "c < n" "0 < count_list (readers g) c"
      using closed g(1) count_list_0_iff[of "readers g" c] by auto
    then have "0 < waiting ! c" using w'[OF c(1)] by simp
    then have "c \<notin> set order" "c \<noteq> g"
      using dependency_order_waits[OF order] w[OF c(1)] g(2) by auto
    with True c \<open>0 < waiting ! c\<close> show ?thesis
      using q'[of c] q[of c] bag w'[OF c(1)] by auto
  next
    case False
    then show ?thesis
      using q'[of c] q[of c] bag w'[of c] g by (auto split: if_splits)
  qed
  ultimately have "waiting_right readers n waiting' ready' (order @ [g])"
    using run(2) w'' by (auto simp: waiting_right_def)
  with run(1) show ?thesis by blast
qed

text \<open>
  The loop ends without a panic, keeping what a round keeps; at the end nothing is ready.
\<close>

lemma kahn_ends:
  assumes closed: "\<forall>g < n. set (readers g) \<subseteq> {..<n}"
    and step: "\<And>waiting ready order g rest. waiting_right readers n waiting ready order \<Longrightarrow>
        pop ready = Some (g, rest) \<Longrightarrow> P order \<Longrightarrow> P (order @ [g])"
  shows "waiting_right readers n waiting ready order \<Longrightarrow> P order \<Longrightarrow>
    \<exists>final waiting' ready'. kahn push pop readers waiting ready order = Some final
      \<and> waiting_right readers n waiting' ready' final \<and> bag ready' = {#} \<and> P final"
proof (induction "n - length order" arbitrary: waiting ready order rule: less_induct)
  case less
  show ?case
  proof (cases "pop ready")
    case None
    then have "bag ready = {#}" by (simp add: pop_None)
    with None less.prems show ?thesis by (subst kahn.simps) auto
  next
    case (Some x)
    obtain g rest where x: "x = (g, rest)" by (cases x)
    with Some have pop: "pop ready = Some (g, rest)" by simp
    from round_right[OF closed less.prems(1) pop] obtain waiting' ready' where
      run: "release push (readers g) waiting rest = Some (waiting', ready')"
      and inv: "waiting_right readers n waiting' ready' (order @ [g])" by blast
    have "distinct (order @ [g])" "set (order @ [g]) \<subseteq> {..<n}"
      using inv by (auto simp: waiting_right_def dependency_order_def)
    then have "length (order @ [g]) \<le> n"
      using card_mono[of "{..<n}" "set (order @ [g])"] by (simp add: distinct_card)
    then have "n - length (order @ [g]) < n - length order" by simp
    from less.hyps[OF this inv step[OF less.prems(1) pop less.prems(2)]] show ?thesis
      by (subst kahn.simps) (simp add: pop run)
  qed
qed

lemma kahn_run:
  assumes closed: "\<forall>g < n. set (readers g) \<subseteq> {..<n}"
    and start: "length waiting = n" "\<forall>c < n. waiting ! c = waits readers n {} c"
    and ready: "bag ready = mset (filter (\<lambda>c. waiting ! c = 0) [0..<n])"
  shows "\<exists>order. kahn push pop readers waiting ready [] = Some order
    \<and> dependency_order readers n order
    \<and> (\<forall>c < n. c \<notin> set order \<longrightarrow> (\<exists>g. g \<notin> set order \<and> (g, c) \<in> reads_of readers n))"
proof -
  have "count (bag ready) c = (if c < n \<and> waiting ! c = 0 then 1 else 0)" for c
    unfolding ready using distinct_count_atmost_1[of "filter (\<lambda>c. waiting ! c = 0) [0..<n]"] by auto
  with start have "waiting_right readers n waiting ready []"
    by (auto simp: waiting_right_def dependency_order_def)
  from kahn_ends[OF closed, where P = "\<lambda>_. True", OF _ this] obtain order waiting' ready' where
    run: "kahn push pop readers waiting ready [] = Some order"
    and inv: "waiting_right readers n waiting' ready' order" and e: "bag ready' = {#}" by auto
  have "\<exists>g. g \<notin> set order \<and> (g, c) \<in> reads_of readers n" if "c < n" "c \<notin> set order" for c
  proof -
    from inv e that have "waits readers n (set order) c \<noteq> 0"
      by (auto simp: waiting_right_def split: if_splits)
    then show ?thesis by (auto simp: waits_zero)
  qed
  with run inv show ?thesis by (auto simp: waiting_right_def)
qed

end

context min_worklist begin

lemma kahn_least_first:
  assumes closed: "\<forall>g < n. set (readers g) \<subseteq> {..<n}"
    and start: "length waiting = n" "\<forall>c < n. waiting ! c = waits readers n {} c"
    and ready: "bag ready = mset (filter (\<lambda>c. waiting ! c = 0) [0..<n])"
    and run: "kahn push pop readers waiting ready [] = Some order"
  shows "least_first readers n order"
proof -
  have "count (bag ready) c = (if c < n \<and> waiting ! c = 0 then 1 else 0)" for c
    unfolding ready using distinct_count_atmost_1[of "filter (\<lambda>c. waiting ! c = 0) [0..<n]"] by auto
  with start have inv: "waiting_right readers n waiting ready []"
    by (auto simp: waiting_right_def dependency_order_def)
  have step: "least_first readers n (done' @ [g])"
    if w: "waiting_right readers n waiting ready done'" and p: "pop ready = Some (g, rest)"
      and l: "least_first readers n done'" for waiting ready done' g rest
  proof -
    have "g \<le> c" if "c < n" "c \<notin> set done'" "\<forall>h. (h, c) \<in> reads_of readers n \<longrightarrow> h \<in> set done'" for c
    proof (rule pop_least[OF p])
      from that have "waits readers n (set done') c = 0" by (simp add: waits_zero)
      with w that show "c \<in># bag ready" by (simp add: waiting_right_def count_greater_zero_iff[symmetric] del: count_greater_zero_iff)
    qed
    with l show ?thesis by (auto simp: least_first_snoc)
  qed
  have "least_first readers n []" by (simp add: least_first_def)
  from kahn_ends[where P = "least_first readers n", OF closed step inv this] run show ?thesis by force
qed

end

section \<open>Orders and cycles\<close>

lemma dependency_order_acyclic:
  assumes "dependency_order readers n order" "set order = {..<n}" "reads_of readers n \<subseteq> {..<n} \<times> {..<n}"
  shows "acyclic (reads_of readers n)"
proof -
  have inj: "distinct order" using assms(1) by (simp add: dependency_order_def)
  define place where "place c = (THE i. i < length order \<and> order ! i = c)" for c
  have place: "place (order ! i) = i" if "i < length order" for i
    unfolding place_def using that inj by (auto intro!: the_equality simp: nth_eq_iff_index_eq)
  have "place g < place c" if "(g, c) \<in> reads_of readers n" for g c
  proof -
    from that assms(2,3) have "c \<in> set order" by auto
    then obtain i where i: "i < length order" "order ! i = c" by (auto simp: in_set_conv_nth)
    with that assms(1) have "g \<in> set (take i order)" by (auto simp: dependency_order_def)
    then obtain j where "j < i" "order ! j = g" using i(1) by (auto simp: in_set_conv_nth)
    with place[of i] place[of j] i show ?thesis by auto
  qed
  then have "reads_of readers n \<subseteq> measure place" by auto
  then show ?thesis by (blast intro: acyclic_subset wf_acyclic[OF wf_measure])
qed

lemma acyclic_complete:
  assumes "acyclic (reads_of readers n)" "\<forall>g < n. set (readers g) \<subseteq> {..<n}" "dependency_order readers n order"
    and "\<forall>c < n. c \<notin> set order \<longrightarrow> (\<exists>g. g \<notin> set order \<and> (g, c) \<in> reads_of readers n)"
  shows "set order = {..<n}"
proof (rule ccontr)
  assume "set order \<noteq> {..<n}"
  moreover have "set order \<subseteq> {..<n}" using assms(3) by (simp add: dependency_order_def)
  ultimately obtain c where c: "c \<in> {..<n} - set order" by blast
  have "reads_of readers n \<subseteq> {..<n} \<times> {..<n}" using assms(2) by (auto simp: reads_of_def)
  then have "finite (reads_of readers n)" by (rule finite_subset) simp
  then have "wf (reads_of readers n)" using assms(1) by (rule finite_acyclic_wf)
  from wfE_min[OF this c] obtain m where m: "m \<in> {..<n} - set order"
    "\<And>g. (g, m) \<in> reads_of readers n \<Longrightarrow> g \<notin> {..<n} - set order" by blast
  with assms(4) obtain g where "g \<notin> set order" "(g, m) \<in> reads_of readers n" by blast
  with m(2) show False by (auto simp: reads_of_def)
qed

text \<open>A loop that ends orders every node exactly when the reads have no cycle.\<close>

lemma complete_iff_acyclic:
  assumes "\<forall>g < n. set (readers g) \<subseteq> {..<n}" "dependency_order readers n order"
    and "\<forall>c < n. c \<notin> set order \<longrightarrow> (\<exists>g. g \<notin> set order \<and> (g, c) \<in> reads_of readers n)"
  shows "length order = n \<longleftrightarrow> acyclic (reads_of readers n)"
proof -
  have sub: "reads_of readers n \<subseteq> {..<n} \<times> {..<n}" using assms(1) by (auto simp: reads_of_def)
  have d: "distinct order" "set order \<subseteq> {..<n}" using assms(2) by (auto simp: dependency_order_def)
  then have "length order = n \<longleftrightarrow> set order = {..<n}"
    using card_subset_eq[of "{..<n}" "set order"] distinct_card[of order] by auto
  with dependency_order_acyclic[OF assms(2) _ sub] acyclic_complete[OF _ assms(1,2,3)] show ?thesis by blast
qed

section \<open>The two worklists\<close>

text \<open>
  \<^verbatim>\<open>BinaryHeap<Reverse<usize>>\<close>: only the order in which it gives its elements back matters, so it is kept
  as a list whose least element is the next. The stack of \<^verbatim>\<open>graph.rs\<close> is a vector whose end is the top.
\<close>

definition heap_push :: "nat \<Rightarrow> nat list \<Rightarrow> nat list" where
  "heap_push x q = x # q"

definition heap_pop :: "nat list \<Rightarrow> (nat \<times> nat list) option" where
  "heap_pop q = (if q = [] then None else let x = fold min (tl q) (hd q) in Some (x, remove1 x q))"

definition stack_push :: "nat \<Rightarrow> nat list \<Rightarrow> nat list" where
  "stack_push x q = q @ [x]"

definition stack_pop :: "nat list \<Rightarrow> (nat \<times> nat list) option" where
  "stack_pop q = (if q = [] then None else Some (last q, butlast q))"

lemma fold_min: "fold min xs (x::nat) \<in> set (x # xs) \<and> (\<forall>y \<in> set (x # xs). fold min xs x \<le> y)"
proof (induction xs arbitrary: x)
  case (Cons y xs)
  from Cons[of "min y x"] show ?case by (auto simp: min_def split: if_splits)
qed simp

lemma heap_pop_Some:
  "heap_pop q = Some (x, q') \<Longrightarrow> x \<in> set q \<and> (\<forall>y \<in> set q. x \<le> y) \<and> q' = remove1 x q"
  using fold_min[of "tl q" "hd q"] by (cases q) (auto simp: heap_pop_def Let_def)

interpretation heap: min_worklist heap_push heap_pop mset
proof unfold_locales
  show "mset (heap_push x q) = add_mset x (mset q)" for x q by (simp add: heap_push_def)
  show "heap_pop q = None \<longleftrightarrow> mset q = {#}" for q by (simp add: heap_pop_def Let_def)
  show "heap_pop q = Some (x, q') \<Longrightarrow> mset q = add_mset x (mset q')" for q x q'
    by (auto dest: heap_pop_Some)
  show "heap_pop q = Some (x, q') \<Longrightarrow> y \<in># mset q \<Longrightarrow> x \<le> y" for q x q' y
    by (auto dest: heap_pop_Some)
qed

interpretation stack: worklist stack_push stack_pop mset
proof unfold_locales
  show "mset (stack_push x q) = add_mset x (mset q)" for x q by (simp add: stack_push_def)
  show "stack_pop q = None \<longleftrightarrow> mset q = {#}" for q by (simp add: stack_pop_def)
  show "stack_pop q = Some (x, q') \<Longrightarrow> mset q = add_mset x (mset q')" for q x q'
    by (cases q rule: rev_cases) (auto simp: stack_pop_def)
qed

end
