(* ===== verification/Memo.thy ===== *)
theory Memo
  imports Kahn TimingPass
begin

text \<open>
  The memo of a workload (\<^verbatim>\<open>crates/types/src/stages/memo.rs\<close>, \<^verbatim>\<open>candidates.rs\<close>): the distinct logical
  sub-expressions as groups, each query's root over them, the implementation candidates of each group,
  and the order in which candidates are traversed. A group id is the \<^verbatim>\<open>u32\<close> index of its group. An index
  out of range panics: the result is \<open>None\<close>.
\<close>

section \<open>Groups\<close>

record memo_group =
  logical_node :: operator_node
  child_groups :: "nat list"
  parent_groups :: "nat list"
  reached_by_queries :: "nat list"

record memo_dag =
  dag_groups :: "memo_group list"
  dag_query_roots :: "nat query_root list"
  group_of :: "nat \<rightharpoonup> nat" \<comment> \<open>by address of the original node\<close>

definition group_for_node :: "memo_dag \<Rightarrow> operator_node \<Rightarrow> nat option" where
  "group_for_node d n = group_of d (node_id n)"

text \<open>\<^verbatim>\<open>roots_over_groups\<close>.\<close>

fun map_root_option :: "('a \<Rightarrow> 'b option) \<Rightarrow> 'a query_root \<Rightarrow> 'b query_root option" where
  "map_root_option f (OperatorRoot g) = map_option OperatorRoot (f g)"
| "map_root_option f (ScalarRoot e) =
     (if list_all (\<lambda>g. f g \<noteq> None) (operator_refs e)
      then Some (ScalarRoot (fst (map_operator_refs_st (\<lambda>g u. (the (f g), u)) e ())))
      else None)"

definition roots_over_groups :: "memo_dag \<Rightarrow> operator_node query_root list option" where
  "roots_over_groups d =
     collect_option (map_root_option (\<lambda>g. map_option logical_node (get (dag_groups d) g)))
       (dag_query_roots d)"

text \<open>\<^verbatim>\<open>root_groups\<close> (a sorted set) and \<^verbatim>\<open>queries_rooted_at\<close>.\<close>

definition root_groups :: "nat query_root list \<Rightarrow> nat list" where
  "root_groups roots = sort (remdups (concat (map root_refs roots)))"

definition queries_rooted_at :: "nat query_root list \<Rightarrow> nat \<Rightarrow> nat list" where
  "queries_rooted_at roots g = filter (\<lambda>q. g \<in> set (root_refs (roots ! q))) [0..<length roots]"

lemma root_groups_spec:
  "set (root_groups roots) = {g. queries_rooted_at roots g \<noteq> []}"
  "sorted (root_groups roots)" "distinct (root_groups roots)"
proof -
  have a: "g \<in> set (root_groups roots) \<longleftrightarrow> (\<exists>r \<in> set roots. g \<in> set (root_refs r))" for g
    by (simp add: root_groups_def)
  have b: "(\<exists>r \<in> set roots. g \<in> set (root_refs r))
      \<longleftrightarrow> (\<exists>q < length roots. g \<in> set (root_refs (roots ! q)))" for g
    by (metis in_set_conv_nth)
  have c: "queries_rooted_at roots g \<noteq> [] \<longleftrightarrow> (\<exists>q < length roots. g \<in> set (root_refs (roots ! q)))" for g
    by (auto simp: queries_rooted_at_def filter_empty_conv)
  show "set (root_groups roots) = {g. queries_rooted_at roots g \<noteq> []}"
    unfolding set_eq_iff mem_Collect_eq a b c by (rule allI) (rule refl)
qed (simp_all add: root_groups_def)

section \<open>Candidates\<close>

datatype candidate_origin =
    Pass1Origin | SharedBuildOrigin | SummaryResultOrigin | SummaryInputOrigin
  | TumblingWindowsOrigin | RollupOrigin | TopKReuseOrigin | WidenedScansOrigin

record group_candidate =
  fused_groups :: "nat list"
  candidate_root :: operator_node
  input_groups :: "nat list"
  candidate_origin :: candidate_origin
  accuracy_budget_parts :: nat

record memo =
  memo_groups :: "memo_group list"
  memo_query_roots :: "nat query_root list"
  memo_candidates :: "group_candidate list list"

section \<open>The traversal order\<close>

text \<open>\<^verbatim>\<open>Memo::topological_order\<close>: what group \<open>g\<close> or one of its candidates reads, each group once.\<close>

definition group_reads :: "memo \<Rightarrow> nat \<Rightarrow> nat list" where
  "group_reads m g =
     remdups (child_groups (memo_groups m ! g)
              @ concat (map input_groups
                  (case get (memo_candidates m) g of None \<Rightarrow> [] | Some cs \<Rightarrow> cs)))"

definition group_readers :: "memo \<Rightarrow> nat \<Rightarrow> nat list" where
  "group_readers m child = filter (\<lambda>g. child \<in> set (group_reads m g)) [0..<length (memo_groups m)]"

definition as_u32 :: "nat \<Rightarrow> nat" where
  "as_u32 g = g mod 2 ^ 32"

definition topological_order :: "memo \<Rightarrow> nat list option option" where
  "topological_order m =
     (let count = length (memo_groups m);
          waiting = map (\<lambda>g. length (group_reads m g)) [0..<count];
          ready = filter (\<lambda>g. waiting ! g = 0) [0..<count]
      in if list_all (\<lambda>g. list_all (\<lambda>child. child < count) (group_reads m g)) [0..<count]
         then map_option
                (\<lambda>order. if length order = count then Some (map as_u32 order) else None)
                (kahn heap_push heap_pop (group_readers m) waiting ready [])
         else None)"

text \<open>The reads of a memo as a relation, and a memo whose reads stay inside it.\<close>

definition reads_in :: "memo \<Rightarrow> (nat \<times> nat) set" where
  "reads_in m = {(g, c). c < length (memo_groups m) \<and> g \<in> set (group_reads m c)}"

definition reads_closed :: "memo \<Rightarrow> bool" where
  "reads_closed m \<longleftrightarrow> (\<forall>(g, c) \<in> reads_in m. g < length (memo_groups m))"

lemma group_readers_closed: "\<forall>g < n. set (group_readers m g) \<subseteq> {..<length (memo_groups m)}"
  by (auto simp: group_readers_def)

lemma reads_of_readers:
  "reads_closed m \<Longrightarrow> reads_of (group_readers m) (length (memo_groups m)) = reads_in m"
  by (auto simp: reads_of_def reads_in_def group_readers_def reads_closed_def)

lemma count_reader:
  "c < length (memo_groups m) \<Longrightarrow>
     count_list (group_readers m g) c = (if g \<in> set (group_reads m c) then 1 else 0)"
  by (simp add: group_readers_def distinct_count_list)

text \<open>The start of the loop is what the loop keeps.\<close>

lemma start_waiting:
  assumes "reads_closed m" "c < length (memo_groups m)"
  shows "length (group_reads m c) = waits (group_readers m) (length (memo_groups m)) {} c"
proof -
  let ?n = "length (memo_groups m)"
  have sub: "set (group_reads m c) \<subseteq> {..<?n}"
    using assms by (auto simp: reads_closed_def reads_in_def)
  have "waits (group_readers m) ?n {} c = (\<Sum>g \<in> {..<?n}. if g \<in> set (group_reads m c) then 1 else 0)"
    by (simp add: waits_def count_reader[OF assms(2)])
  also have "\<dots> = card ({..<?n} \<inter> set (group_reads m c))"
    by (simp add: sum.If_cases Int_def)
  also have "{..<?n} \<inter> set (group_reads m c) = set (group_reads m c)" using sub by blast
  also have "card (set (group_reads m c)) = length (group_reads m c)"
    by (rule distinct_card) (simp add: group_reads_def)
  finally show ?thesis by simp
qed

definition order_run :: "memo \<Rightarrow> nat list option" where
  "order_run m =
     (let count = length (memo_groups m); waiting = map (\<lambda>g. length (group_reads m g)) [0..<count]
      in kahn heap_push heap_pop (group_readers m) waiting (filter (\<lambda>g. waiting ! g = 0) [0..<count]) [])"

lemma topological_order_run:
  "reads_closed m \<Longrightarrow> topological_order m =
     map_option (\<lambda>order. if length order = length (memo_groups m) then Some (map as_u32 order) else None)
       (order_run m)"
proof -
  assume "reads_closed m"
  then have "list_all (\<lambda>g. list_all (\<lambda>child. child < length (memo_groups m)) (group_reads m g))
      [0..<length (memo_groups m)]"
    by (force simp: reads_closed_def reads_in_def list_all_iff)
  then show ?thesis by (simp add: topological_order_def order_run_def Let_def)
qed

lemma order_run_spec:
  assumes "reads_closed m"
  shows "\<exists>order. order_run m = Some order
    \<and> dependency_order (group_readers m) (length (memo_groups m)) order
    \<and> least_first (group_readers m) (length (memo_groups m)) order
    \<and> (length order = length (memo_groups m) \<longleftrightarrow> acyclic (reads_in m))"
proof -
  let ?n = "length (memo_groups m)" and ?w = "map (\<lambda>g. length (group_reads m g)) [0..<length (memo_groups m)]"
  have start: "length ?w = ?n" "\<forall>c < ?n. ?w ! c = waits (group_readers m) ?n {} c"
    using start_waiting[OF assms] by simp_all
  have ready: "mset (filter (\<lambda>g. ?w ! g = 0) [0..<?n]) = mset (filter (\<lambda>g. ?w ! g = 0) [0..<?n])" by simp
  from heap.kahn_run[OF group_readers_closed start ready] obtain order where
    run: "order_run m = Some order" and o: "dependency_order (group_readers m) ?n order"
    and rest: "\<forall>c < ?n. c \<notin> set order \<longrightarrow> (\<exists>g. g \<notin> set order \<and> (g, c) \<in> reads_of (group_readers m) ?n)"
    by (auto simp: order_run_def Let_def)
  moreover have "least_first (group_readers m) ?n order"
    using heap.kahn_least_first[OF group_readers_closed start ready] run by (simp add: order_run_def Let_def)
  ultimately show ?thesis
    using complete_iff_acyclic[OF group_readers_closed o rest] by (simp add: reads_of_readers[OF assms])
qed

section \<open>Properties of the order\<close>

text \<open>
  C16: On a memo whose reads stay inside it the traversal order is always computed, without a panic, and
  it is refused exactly when the reads have a cycle, a group reading itself included.
\<close>

theorem topological_order_refuses_cycles:
  assumes "reads_closed m"
  shows "\<exists>r. topological_order m = Some r \<and> (r = None \<longleftrightarrow> \<not> acyclic (reads_in m))"
  using order_run_spec[OF assms] by (auto simp: topological_order_run[OF assms])

lemma as_u32_id: "g < n \<Longrightarrow> n \<le> 2 ^ 32 \<Longrightarrow> as_u32 g = g"
  by (simp add: as_u32_def)

text \<open>
  C17: The order lists every group once, each after every group it or one of its candidates reads, and
  at each place the least group among those whose reads are all listed: no other order is possible.
\<close>

theorem topological_order_least:
  assumes "reads_closed m" "length (memo_groups m) \<le> 2 ^ 32" "topological_order m = Some (Some order)"
  shows "distinct order \<and> set order = {..<length (memo_groups m)}
    \<and> (\<forall>i < length order.
         (\<forall>g. (g, order ! i) \<in> reads_in m \<longrightarrow> g \<in> set (take i order))
         \<and> (\<forall>c < length (memo_groups m). c \<notin> set (take i order)
              \<longrightarrow> (\<forall>g. (g, c) \<in> reads_in m \<longrightarrow> g \<in> set (take i order)) \<longrightarrow> order ! i \<le> c))"
proof -
  let ?n = "length (memo_groups m)"
  from order_run_spec[OF assms(1)] obtain run where run: "order_run m = Some run"
    and d: "dependency_order (group_readers m) ?n run" and l: "least_first (group_readers m) ?n run" by blast
  have sub: "set run \<subseteq> {..<?n}" and dist: "distinct run" using d by (auto simp: dependency_order_def)
  from assms(3) run have order: "order = map as_u32 run" and len: "length run = ?n"
    by (auto simp: topological_order_run[OF assms(1)] split: if_splits)
  have "map as_u32 run = run" using sub assms(2) by (intro map_idI) (auto simp: as_u32_id)
  with order have order: "order = run" by simp
  have "set run = {..<?n}" using sub dist len card_subset_eq[of "{..<?n}" "set run"] by (simp add: distinct_card)
  with d l dist show ?thesis
    unfolding order dependency_order_def least_first_def reads_of_readers[OF assms(1)] by blast
qed

text \<open>Three groups, of which the first reads the last, which has a candidate reading the second.\<close>

definition sample_memo :: memo where
  "sample_memo =
     (let group = (\<lambda>reads. \<lparr>logical_node = sample_scan, child_groups = reads, parent_groups = [],
                              reached_by_queries = []\<rparr>)
      in \<lparr>memo_groups = [group [2, 2], group [], group []], memo_query_roots = [OperatorRoot 0],
          memo_candidates = [[], [], [\<lparr>fused_groups = [], candidate_root = sample_scan, input_groups = [1],
            candidate_origin = RollupOrigin, accuracy_budget_parts = 1\<rparr>]]\<rparr>)"

lemma sample_memo_reads:
  "length (memo_groups sample_memo) = 3" "group_reads sample_memo 0 = [2]" "group_reads sample_memo 1 = []"
  "group_reads sample_memo 2 = [1]"
  by code_simp+

lemma sample_memo_closed: "reads_closed sample_memo"
proof -
  have "g < 3" if "c < 3" "g \<in> set (group_reads sample_memo c)" for g c
  proof -
    from that(1) have "c = 0 \<or> c = 1 \<or> c = 2" by auto
    with that(2) show ?thesis by (elim disjE) (simp_all add: sample_memo_reads del: One_nat_def)
  qed
  then show ?thesis by (auto simp: reads_closed_def reads_in_def sample_memo_reads(1))
qed

lemma sample_memo_order: "topological_order sample_memo = Some (Some [1, 2, 0])"
proof -
  have "order_run sample_memo = Some [1, 2, 0]" by code_simp
  then show ?thesis by (simp add: topological_order_run[OF sample_memo_closed] sample_memo_reads as_u32_def)
qed

theorem topological_order_refuses_cycles_witness: "acyclic (reads_in sample_memo)"
  using topological_order_refuses_cycles[OF sample_memo_closed] by (simp add: sample_memo_order)

theorem topological_order_least_witness: "set [1, 2, 0::nat] = {..<length (memo_groups sample_memo)}"
  using topological_order_least[OF sample_memo_closed _ sample_memo_order] by (simp add: sample_memo_reads)

end
