(* ===== verification/Candidates.thy ===== *)
theory Candidates
  imports Memo
begin

text \<open>
  Stage 2's output (\<^verbatim>\<open>crates/types/src/stages/physical/memo_candidates.rs\<close>): the operator nodes of the
  implementation candidates, each with the timings and materializations allowed, and the index of
  implementation roots by group. Ids are indices; an index out of range panics (\<open>None\<close>).
\<close>

section \<open>The catalog\<close>

datatype reader_constraint =
    MinimumQueryReaders nat "nat list list" nat \<comment> \<open>candidate, each query's outputs, minimum\<close>
  | HighestSharedQueryMaterialization nat "nat list list"
  | AllowedOutputs nat "nat list"
  | IncompatibleOutputs nat nat nat

fun constrained_candidate :: "reader_constraint \<Rightarrow> nat" where
  "constrained_candidate (MinimumQueryReaders c _ _) = c"
| "constrained_candidate (HighestSharedQueryMaterialization c _) = c"
| "constrained_candidate (AllowedOutputs c _) = c"
| "constrained_candidate (IncompatibleOutputs c _ _) = c"

record candidate_id =
  of_group :: nat
  candidate_index :: nat

record candidate_operator_node =
  implemented_candidates :: "candidate_id list"
  is_implementation_root :: bool
  node_budget_parts :: nat
  physical_operator_node :: operator_node

record physical_candidate =
  operator_node_index :: nat
  candidate_timing :: execution_timing
  candidate_materialization :: materialization
  producers_per_input :: "nat list list"
  may_produce_query_output :: bool
  may_keep_per_sole_reader :: "bool list"

record physical_catalog =
  catalog_nodes :: "candidate_operator_node list"
  catalog_candidates :: "physical_candidate list"
  catalog_query_roots :: "nat query_root list"
  catalog_constraints :: "reader_constraint list"
  roots_of_group :: "nat list list"
  output_groups :: "nat list"

text \<open>\<^verbatim>\<open>OperatorNodeOfCandidateForMemoGroup::group\<close>: it panics when no candidate is implemented.\<close>

definition node_group :: "candidate_operator_node \<Rightarrow> nat option" where
  "node_group n = map_option of_group (first (implemented_candidates n))"

section \<open>Output references\<close>

text \<open>\<^verbatim>\<open>output_references\<close>: a scalar root's references in the order its rebuild visits them.\<close>

fun root_references :: "'c query_root \<Rightarrow> 'c list" where
  "root_references (OperatorRoot r) = [r]"
| "root_references (ScalarRoot e) = snd (map_operator_refs_st (\<lambda>r out. (r, out @ [r])) e [])"

definition output_references :: "'c query_root list \<Rightarrow> (nat \<times> 'c) list" where
  "output_references roots =
     concat (map (\<lambda>(query, root). map (Pair query) (root_references root)) (enumerate 0 roots))"

lemma root_references_mset: "mset (root_references r) = mset (root_refs r)"
proof (cases r)
  case (ScalarRoot e)
  have rec_eq: "(\<lambda>r out. (r, out @ [r])) = recording id"
    by (simp add: recording_def fun_eq_iff)
  have "runs (map_operator_refs_st (recording id) e) (map_scalar_expr id e) (mapped_refs e)"
    by (rule runs_map_refs)
  then have "root_references r = mapped_refs e"
    unfolding ScalarRoot root_references.simps rec_eq by (simp add: runs_def)
  then show ?thesis by (simp add: ScalarRoot mapped_refs_mset)
qed simp

section \<open>The index of implementation roots\<close>

definition add_root :: "nat list list \<Rightarrow> nat \<Rightarrow> nat \<Rightarrow> nat list list" where
  "add_root roots grp cid =
     (let roots = (if length roots \<le> grp
                   then roots @ replicate (grp + 1 - length roots) [] else roots)
      in roots[grp := roots ! grp @ [cid]])"

fun index_roots ::
  "candidate_operator_node list \<Rightarrow> (nat \<times> physical_candidate) list \<Rightarrow> nat list list \<Rightarrow> nat list list option"
where
  "index_roots nodes [] roots = Some roots"
| "index_roots nodes ((cid, c) # cs) roots =
     (case get nodes (operator_node_index c) of
        None \<Rightarrow> None
      | Some n \<Rightarrow>
          if is_implementation_root n
          then (case node_group n of
                  None \<Rightarrow> None | Some g \<Rightarrow> index_roots nodes cs (add_root roots g cid))
          else index_roots nodes cs roots)"

definition catalog_new ::
  "candidate_operator_node list \<Rightarrow> physical_candidate list \<Rightarrow> nat query_root list \<Rightarrow>
     reader_constraint list \<Rightarrow> physical_catalog option" where
  "catalog_new nodes candidates roots constraints =
     map_option
       (\<lambda>index. \<lparr>catalog_nodes = nodes, catalog_candidates = candidates, catalog_query_roots = roots,
          catalog_constraints = constraints, roots_of_group = index,
          output_groups = map snd (output_references roots)\<rparr>)
       (index_roots nodes (enumerate 0 candidates) [])"

definition implementation_roots :: "physical_catalog \<Rightarrow> nat \<Rightarrow> nat list" where
  "implementation_roots p g = (case get (roots_of_group p) g of None \<Rightarrow> [] | Some ids \<Rightarrow> ids)"

definition query_output_candidates :: "physical_catalog \<Rightarrow> nat \<Rightarrow> nat list" where
  "query_output_candidates p r =
     filter (\<lambda>id. may_produce_query_output (catalog_candidates p ! id))
       (case get (output_groups p) r of None \<Rightarrow> [] | Some g \<Rightarrow> implementation_roots p g)"

definition output_reference_count :: "physical_catalog \<Rightarrow> nat" where
  "output_reference_count p = length (output_groups p)"

definition physical_node :: "physical_catalog \<Rightarrow> nat \<Rightarrow> operator_node option" where
  "physical_node p c =
     (case get (catalog_candidates p) c of
        None \<Rightarrow> None
      | Some x \<Rightarrow> map_option physical_operator_node (get (catalog_nodes p) (operator_node_index x)))"

definition memo_group_of :: "physical_catalog \<Rightarrow> nat \<Rightarrow> nat option" where
  "memo_group_of p c =
     (case get (catalog_candidates p) c of
        None \<Rightarrow> None
      | Some x \<Rightarrow> (case get (catalog_nodes p) (operator_node_index x) of
                   None \<Rightarrow> None | Some n \<Rightarrow> node_group n))"

text \<open>What the index holds.\<close>

definition is_root_of ::
  "candidate_operator_node list \<Rightarrow> nat \<Rightarrow> physical_candidate \<Rightarrow> bool" where
  "is_root_of nodes g c \<longleftrightarrow>
     (case get nodes (operator_node_index c) of
        None \<Rightarrow> False | Some n \<Rightarrow> is_implementation_root n \<and> node_group n = Some g)"

definition roots_at :: "nat list list \<Rightarrow> nat \<Rightarrow> nat list" where
  "roots_at roots g = (case get roots g of None \<Rightarrow> [] | Some ids \<Rightarrow> ids)"

lemma roots_at_add: "roots_at (add_root roots g cid) h = roots_at roots h @ (if h = g then [cid] else [])"
  by (auto simp: roots_at_def add_root_def get_def Let_def nth_append nth_list_update)

lemma index_roots_at:
  "index_roots nodes cs roots = Some index \<Longrightarrow>
   roots_at index g = roots_at roots g @ map fst (filter (\<lambda>(_, c). is_root_of nodes g c) cs)"
  by (induction nodes cs roots rule: index_roots.induct)
    (auto simp: is_root_of_def roots_at_add split: option.splits if_splits)

lemma index_roots_total:
  "(\<And>c. c \<in> snd ` set cs \<Longrightarrow> \<exists>n. get nodes (operator_node_index c) = Some n \<and> implemented_candidates n \<noteq> []) \<Longrightarrow>
   \<exists>index. index_roots nodes cs roots = Some index"
proof (induction nodes cs roots rule: index_roots.induct)
  case (2 nodes cid c cs roots)
  then obtain n where n: "get nodes (operator_node_index c) = Some n" "implemented_candidates n \<noteq> []"
    by fastforce
  then obtain g where g: "node_group n = Some g"
    by (cases "implemented_candidates n") (simp_all add: node_group_def)
  have rest: "\<And>c. c \<in> snd ` set cs \<Longrightarrow>
      \<exists>n. get nodes (operator_node_index c) = Some n \<and> implemented_candidates n \<noteq> []"
    using 2(3) by simp
  show ?case
    using 2(1)[OF n(1) _ g rest] 2(2)[OF n(1) _ rest] by (simp add: n(1) g)
qed simp

lemma enumerate_filter_indices:
  "map fst (filter (\<lambda>(_, c). P c) (enumerate 0 xs)) = filter (\<lambda>i. P (xs ! i)) [0..<length xs]"
proof (induction xs rule: rev_induct)
  case (snoc x xs)
  have "filter (\<lambda>i. P ((xs @ [x]) ! i)) [0..<length xs] = filter (\<lambda>i. P (xs ! i)) [0..<length xs]"
    by (rule filter_cong) (auto simp: nth_append)
  with snoc show ?case by (simp add: enumerate_append_eq)
qed simp

lemma indexed_roots:
  assumes "catalog_new nodes candidates roots constraints = Some p"
  shows "implementation_roots p g =
      filter (\<lambda>id. is_root_of nodes g (candidates ! id)) [0..<length candidates]"
proof -
  from assms obtain index where i: "index_roots nodes (enumerate 0 candidates) [] = Some index"
    and p: "roots_of_group p = index"
    by (auto simp: catalog_new_def)
  have "map fst (filter (\<lambda>(_, c). is_root_of nodes g c) (enumerate 0 candidates))
      = filter (\<lambda>id. is_root_of nodes g (candidates ! id)) [0..<length candidates]"
    by (simp add: enumerate_filter_indices)
  then show ?thesis
    using index_roots_at[OF i, of g] by (simp add: implementation_roots_def roots_at_def p get_def)
qed

lemma catalog_new_fields:
  assumes "catalog_new nodes candidates roots constraints = Some p"
  shows "catalog_nodes p = nodes" "catalog_candidates p = candidates" "catalog_query_roots p = roots"
    "catalog_constraints p = constraints" "output_groups p = map snd (output_references roots)"
  using assms by (auto simp: catalog_new_def)

lemma offered_candidates:
  assumes new: "catalog_new nodes candidates roots constraints = Some p" and r: "r < output_reference_count p"
  shows "query_output_candidates p r =
    filter (\<lambda>id. is_root_of nodes (output_groups p ! r) (candidates ! id)
                 \<and> may_produce_query_output (candidates ! id)) [0..<length candidates]"
  using r indexed_roots[OF new] catalog_new_fields[OF new]
  by (simp add: query_output_candidates_def output_reference_count_def get_def conj_commute)

text \<open>
  C18: The catalog indexes exactly the implementation roots of each group, ascending, and offers for an
  output reference exactly those of its group that may produce a query's output.
\<close>

theorem catalog_index_exact:
  assumes "catalog_new nodes candidates roots constraints = Some p"
  shows "implementation_roots p g =
      filter (\<lambda>id. is_root_of nodes g (candidates ! id)) [0..<length candidates]
    \<and> (r < output_reference_count p \<longrightarrow> query_output_candidates p r =
         filter (\<lambda>id. is_root_of nodes (output_groups p ! r) (candidates ! id)
                      \<and> may_produce_query_output (candidates ! id)) [0..<length candidates])"
  using indexed_roots[OF assms] offered_candidates[OF assms] by simp

section \<open>A catalog\<close>

text \<open>
  Three candidates of three groups; the last has two inputs, each of which the first two may produce,
  and produces the query's output.
\<close>

definition sample_catalog_nodes :: "candidate_operator_node list" where
  "sample_catalog_nodes = map (\<lambda>g. \<lparr>implemented_candidates = [\<lparr>of_group = g, candidate_index = 0\<rparr>],
     is_implementation_root = True, node_budget_parts = 1, physical_operator_node = sample_scan\<rparr>) [0, 1, 2]"

definition sample_catalog_candidates :: "physical_candidate list" where
  "sample_catalog_candidates = map (\<lambda>i. \<lparr>operator_node_index = i, candidate_timing = QueryTime,
     candidate_materialization = NotMaterialized,
     producers_per_input = (if i = 2 then [[0, 1], [0, 1]] else []),
     may_produce_query_output = (i = 2), may_keep_per_sole_reader = []\<rparr>) [0, 1, 2]"

definition sample_catalog :: physical_catalog where
  "sample_catalog = \<lparr>catalog_nodes = sample_catalog_nodes, catalog_candidates = sample_catalog_candidates,
     catalog_query_roots = [OperatorRoot 2], catalog_constraints = [MinimumQueryReaders 0 [[0]] 1, AllowedOutputs 1 [0]],
     roots_of_group = [[0], [1], [2]], output_groups = [2]\<rparr>"

lemma sample_catalog_new:
  "catalog_new sample_catalog_nodes sample_catalog_candidates [OperatorRoot 2]
     [MinimumQueryReaders 0 [[0]] 1, AllowedOutputs 1 [0]] = Some sample_catalog"
  by code_simp

lemma sample_catalog_counts:
  "length sample_catalog_candidates = 3" "output_reference_count sample_catalog = 1"
  "output_groups sample_catalog ! 0 = 2"
  by (simp_all add: sample_catalog_candidates_def sample_catalog_def output_reference_count_def)

theorem catalog_index_exact_witness:
  "implementation_roots sample_catalog 1 =
     filter (\<lambda>i. is_root_of sample_catalog_nodes 1 (sample_catalog_candidates ! i)) [0..<3]
   \<and> query_output_candidates sample_catalog 0 =
     filter (\<lambda>i. is_root_of sample_catalog_nodes 2 (sample_catalog_candidates ! i)
                 \<and> may_produce_query_output (sample_catalog_candidates ! i)) [0..<3]"
proof -
  have one: "0 < (1 :: nat)" by simp
  note c = catalog_index_exact[OF sample_catalog_new, of 1 0, unfolded sample_catalog_counts]
  show ?thesis using conjunct1[OF c] mp[OF conjunct2[OF c] one] by (rule conjI)
qed

end
