(* ===== verification/Search.thy ===== *)
theory Search
  imports Prelude
begin

text \<open>
  Exploring a graph of indices from a stack of pending nodes, as the output reach of
  \<^verbatim>\<open>stages/physical/graph.rs\<close> does, and the searches that stop at a panic. The end of the list is the
  top of the stack.
\<close>

section \<open>Exploration\<close>

partial_function (option) explore :: "(nat \<Rightarrow> nat list) \<Rightarrow> nat list \<Rightarrow> nat set \<Rightarrow> nat set option" where
  [code]: "explore succs pending reached =
     (if pending = [] then Some reached
      else if last pending \<in> reached then explore succs (butlast pending) reached
      else explore succs (butlast pending @ succs (last pending)) (insert (last pending) reached))"

definition steps_of :: "(nat \<Rightarrow> nat list) \<Rightarrow> (nat \<times> nat) set" where
  "steps_of succs = {(a, b). b \<in> set (succs a)}"

definition explored :: "(nat \<Rightarrow> nat list) \<Rightarrow> nat list \<Rightarrow> nat set \<Rightarrow> bool" where
  "explored succs pending reached \<longleftrightarrow> steps_of succs `` reached \<subseteq> reached \<union> set pending"

lemma explored_visit:
  "explored succs pending reached \<Longrightarrow> pending \<noteq> [] \<Longrightarrow>
   explored succs (butlast pending @ succs (last pending)) (insert (last pending) reached)"
  by (cases pending rule: rev_cases) (auto simp: explored_def steps_of_def)

lemma explored_skip:
  "explored succs pending reached \<Longrightarrow> pending \<noteq> [] \<Longrightarrow> last pending \<in> reached \<Longrightarrow>
   explored succs (butlast pending) reached"
  by (cases pending rule: rev_cases) (auto simp: explored_def)

lemma explore_ends:
  assumes "finite S" "\<forall>a \<in> S. set (succs a) \<subseteq> S"
  shows "set pending \<subseteq> S \<Longrightarrow> reached \<subseteq> S \<Longrightarrow> explored succs pending reached \<Longrightarrow>
    \<exists>R. explore succs pending reached = Some R \<and> reached \<union> set pending \<subseteq> R
      \<and> steps_of succs `` R \<subseteq> R \<and> R \<subseteq> reached \<union> (steps_of succs)\<^sup>* `` set pending"
proof (induction "(card (S - reached), length pending)" arbitrary: pending reached
    rule: wf_induct_rule[OF wf_lex_prod[OF wf_less_than wf_less_than]])
  case 1
  show ?case
  proof (cases pending rule: rev_cases)
    case Nil
    with 1(4) show ?thesis by (subst explore.simps) (auto simp: explored_def)
  next
    case (snoc ps p)
    show ?thesis
    proof (cases "p \<in> reached")
      case True
      have "((card (S - reached), length ps), (card (S - reached), length pending)) \<in> less_than <*lex*> less_than"
        using snoc by simp
      moreover have "explored succs ps reached" using explored_skip[OF 1(4)] snoc True by simp
      ultimately obtain R where "explore succs ps reached = Some R" "reached \<union> set ps \<subseteq> R"
        "steps_of succs `` R \<subseteq> R" "R \<subseteq> reached \<union> (steps_of succs)\<^sup>* `` set ps"
        using 1(1)[of reached ps] 1(2,3) snoc by auto
      with True snoc show ?thesis by (subst explore.simps) auto
    next
      case False
      have p: "p \<in> S" using 1(2) snoc by simp
      then have "card (S - insert p reached) < card (S - reached)"
        using False assms(1) by (intro psubset_card_mono) auto
      then have lt: "((card (S - insert p reached), length (ps @ succs p)), (card (S - reached), length pending))
          \<in> less_than <*lex*> less_than" by simp
      have "explored succs (ps @ succs p) (insert p reached)" using explored_visit[OF 1(4)] snoc by simp
      then obtain R where R: "explore succs (ps @ succs p) (insert p reached) = Some R"
        "insert p reached \<union> set (ps @ succs p) \<subseteq> R" "steps_of succs `` R \<subseteq> R"
        "R \<subseteq> insert p reached \<union> (steps_of succs)\<^sup>* `` set (ps @ succs p)"
        using 1(1)[OF lt] 1(2,3) snoc p assms(2) by auto
      have "(steps_of succs)\<^sup>* `` set (succs p) \<subseteq> (steps_of succs)\<^sup>* `` {p}"
        by (auto simp: steps_of_def intro: converse_rtrancl_into_rtrancl)
      then have "(steps_of succs)\<^sup>* `` set (ps @ succs p) \<subseteq> (steps_of succs)\<^sup>* `` set pending"
        unfolding snoc by (auto simp: Image_Un)
      moreover have "p \<in> (steps_of succs)\<^sup>* `` set pending" using snoc by auto
      ultimately have "R \<subseteq> reached \<union> (steps_of succs)\<^sup>* `` set pending" using R(4) by blast
      with R(1-3) False snoc show ?thesis by (subst explore.simps) auto
    qed
  qed
qed

lemma closed_rtrancl: "r `` R \<subseteq> R \<Longrightarrow> a \<in> R \<Longrightarrow> (a, b) \<in> r\<^sup>* \<Longrightarrow> b \<in> R"
  by (rule rtrancl_induct) auto

text \<open>From an empty start the exploration returns what is reachable, and it returns.\<close>

lemma explore_reachable:
  assumes "finite S" "\<forall>a \<in> S. set (succs a) \<subseteq> S" "set pending \<subseteq> S"
  shows "explore succs pending {} = Some ((steps_of succs)\<^sup>* `` set pending)"
proof -
  from explore_ends[OF assms, of "{}"] obtain R where
    R: "explore succs pending {} = Some R" "set pending \<subseteq> R" "steps_of succs `` R \<subseteq> R"
    "R \<subseteq> (steps_of succs)\<^sup>* `` set pending"
    by (auto simp: explored_def)
  moreover have "(steps_of succs)\<^sup>* `` set pending \<subseteq> R"
    using closed_rtrancl[OF R(3)] R(2) by blast
  ultimately show ?thesis by auto
qed

section \<open>Searches that may panic\<close>

fun any_opt :: "('a \<Rightarrow> bool option) \<Rightarrow> 'a list \<Rightarrow> bool option" where
  "any_opt f [] = Some False"
| "any_opt f (x # xs) =
     (case f x of None \<Rightarrow> None | Some True \<Rightarrow> Some True | Some False \<Rightarrow> any_opt f xs)"

fun count_opt :: "('a \<Rightarrow> bool option) \<Rightarrow> 'a list \<Rightarrow> nat option" where
  "count_opt f [] = Some 0"
| "count_opt f (x # xs) =
     (case f x of None \<Rightarrow> None
      | Some b \<Rightarrow> map_option (\<lambda>k. if b then Suc k else k) (count_opt f xs))"

lemma any_opt_total: "(\<And>x. x \<in> set xs \<Longrightarrow> f x = Some (g x)) \<Longrightarrow> any_opt f xs = Some (\<exists>x \<in> set xs. g x)"
  by (induction xs) (auto split: bool.splits)

lemma count_opt_total: "(\<And>x. x \<in> set xs \<Longrightarrow> f x = Some (g x)) \<Longrightarrow> count_opt f xs = Some (length (filter g xs))"
  by (induction xs) auto

end
