(* ===== verification/SelectedDag.thy ===== *)
theory SelectedDag
  imports Candidates Search
begin

text \<open>
  The selected plan as a DAG with one node per run of a candidate, and its structural check
  (\<^verbatim>\<open>crates/types/src/stages/physical/graph.rs\<close>). The check reports an error or panics on an output index
  of a reader constraint that is out of range.
\<close>

section \<open>The DAG\<close>

record selected_edge =
  producer :: nat
  consumer :: nat
  edge_input :: nat

record selected_dag =
  candidate_of_node :: "nat list"
  selected_edges :: "selected_edge list"
  node_of_output :: "nat list"

datatype selection_failure = InvalidSelection string | SelectionPanicked

definition structure_error :: selection_failure where
  "structure_error = InvalidSelection ''decoded candidate selection violates dependency or root constraints''"

definition reader_error :: selection_failure where
  "reader_error = InvalidSelection ''decoded selection violates selected-reader compatibility''"

definition require :: "bool \<Rightarrow> selection_failure \<Rightarrow> selection_failure + unit" where
  "require ok e = (if ok then Ok () else Err e)"

lemma require_iff [simp]: "require ok e = Inr u \<longleftrightarrow> ok"
  by (simp add: require_def)

lemma require_simps [simp]: "require True e = Inr ()" "require False e = Inl e"
  by (simp_all add: require_def)

lemma bind_require: "bind_result (require P e) k = (if P then k () else Err e)"
  by (simp add: require_def)

lemma if_and: "(if A \<and> B then x else e) = (if A then if B then x else e else e)"
  by simp

definition node_count :: "selected_dag \<Rightarrow> nat" where
  "node_count d = length (candidate_of_node d)"

section \<open>The edges\<close>

text \<open>
  Per node and input the node producing it, and per node its consumers; an edge that does not fit, or a
  second edge to one input, is an error.
\<close>

type_synonym edge_tables = "nat option list list \<times> nat list list"

definition add_edge ::
  "selected_dag \<Rightarrow> (nat \<Rightarrow> nat \<Rightarrow> nat list option) \<Rightarrow> selected_edge \<Rightarrow> edge_tables \<Rightarrow>
     selection_failure + edge_tables" where
  "add_edge d producers_of_input e tables =
     (case tables of (producers, consumers) \<Rightarrow>
      if producer e \<ge> node_count d \<or> consumer e \<ge> node_count d then Err structure_error
      else
        (case producers_of_input (candidate_of_node d ! consumer e) (edge_input e) of
           None \<Rightarrow> Err structure_error
         | Some allowed \<Rightarrow>
             (case get (producers ! consumer e) (edge_input e) of
                None \<Rightarrow> Err structure_error
              | Some target \<Rightarrow>
                  if target \<noteq> None \<or> candidate_of_node d ! producer e \<notin> set allowed
                  then Err structure_error
                  else Ok (producers[consumer e := (producers ! consumer e)[edge_input e := Some (producer e)]],
                           consumers[producer e := consumers ! producer e @ [consumer e]]))))"

fun add_edges ::
  "selected_dag \<Rightarrow> (nat \<Rightarrow> nat \<Rightarrow> nat list option) \<Rightarrow> selected_edge list \<Rightarrow> edge_tables \<Rightarrow>
     selection_failure + edge_tables" where
  "add_edges d producers_of_input [] tables = Ok tables"
| "add_edges d producers_of_input (e # es) tables =
     bind_result (add_edge d producers_of_input e tables) (add_edges d producers_of_input es)"

section \<open>Reader constraints\<close>

text \<open>\<^verbatim>\<open>queries_reaching\<close>: the queries one of whose outputs reaches a node.\<close>

definition reached_by_output :: "nat set list \<Rightarrow> nat \<Rightarrow> nat \<Rightarrow> bool option" where
  "reached_by_output reach node r = map_option (\<lambda>R. node \<in> R) (get reach r)"

definition queries_reaching :: "nat set list \<Rightarrow> nat \<Rightarrow> nat list list \<Rightarrow> nat option" where
  "queries_reaching reach node query_outputs =
     count_opt (any_opt (reached_by_output reach node)) query_outputs"

fun violated ::
  "nat set list \<Rightarrow> nat list \<Rightarrow> nat list list \<Rightarrow> reader_constraint \<Rightarrow> nat \<Rightarrow> bool option" where
  "violated reach outputs consumers (MinimumQueryReaders _ query_outputs minimum) node =
     map_option (\<lambda>k. k < minimum) (queries_reaching reach node query_outputs)"
| "violated reach outputs consumers (HighestSharedQueryMaterialization _ query_outputs) node =
     (if node \<in> set outputs then Some False
      else map_option (\<lambda>b. \<not> b)
             (any_opt (\<lambda>c. map_option (\<lambda>k. k \<le> 1) (queries_reaching reach c query_outputs)) (consumers ! node)))"
| "violated reach outputs consumers (AllowedOutputs _ allowed) node =
     Some (list_ex (\<lambda>r. r \<notin> set allowed \<and> node \<in> reach ! r) [0..<length reach])"
| "violated reach outputs consumers (IncompatibleOutputs _ l r) node =
     (case reached_by_output reach node l of
        None \<Rightarrow> None
      | Some False \<Rightarrow> Some False
      | Some True \<Rightarrow> reached_by_output reach node r)"

fun check_constraints ::
  "selected_dag \<Rightarrow> nat set list \<Rightarrow> nat list list \<Rightarrow> reader_constraint list \<Rightarrow> selection_failure + unit" where
  "check_constraints d reach consumers [] = Ok ()"
| "check_constraints d reach consumers (k # ks) =
     (case any_opt (violated reach (node_of_output d) consumers k)
             (filter (\<lambda>n. candidate_of_node d ! n = constrained_candidate k) [0..<node_count d]) of
        None \<Rightarrow> Err SelectionPanicked
      | Some True \<Rightarrow> Err reader_error
      | Some False \<Rightarrow> check_constraints d reach consumers ks)"

section \<open>The check\<close>

definition input_nodes :: "nat option list list \<Rightarrow> nat \<Rightarrow> nat list" where
  "input_nodes producers node = List.map_filter (\<lambda>p. p) (producers ! node)"

definition output_reach :: "selected_dag \<Rightarrow> nat option list list \<Rightarrow> nat set list option" where
  "output_reach d producers = collect_option (\<lambda>r. explore (input_nodes producers) [r] {}) (node_of_output d)"

definition run_order :: "selected_dag \<Rightarrow> edge_tables \<Rightarrow> nat list option" where
  "run_order d tables =
     (case tables of (producers, consumers) \<Rightarrow>
      let outstanding = map length producers
      in kahn stack_push stack_pop (\<lambda>g. consumers ! g) outstanding
           (filter (\<lambda>i. outstanding ! i = 0) [0..<node_count d]) [])"

text \<open>\<^verbatim>\<open>validate_against\<close>; \<open>None\<close> of the two loops is a panic.\<close>

definition validate_against ::
  "selected_dag \<Rightarrow> nat \<Rightarrow> (nat \<Rightarrow> nat) \<Rightarrow> (nat \<Rightarrow> nat \<Rightarrow> nat list option) \<Rightarrow> nat list list \<Rightarrow>
     reader_constraint list \<Rightarrow> selection_failure + unit" where
  "validate_against d candidate_count input_count producers_of_input output_candidates constraints =
     bind_result (require (list_all (\<lambda>c. c < candidate_count) (candidate_of_node d)
                           \<and> length (node_of_output d) = length output_candidates) structure_error) (\<lambda>_.
     bind_result (require (list_all (\<lambda>(n, allowed). n < node_count d \<and> candidate_of_node d ! n \<in> set allowed)
                             (zip (node_of_output d) output_candidates)) structure_error) (\<lambda>_.
     bind_result (add_edges d producers_of_input (selected_edges d)
                    (map (\<lambda>c. replicate (input_count c) None) (candidate_of_node d),
                     replicate (node_count d) [])) (\<lambda>(producers, consumers).
     bind_result (require (list_all (list_all (\<lambda>p. p \<noteq> None)) producers) structure_error) (\<lambda>_.
     bind_result (ok_or SelectionPanicked (run_order d (producers, consumers))) (\<lambda>order.
     bind_result (require (length order = node_count d) structure_error) (\<lambda>_.
     bind_result (ok_or SelectionPanicked (output_reach d producers)) (\<lambda>reach.
     bind_result (require (list_all (\<lambda>n. list_ex (\<lambda>R. n \<in> R) reach) [0..<node_count d]) structure_error) (\<lambda>_.
     check_constraints d reach consumers constraints))))))))"

definition inputs_of :: "physical_catalog \<Rightarrow> nat \<Rightarrow> nat list list" where
  "inputs_of p c = producers_per_input (catalog_candidates p ! c)"

definition validate_selection :: "physical_catalog \<Rightarrow> selected_dag \<Rightarrow> selection_failure + unit" where
  "validate_selection p d =
     validate_against d (length (catalog_candidates p)) (\<lambda>c. length (inputs_of p c))
       (\<lambda>c i. get (inputs_of p c) i)
       (map (query_output_candidates p) [0..<output_reference_count p]) (catalog_constraints p)"

section \<open>What the check promises\<close>

definition feeds :: "selected_dag \<Rightarrow> (nat \<times> nat) set" where
  "feeds d = (\<lambda>e. (producer e, consumer e)) ` set (selected_edges d)"

definition edge_fits :: "physical_catalog \<Rightarrow> selected_dag \<Rightarrow> selected_edge \<Rightarrow> bool" where
  "edge_fits p d e \<longleftrightarrow>
     producer e < node_count d \<and> consumer e < node_count d
     \<and> edge_input e < length (inputs_of p (candidate_of_node d ! consumer e))
     \<and> candidate_of_node d ! producer e \<in> set (inputs_of p (candidate_of_node d ! consumer e) ! edge_input e)"

text \<open>An output reference reads a node when the node feeds its producer, directly or not.\<close>

definition reads_node :: "selected_dag \<Rightarrow> nat \<Rightarrow> nat \<Rightarrow> bool" where
  "reads_node d r node \<longleftrightarrow> (node, node_of_output d ! r) \<in> (feeds d)\<^sup>*"

definition sound_structure :: "physical_catalog \<Rightarrow> selected_dag \<Rightarrow> bool" where
  "sound_structure p d \<longleftrightarrow>
     (\<forall>c \<in> set (candidate_of_node d). c < length (catalog_candidates p))
     \<and> list_all2 (\<lambda>node r. node < node_count d \<and> candidate_of_node d ! node \<in> set (query_output_candidates p r))
         (node_of_output d) [0..<output_reference_count p]
     \<and> (\<forall>e \<in> set (selected_edges d). edge_fits p d e)
     \<and> (\<forall>c < node_count d. \<forall>i < length (inputs_of p (candidate_of_node d ! c)).
          length (filter (\<lambda>e. consumer e = c \<and> edge_input e = i) (selected_edges d)) = 1)
     \<and> acyclic (feeds d)
     \<and> (\<forall>node < node_count d. \<exists>r < length (node_of_output d). reads_node d r node)"

definition queries_of :: "selected_dag \<Rightarrow> nat list list \<Rightarrow> nat \<Rightarrow> nat" where
  "queries_of d query_outputs node = length (filter (\<lambda>rs. \<exists>r \<in> set rs. reads_node d r node) query_outputs)"

fun keeps_constraint :: "selected_dag \<Rightarrow> reader_constraint \<Rightarrow> nat \<Rightarrow> bool" where
  "keeps_constraint d (MinimumQueryReaders _ qs minimum) node \<longleftrightarrow> minimum \<le> queries_of d qs node"
| "keeps_constraint d (HighestSharedQueryMaterialization _ qs) node \<longleftrightarrow>
     node \<in> set (node_of_output d) \<or> (\<exists>c. (node, c) \<in> feeds d \<and> queries_of d qs c \<le> 1)"
| "keeps_constraint d (AllowedOutputs _ allowed) node \<longleftrightarrow>
     (\<forall>r < length (node_of_output d). reads_node d r node \<longrightarrow> r \<in> set allowed)"
| "keeps_constraint d (IncompatibleOutputs _ l r) node \<longleftrightarrow> \<not> (reads_node d l node \<and> reads_node d r node)"

fun in_outputs :: "nat \<Rightarrow> reader_constraint \<Rightarrow> bool" where
  "in_outputs n (MinimumQueryReaders _ qs _) \<longleftrightarrow> (\<forall>rs \<in> set qs. set rs \<subseteq> {..<n})"
| "in_outputs n (HighestSharedQueryMaterialization _ qs) \<longleftrightarrow> (\<forall>rs \<in> set qs. set rs \<subseteq> {..<n})"
| "in_outputs n (AllowedOutputs _ _) \<longleftrightarrow> True"
| "in_outputs n (IncompatibleOutputs _ l r) \<longleftrightarrow> l < n \<and> r < n"

section \<open>The tables\<close>

definition key :: "selected_edge \<Rightarrow> nat \<times> nat" where
  "key e = (consumer e, edge_input e)"

definition producer_table :: "physical_catalog \<Rightarrow> selected_dag \<Rightarrow> selected_edge list \<Rightarrow> nat option list list" where
  "producer_table p d es =
     map (\<lambda>c. map (\<lambda>i. map_option producer (find (\<lambda>e. key e = (c, i)) es))
                [0..<length (inputs_of p (candidate_of_node d ! c))])
       [0..<node_count d]"

definition consumer_table :: "selected_dag \<Rightarrow> selected_edge list \<Rightarrow> nat list list" where
  "consumer_table d es =
     map (\<lambda>n. map consumer (filter (\<lambda>e. producer e = n) es)) [0..<node_count d]"

lemma find_snoc: "find P (xs @ [x]) = (case find P xs of None \<Rightarrow> if P x then Some x else None | Some y \<Rightarrow> Some y)"
  by (induction xs) auto

lemma find_key: "find (\<lambda>e. key e = k) es = None \<longleftrightarrow> k \<notin> key ` set es"
  by (auto simp: find_None_iff)

lemma producer_table_snoc:
  assumes "edge_fits p d e" "key e \<notin> key ` set es"
  shows "producer_table p d (es @ [e]) =
    (producer_table p d es)[consumer e := (producer_table p d es ! consumer e)[edge_input e := Some (producer e)]]"
proof -
  have none: "find (\<lambda>x. key x = (consumer e, edge_input e)) es = None"
    using assms(2) unfolding find_key by (simp add: key_def[of e])
  have lt: "consumer e < node_count d" using assms(1) by (simp add: edge_fits_def)
  show ?thesis
  proof (rule nth_equalityI)
    fix c assume c: "c < length (producer_table p d (es @ [e]))"
    show "producer_table p d (es @ [e]) ! c =
      ((producer_table p d es)[consumer e := (producer_table p d es ! consumer e)[edge_input e := Some (producer e)]]) ! c"
      using c lt none
      by (cases "c = consumer e")
        (auto simp: producer_table_def find_snoc key_def nth_list_update intro!: nth_equalityI split: option.split)
  qed (simp add: producer_table_def)
qed

lemma consumer_table_snoc:
  "producer e < node_count d \<Longrightarrow> consumer_table d (es @ [e]) =
     (consumer_table d es)[producer e := consumer_table d es ! producer e @ [consumer e]]"
  by (auto simp: consumer_table_def nth_list_update intro!: nth_equalityI)

lemma add_edge_tables:
  "add_edge d (\<lambda>c i. get (inputs_of p c) i) e (producer_table p d es, consumer_table d es) =
     (if edge_fits p d e \<and> key e \<notin> key ` set es
      then Ok (producer_table p d (es @ [e]), consumer_table d (es @ [e])) else Err structure_error)"
proof (cases "consumer e < node_count d \<and> edge_input e < length (inputs_of p (candidate_of_node d ! consumer e))")
  case True
  then have "get (producer_table p d es ! consumer e) (edge_input e)
      = Some (map_option producer (find (\<lambda>x. key x = key e) es))"
    by (simp add: producer_table_def get_def key_def[of e])
  with True show ?thesis
    by (auto simp: add_edge_def edge_fits_def get_def find_key producer_table_snoc consumer_table_snoc
        split: option.splits)
qed (auto simp: add_edge_def edge_fits_def get_def split: option.splits)

lemma add_edges_tables:
  "add_edges d (\<lambda>c i. get (inputs_of p c) i) es (producer_table p d ds, consumer_table d ds) =
     (if (\<forall>e \<in> set es. edge_fits p d e) \<and> distinct (map key es) \<and> key ` set es \<inter> key ` set ds = {}
      then Ok (producer_table p d (ds @ es), consumer_table d (ds @ es)) else Err structure_error)"
proof (induction es arbitrary: ds)
  case (Cons e es)
  show ?case
    by (auto simp: add_edge_tables Cons.IH)
qed simp

lemma empty_tables:
  "(map (\<lambda>c. replicate (length (inputs_of p c)) None) (candidate_of_node d), replicate (node_count d) []) =
   (producer_table p d [], consumer_table d [])"
  by (auto simp: producer_table_def consumer_table_def node_count_def intro!: nth_equalityI)

section \<open>One edge per input\<close>

lemma count_list_map: "count_list (map f xs) k = length (filter (\<lambda>x. f x = k) xs)"
  by (induction xs) auto

lemma distinct_count_list_le: "distinct xs \<longleftrightarrow> (\<forall>k. count_list xs k \<le> 1)"
proof (induction xs)
  case (Cons x xs)
  have "(\<forall>k. count_list (x # xs) k \<le> 1) \<longleftrightarrow> count_list xs x = 0 \<and> (\<forall>k. count_list xs k \<le> 1)"
  proof (intro iffI conjI allI)
    assume le: "\<forall>k. count_list (x # xs) k \<le> 1"
    from le[rule_format, of x] show "count_list xs x = 0" by simp
    fix k from le[rule_format, of k] show "count_list xs k \<le> 1" by (simp split: if_splits)
  qed auto
  with Cons show ?case by (simp add: count_list_0_iff)
qed simp

definition all_inputs :: "physical_catalog \<Rightarrow> selected_dag \<Rightarrow> (nat \<times> nat) set" where
  "all_inputs p d = {(c, i). c < node_count d \<and> i < length (inputs_of p (candidate_of_node d ! c))}"

lemma one_edge_each:
  assumes "key ` set es \<subseteq> K"
  shows "(\<forall>k \<in> K. length (filter (\<lambda>e. key e = k) es) = 1) \<longleftrightarrow> distinct (map key es) \<and> K \<subseteq> key ` set es"
proof -
  have zero: "count_list (map key es) k = 0 \<longleftrightarrow> k \<notin> key ` set es" for k by (simp add: count_list_0_iff)
  show ?thesis
    unfolding distinct_count_list_le count_list_map[symmetric]
  proof (intro iffI conjI allI ballI subsetI)
    fix k assume "\<forall>k \<in> K. count_list (map key es) k = 1"
    with assms zero[of k] show "count_list (map key es) k \<le> 1" by (cases "k \<in> K") auto
  next
    fix k assume "\<forall>k \<in> K. count_list (map key es) k = 1" "k \<in> K"
    with zero[of k] show "k \<in> key ` set es" by auto
  next
    fix k assume "(\<forall>k. count_list (map key es) k \<le> 1) \<and> K \<subseteq> key ` set es" "k \<in> K"
    with zero[of k] show "count_list (map key es) k = 1" by (metis le_Suc_eq One_nat_def le_zero_eq subsetD)
  qed
qed

lemma fits_keys: "(\<forall>e \<in> set es. edge_fits p d e) \<Longrightarrow> key ` set es \<subseteq> all_inputs p d"
  by (auto simp: edge_fits_def key_def all_inputs_def)

lemma producers_complete:
  "list_all (list_all (\<lambda>x. x \<noteq> None)) (producer_table p d es) \<longleftrightarrow> all_inputs p d \<subseteq> key ` set es"
  by (auto simp: producer_table_def list_all_iff all_inputs_def find_key simp del: not_None_eq)

text \<open>What the check of the edges, taken together, says.\<close>

definition edges_sound :: "physical_catalog \<Rightarrow> selected_dag \<Rightarrow> bool" where
  "edges_sound p d \<longleftrightarrow>
     (\<forall>e \<in> set (selected_edges d). edge_fits p d e) \<and> distinct (map key (selected_edges d))
     \<and> all_inputs p d \<subseteq> key ` set (selected_edges d)"

lemma edges_sound_iff:
  "edges_sound p d \<longleftrightarrow>
     (\<forall>e \<in> set (selected_edges d). edge_fits p d e)
     \<and> (\<forall>c < node_count d. \<forall>i < length (inputs_of p (candidate_of_node d ! c)).
          length (filter (\<lambda>e. consumer e = c \<and> edge_input e = i) (selected_edges d)) = 1)"
proof -
  have "(\<forall>k \<in> all_inputs p d. length (filter (\<lambda>e. key e = k) (selected_edges d)) = 1) \<longleftrightarrow>
     (\<forall>c < node_count d. \<forall>i < length (inputs_of p (candidate_of_node d ! c)).
          length (filter (\<lambda>e. consumer e = c \<and> edge_input e = i) (selected_edges d)) = 1)"
    by (auto simp: all_inputs_def key_def)
  then show ?thesis
    using one_edge_each[OF fits_keys, of "selected_edges d" p d] unfolding edges_sound_def by blast
qed

section \<open>The order of the runs\<close>

lemma consumers_of:
  "n < node_count d \<Longrightarrow> c \<in> set (consumer_table d (selected_edges d) ! n) \<longleftrightarrow> (n, c) \<in> feeds d"
  by (auto simp: consumer_table_def feeds_def)

lemma feeds_in:
  "\<forall>e \<in> set (selected_edges d). edge_fits p d e \<Longrightarrow> feeds d \<subseteq> {..<node_count d} \<times> {..<node_count d}"
  by (auto simp: feeds_def edge_fits_def)

lemma reads_of_consumers:
  "\<forall>e \<in> set (selected_edges d). edge_fits p d e \<Longrightarrow>
   reads_of (\<lambda>g. consumer_table d (selected_edges d) ! g) (node_count d) = feeds d"
  using feeds_in[of d p] by (auto simp: reads_of_def consumers_of)

lemma sum_producers:
  "(\<forall>e \<in> set es. producer e < n) \<Longrightarrow>
   (\<Sum>g<n. length (filter (\<lambda>e. consumer e = c) (filter (\<lambda>e. producer e = g) es)))
     = length (filter (\<lambda>e. consumer e = c) es)"
proof (induction es)
  case (Cons e es)
  have "(\<Sum>g<n. length (filter (\<lambda>e. consumer e = c) (filter (\<lambda>e. producer e = g) (e # es))))
      = (\<Sum>g<n. (if g = producer e then (if consumer e = c then 1 else 0) else 0)
          + length (filter (\<lambda>e. consumer e = c) (filter (\<lambda>e. producer e = g) es)))"
    by (rule sum.cong) auto
  also have "\<dots> = (if consumer e = c then 1 else 0) + length (filter (\<lambda>e. consumer e = c) es)"
    using Cons by (simp add: sum.distrib)
  finally show ?case by simp
qed simp

lemma waits_inputs:
  assumes "edges_sound p d" "c < node_count d"
  shows "waits (\<lambda>g. consumer_table d (selected_edges d) ! g) (node_count d) {} c
    = length (inputs_of p (candidate_of_node d ! c))"
proof -
  let ?es = "selected_edges d" and ?m = "length (inputs_of p (candidate_of_node d ! c))"
  let ?mine = "filter (\<lambda>e. consumer e = c) (selected_edges d)"
  have fits: "\<forall>e \<in> set ?es. edge_fits p d e" using assms by (simp add: edges_sound_def)
  have "waits (\<lambda>g. consumer_table d ?es ! g) (node_count d) {} c
      = (\<Sum>g<node_count d. length (filter (\<lambda>e. consumer e = c) (filter (\<lambda>e. producer e = g) ?es)))"
    unfolding waits_def by (rule sum.cong) (auto simp: consumer_table_def count_list_map)
  also have "\<dots> = length ?mine" using fits by (intro sum_producers) (auto simp: edge_fits_def)
  also have "\<dots> = card (edge_input ` set ?mine)"
  proof -
    have "distinct (map key ?mine)" using assms by (simp add: edges_sound_def distinct_map inj_on_def)
    then have "distinct (map edge_input ?mine)" by (auto simp: distinct_map inj_on_def key_def)
    then show ?thesis using distinct_card[of "map edge_input ?mine"] by simp
  qed
  also have "edge_input ` set ?mine = {..<?m}"
  proof (intro equalityI subsetI)
    fix i assume "i \<in> {..<?m}"
    then have "(c, i) \<in> key ` set ?es" using assms by (auto simp: edges_sound_def all_inputs_def)
    then show "i \<in> edge_input ` set ?mine" by (force simp: key_def)
  qed (use fits in \<open>auto simp: edge_fits_def\<close>)
  finally show ?thesis by simp
qed

lemma run_order_spec:
  assumes "edges_sound p d"
  shows "\<exists>order. run_order d (producer_table p d (selected_edges d), consumer_table d (selected_edges d)) = Some order
    \<and> (length order = node_count d \<longleftrightarrow> acyclic (feeds d))"
proof -
  let ?readers = "\<lambda>g. consumer_table d (selected_edges d) ! g" and ?n = "node_count d"
  let ?w = "map length (producer_table p d (selected_edges d))"
  have fits: "\<forall>e \<in> set (selected_edges d). edge_fits p d e" using assms by (simp add: edges_sound_def)
  have closed: "\<forall>g < ?n. set (?readers g) \<subseteq> {..<?n}"
    using feeds_in[OF fits] consumers_of by blast
  have start: "length ?w = ?n" "\<forall>c < ?n. ?w ! c = waits ?readers ?n {} c"
    using waits_inputs[OF assms] by (simp_all add: producer_table_def)
  have ready: "mset (filter (\<lambda>c. ?w ! c = 0) [0..<?n]) = mset (filter (\<lambda>c. ?w ! c = 0) [0..<?n])" by simp
  from stack.kahn_run[OF closed start ready] obtain order where
    run: "run_order d (producer_table p d (selected_edges d), consumer_table d (selected_edges d)) = Some order"
    and o: "dependency_order ?readers ?n order"
    and rest: "\<forall>c < ?n. c \<notin> set order \<longrightarrow> (\<exists>g. g \<notin> set order \<and> (g, c) \<in> reads_of ?readers ?n)"
    unfolding run_order_def Let_def prod.case by blast
  with complete_iff_acyclic[OF closed o rest] reads_of_consumers[OF fits] show ?thesis by auto
qed

section \<open>The reach of the outputs\<close>

lemma set_map_filter_some: "n \<in> set (List.map_filter (\<lambda>p. p) xs) \<longleftrightarrow> Some n \<in> set xs"
  by (induction xs) (auto simp: map_filter_simps split: option.splits)

lemma input_nodes_feeds:
  assumes "edges_sound p d" "c < node_count d"
  shows "set (input_nodes (producer_table p d (selected_edges d)) c) = {n. (n, c) \<in> feeds d}"
proof -
  let ?es = "selected_edges d" and ?m = "length (inputs_of p (candidate_of_node d ! c))"
  have one: "find (\<lambda>x. key x = key e) ?es = Some e" if e: "e \<in> set ?es" for e
  proof -
    from e have "find (\<lambda>x. key x = key e) ?es \<noteq> None" by (simp add: find_key)
    then obtain y where y: "find (\<lambda>x. key x = key e) ?es = Some y" by blast
    then have "y \<in> set ?es" "key y = key e" by (auto simp: find_Some_iff)
    with e assms(1) have "y = e" by (auto simp: edges_sound_def distinct_map dest: inj_onD)
    with y show ?thesis by simp
  qed
  have "n \<in> set (input_nodes (producer_table p d ?es) c) \<longleftrightarrow>
      (\<exists>i < ?m. map_option producer (find (\<lambda>e. key e = (c, i)) ?es) = Some n)" for n
  proof -
    have row: "producer_table p d ?es ! c = map (\<lambda>i. map_option producer (find (\<lambda>e. key e = (c, i)) ?es)) [0..<?m]"
      using assms(2) by (simp add: producer_table_def)
    have "Some n \<in> set (map g [0..<k]) \<longleftrightarrow> (\<exists>i < k. g i = Some n)" for g :: "nat \<Rightarrow> nat option" and k
      by (auto simp: image_iff eq_commute[of "Some n"])
    then show ?thesis by (simp only: input_nodes_def row set_map_filter_some)
  qed
  moreover have "(\<exists>i < ?m. map_option producer (find (\<lambda>e. key e = (c, i)) ?es) = Some n) \<longleftrightarrow> (n, c) \<in> feeds d" for n
  proof
    assume "\<exists>i < ?m. map_option producer (find (\<lambda>e. key e = (c, i)) ?es) = Some n"
    then show "(n, c) \<in> feeds d" by (auto simp: feeds_def find_Some_iff key_def image_iff)
  next
    assume "(n, c) \<in> feeds d"
    then obtain e where e: "e \<in> set ?es" "producer e = n" "consumer e = c" by (auto simp: feeds_def)
    then have "edge_input e < ?m" using assms(1) by (auto simp: edges_sound_def edge_fits_def)
    moreover have "map_option producer (find (\<lambda>x. key x = (c, edge_input e)) ?es) = Some n"
      using one[OF e(1)] e by (simp add: key_def[of e])
    ultimately show "\<exists>i < ?m. map_option producer (find (\<lambda>e. key e = (c, i)) ?es) = Some n" by blast
  qed
  ultimately show ?thesis by auto
qed

definition reach_set :: "selected_dag \<Rightarrow> nat \<Rightarrow> nat set" where
  "reach_set d root = {n. (n, root) \<in> (feeds d)\<^sup>*}"

lemma explore_inputs:
  assumes "edges_sound p d" "root < node_count d"
  shows "explore (input_nodes (producer_table p d (selected_edges d))) [root] {} = Some (reach_set d root)"
proof -
  let ?succs = "input_nodes (producer_table p d (selected_edges d))" and ?n = "node_count d"
  have sub: "feeds d \<subseteq> {..<?n} \<times> {..<?n}" using assms(1) by (intro feeds_in) (auto simp: edges_sound_def)
  have closed: "\<forall>a \<in> {..<?n}. set (?succs a) \<subseteq> {..<?n}"
    using input_nodes_feeds[OF assms(1)] sub by auto
  have "(steps_of ?succs)\<^sup>* `` {root} \<subseteq> reach_set d root \<inter> {..<?n}"
  proof clarify
    fix m assume "(root, m) \<in> (steps_of ?succs)\<^sup>*"
    then have "(m, root) \<in> (feeds d)\<^sup>* \<and> m < ?n"
    proof induction
      case (step a b)
      then have "(b, a) \<in> feeds d" using input_nodes_feeds[OF assms(1), of a] by (auto simp: steps_of_def)
      with step.IH sub show ?case by (auto intro: converse_rtrancl_into_rtrancl)
    qed (use assms(2) in simp)
    then show "m \<in> reach_set d root \<inter> {..<?n}" by (simp add: reach_set_def)
  qed
  moreover have "reach_set d root \<subseteq> (steps_of ?succs)\<^sup>* `` {root}"
  proof
    fix m assume "m \<in> reach_set d root"
    then have "(m, root) \<in> (feeds d)\<^sup>*" by (simp add: reach_set_def)
    then have "(root, m) \<in> (steps_of ?succs)\<^sup>*"
    proof (induction rule: converse_rtrancl_induct)
      case (step a b)
      then have "(b, a) \<in> steps_of ?succs"
        using input_nodes_feeds[OF assms(1), of b] sub by (auto simp: steps_of_def)
      with step.IH show ?case by (rule rtrancl_into_rtrancl)
    qed simp
    then show "m \<in> (steps_of ?succs)\<^sup>* `` {root}" by simp
  qed
  ultimately show ?thesis
    using explore_reachable[OF _ closed, of "[root]"] assms(2) by auto
qed

lemma collect_option_total: "(\<And>x. x \<in> set xs \<Longrightarrow> f x = Some (g x)) \<Longrightarrow> collect_option f xs = Some (map g xs)"
  by (induction xs) auto

lemma output_reach_spec:
  assumes "edges_sound p d" "\<forall>n \<in> set (node_of_output d). n < node_count d"
  shows "output_reach d (producer_table p d (selected_edges d)) = Some (map (reach_set d) (node_of_output d))"
  unfolding output_reach_def using explore_inputs[OF assms(1)] assms(2) by (intro collect_option_total) auto

section \<open>The constraints\<close>

lemma reached_spec:
  "r < length (node_of_output d) \<Longrightarrow>
   reached_by_output (map (reach_set d) (node_of_output d)) node r = Some (reads_node d r node)"
  by (simp add: reached_by_output_def get_def reads_node_def reach_set_def)

lemma queries_reaching_spec:
  "\<forall>rs \<in> set qs. set rs \<subseteq> {..<length (node_of_output d)} \<Longrightarrow>
   queries_reaching (map (reach_set d) (node_of_output d)) node qs = Some (queries_of d qs node)"
  unfolding queries_reaching_def queries_of_def
  by (intro count_opt_total any_opt_total reached_spec) auto

lemma violated_spec:
  assumes "in_outputs (length (node_of_output d)) k" "node < node_count d"
  shows "violated (map (reach_set d) (node_of_output d)) (node_of_output d)
    (consumer_table d (selected_edges d)) k node = Some (\<not> keeps_constraint d k node)"
proof (cases k)
  case (MinimumQueryReaders c qs m)
  with assms queries_reaching_spec[of qs d node] show ?thesis by auto
next
  case (HighestSharedQueryMaterialization c qs)
  let ?f = "\<lambda>c. map_option (\<lambda>k. k \<le> 1) (queries_reaching (map (reach_set d) (node_of_output d)) c qs)"
  have "any_opt ?f (consumer_table d (selected_edges d) ! node)
      = Some (\<exists>c \<in> set (consumer_table d (selected_edges d) ! node). queries_of d qs c \<le> 1)"
    using assms HighestSharedQueryMaterialization queries_reaching_spec[of qs d]
    by (intro any_opt_total) simp
  also have "\<dots> = Some (\<exists>c. (node, c) \<in> feeds d \<and> queries_of d qs c \<le> 1)"
    using consumers_of[OF assms(2)] by auto
  finally show ?thesis using HighestSharedQueryMaterialization by simp
next
  case (AllowedOutputs c allowed)
  then show ?thesis by (auto simp: list_ex_iff reads_node_def reach_set_def)
next
  case (IncompatibleOutputs c l r)
  with assms show ?thesis by (simp add: reached_spec split: bool.split)
qed

lemma check_constraints_spec:
  assumes "\<forall>k \<in> set ks. in_outputs (length (node_of_output d)) k"
  shows "check_constraints d (map (reach_set d) (node_of_output d)) (consumer_table d (selected_edges d)) ks =
    (if \<forall>k \<in> set ks. \<forall>n < node_count d. candidate_of_node d ! n = constrained_candidate k \<longrightarrow> keeps_constraint d k n
     then Ok () else Err reader_error)"
  using assms
proof (induction ks)
  case (Cons k ks)
  let ?ns = "filter (\<lambda>n. candidate_of_node d ! n = constrained_candidate k) [0..<node_count d]"
  have "any_opt (violated (map (reach_set d) (node_of_output d)) (node_of_output d)
      (consumer_table d (selected_edges d)) k) ?ns = Some (\<exists>n \<in> set ?ns. \<not> keeps_constraint d k n)"
    using Cons.prems by (intro any_opt_total violated_spec) auto
  with Cons show ?case by (auto split: bool.splits)
qed simp

section \<open>The check decides\<close>

lemma validate_unfold:
  assumes "\<forall>k \<in> set (catalog_constraints p). in_outputs (output_reference_count p) k"
  shows "validate_selection p d =
    (if sound_structure p d
     then (if \<forall>k \<in> set (catalog_constraints p). \<forall>n < node_count d.
               candidate_of_node d ! n = constrained_candidate k \<longrightarrow> keeps_constraint d k n
           then Ok () else Err reader_error)
     else Err structure_error)"
proof -
  let ?es = "selected_edges d" and ?os = "map (query_output_candidates p) [0..<output_reference_count p]"
  let ?c1 = "list_all (\<lambda>c. c < length (catalog_candidates p)) (candidate_of_node d)
    \<and> length (node_of_output d) = length ?os"
  let ?c2 = "list_all (\<lambda>(n, allowed). n < node_count d \<and> candidate_of_node d ! n \<in> set allowed)
      (zip (node_of_output d) ?os)"
  have outs: "?c1 \<and> ?c2 \<longleftrightarrow> (\<forall>c \<in> set (candidate_of_node d). c < length (catalog_candidates p))
     \<and> list_all2 (\<lambda>node r. node < node_count d \<and> candidate_of_node d ! node \<in> set (query_output_candidates p r))
         (node_of_output d) [0..<output_reference_count p]"
    by (auto simp: list_all_iff list_all2_iff zip_map2)
  show ?thesis
  proof (cases "?c1 \<and> ?c2")
    case False
    then have "validate_selection p d = Err structure_error"
      by (auto simp: validate_selection_def validate_against_def require_def)
    moreover have "\<not> sound_structure p d" using False outs by (auto simp: sound_structure_def)
    ultimately show ?thesis by simp
  next
    case True
    note c = True
    have edges: "add_edges d (\<lambda>c i. get (inputs_of p c) i) ?es (producer_table p d [], consumer_table d [])
       = (if (\<forall>e \<in> set ?es. edge_fits p d e) \<and> distinct (map key ?es)
          then Ok (producer_table p d ?es, consumer_table d ?es) else Err structure_error)"
      using add_edges_tables[of d p ?es "[]"] by simp
    show ?thesis
    proof (cases "edges_sound p d")
      case False
      then have "validate_selection p d = Err structure_error"
        using c edges producers_complete[of p d ?es]
        by (cases "(\<forall>e \<in> set ?es. edge_fits p d e) \<and> distinct (map key ?es)")
          (simp_all add: validate_selection_def validate_against_def empty_tables edges_sound_def require_def
             del: not_None_eq)
      moreover have "\<not> sound_structure p d" using False by (auto simp: sound_structure_def edges_sound_iff)
      ultimately show ?thesis by simp
    next
      case True
      have fits: "(\<forall>e \<in> set ?es. edge_fits p d e) \<and> distinct (map key ?es)"
        and complete: "list_all (list_all (\<lambda>x. x \<noteq> None)) (producer_table p d ?es)"
        using True producers_complete[of p d ?es] by (auto simp: edges_sound_def)
      from run_order_spec[OF True] obtain order where
        order: "run_order d (producer_table p d ?es, consumer_table d ?es) = Some order"
        and acyc: "length order = node_count d \<longleftrightarrow> acyclic (feeds d)" by blast
      have len: "length (node_of_output d) = output_reference_count p" using c by simp
      have "\<forall>n \<in> set (node_of_output d). n < node_count d"
        using c outs by (auto simp: list_all2_conv_all_nth in_set_conv_nth)
      note reach = output_reach_spec[OF True this]
      have reached: "list_all (\<lambda>n. list_ex (\<lambda>R. n \<in> R) (map (reach_set d) (node_of_output d))) [0..<node_count d]
          \<longleftrightarrow> (\<forall>node < node_count d. \<exists>r < length (node_of_output d). reads_node d r node)"
      proof -
        have "(\<exists>x \<in> set (node_of_output d). (n, x) \<in> (feeds d)\<^sup>*)
            \<longleftrightarrow> (\<exists>r < length (node_of_output d). (n, node_of_output d ! r) \<in> (feeds d)\<^sup>*)" for n
          by (metis in_set_conv_nth)
        then show ?thesis by (simp add: list_all_iff list_ex_iff reads_node_def reach_set_def Ball_def)
      qed
      have sound: "sound_structure p d \<longleftrightarrow> acyclic (feeds d)
          \<and> (\<forall>node < node_count d. \<exists>r < length (node_of_output d). reads_node d r node)"
        using c outs True by (auto simp: sound_structure_def edges_sound_iff)
      have "validate_selection p d =
        bind_result (require (acyclic (feeds d)) structure_error) (\<lambda>_.
        bind_result (require (\<forall>node < node_count d. \<exists>r < length (node_of_output d). reads_node d r node)
            structure_error) (\<lambda>_.
          check_constraints d (map (reach_set d) (node_of_output d)) (consumer_table d ?es) (catalog_constraints p)))"
        using c edges fits complete order acyc reach reached
        by (simp add: validate_selection_def validate_against_def empty_tables)
      then have "validate_selection p d = (if sound_structure p d
          then check_constraints d (map (reach_set d) (node_of_output d)) (consumer_table d ?es) (catalog_constraints p)
          else Err structure_error)"
        by (simp only: bind_require sound if_and)
      with check_constraints_spec[of "catalog_constraints p" d] assms len show ?thesis by simp
    qed
  qed
qed

section \<open>Properties of the check\<close>

text \<open>
  C19: Over a catalog whose reader constraints name only its output references, the check accepts a
  selection exactly when it is one: every node runs an existing candidate, every input of every node has
  exactly one edge from a node of an allowed producer, the DAG has no cycle, every node is read by some
  output, each output comes from an allowed candidate, and every node keeps the reader constraints of its
  candidate. Rounded solver values that break any of these are refused.
\<close>

theorem validate_accepts_exactly_selections:
  assumes "\<forall>k \<in> set (catalog_constraints p). in_outputs (output_reference_count p) k"
  shows "validate_selection p d = Inr () \<longleftrightarrow>
    sound_structure p d
    \<and> (\<forall>k \<in> set (catalog_constraints p). \<forall>n < node_count d.
         candidate_of_node d ! n = constrained_candidate k \<longrightarrow> keeps_constraint d k n)"
  by (auto simp: validate_unfold[OF assms])

text \<open>
  C20: Over such a catalog the check always ends with an answer, whatever edges it is given: its two
  loops return, no count goes below zero and no index is out of range.
\<close>

theorem validate_never_panics:
  assumes "\<forall>k \<in> set (catalog_constraints p). in_outputs (output_reference_count p) k"
  shows "validate_selection p d \<noteq> Inl SelectionPanicked"
  by (auto simp: validate_unfold[OF assms] structure_error_def reader_error_def)

definition sample_selection :: selected_dag where
  "sample_selection = \<lparr>candidate_of_node = [0, 1, 2],
     selected_edges = [\<lparr>producer = 0, consumer = 2, edge_input = 0\<rparr>, \<lparr>producer = 1, consumer = 2, edge_input = 1\<rparr>],
     node_of_output = [2]\<rparr>"

lemma sample_catalog_constraints:
  "\<forall>k \<in> set (catalog_constraints sample_catalog). in_outputs (output_reference_count sample_catalog) k"
  by (simp add: sample_catalog_def output_reference_count_def)

lemma sample_selection_valid: "validate_selection sample_catalog sample_selection = Inr ()"
  by code_simp

theorem validate_accepts_exactly_selections_witness:
  "sound_structure sample_catalog sample_selection
   \<and> keeps_constraint sample_selection (MinimumQueryReaders 0 [[0]] 1) 0"
proof -
  from validate_accepts_exactly_selections[OF sample_catalog_constraints] sample_selection_valid
  have ok: "sound_structure sample_catalog sample_selection"
    and keeps: "\<forall>k \<in> set (catalog_constraints sample_catalog). \<forall>n < node_count sample_selection.
         candidate_of_node sample_selection ! n = constrained_candidate k \<longrightarrow> keeps_constraint sample_selection k n"
    by blast+
  have k: "MinimumQueryReaders 0 [[0]] 1 \<in> set (catalog_constraints sample_catalog)"
    "0 < node_count sample_selection"
    "candidate_of_node sample_selection ! 0 = constrained_candidate (MinimumQueryReaders 0 [[0]] 1)"
    by (simp_all add: sample_catalog_def sample_selection_def node_count_def)
  from ok keeps k show ?thesis by blast
qed

theorem validate_never_panics_witness:
  "validate_selection sample_catalog (sample_selection\<lparr>selected_edges := []\<rparr>) \<noteq> Inl SelectionPanicked"
  by (rule validate_never_panics[OF sample_catalog_constraints])

end
