(* ===== verification/HashCons.thy ===== *)
theory HashCons
  imports NodeOps Equality Rebuild
begin

text \<open>
  Stage 0's hash-consing (\<^verbatim>\<open>crates/logical-asap-optimization/src/stage0/cse.rs\<close>): equal nodes of a
  workload become one node, from the leaves up. The JSON text of a value (\<^verbatim>\<open>serde_json\<close>) and the hash of a
  node's own fields and its children's hashes (SipHash over that text) are parameters; nothing below
  assumes anything of the hash.
\<close>

type_synonym own_op = "(unit, operator_node) operator"

record services =
  json_own :: "own_op \<Rightarrow> string option"
  json_guarantee :: "accuracy_guarantee option \<Rightarrow> string option"
  hash_node ::
    "own_op \<times> operator_result_kind \<times> schema \<times> accuracy_guarantee option \<times> execution_timing option \<times> materialization
       \<Rightarrow> 64 word list \<Rightarrow> 64 word"

text \<open>\<^verbatim>\<open>own_fields\<close>: every child replaced by \<open>()\<close>.\<close>

definition own_fields :: "operator_node \<Rightarrow> own_op" where
  "own_fields n = fst (map_children_st (\<lambda>_ u. ((), u)) (operator_of n) ())"

lemma own_fields_map: "own_fields n = map_operator (\<lambda>_. ()) id (operator_of n)"
  by (simp add: own_fields_def map_children_pure)

section \<open>The hash of a node\<close>

function structural_hash ::
  "services \<Rightarrow> operator_node \<Rightarrow> (nat \<rightharpoonup> 64 word) \<Rightarrow> 64 word \<times> (nat \<rightharpoonup> 64 word)" where
  "structural_hash S n cache =
     (case map_st (\<lambda>c cache.
                     case cache (node_id c) of
                       Some h \<Rightarrow> (h, cache)
                     | None \<Rightarrow> (case structural_hash S c cache of
                                  (h, cache) \<Rightarrow> (h, cache(node_id c \<mapsto> h))))
             (node_children n) cache of
        (hs, cache) \<Rightarrow>
          (hash_node S (own_fields n, result_kind n, node_schema n, node_guarantee n, node_timing n,
             node_materialization n) hs,
           cache))"
  by pat_completeness auto
termination
  by (relation "measure (\<lambda>(_, n, _). node_height n)") (auto intro: children_height)

declare structural_hash.simps [simp del]

section \<open>The sharing decision\<close>

text \<open>\<^verbatim>\<open>==\<close> on \<^verbatim>\<open>Operator<()>\<close> and on guarantees, and \<^verbatim>\<open>same_value\<close> on both.\<close>

definition own_op_eq :: "own_op \<Rightarrow> own_op \<Rightarrow> bool" where
  "own_op_eq = same_by (\<lambda>op. canon_operator (map_operator (\<lambda>u. Some u) canon_node op))"

definition guarantee_eq :: "accuracy_guarantee option \<Rightarrow> accuracy_guarantee option \<Rightarrow> bool" where
  "guarantee_eq = same_by (canon_option canon_guarantee)"

definition same_text :: "string option \<Rightarrow> string option \<Rightarrow> bool" where
  "same_text a b \<longleftrightarrow> (case (a, b) of (Some x, Some y) \<Rightarrow> x = y | _ \<Rightarrow> False)"

definition same_own_value :: "services \<Rightarrow> own_op \<Rightarrow> own_op \<Rightarrow> bool" where
  "same_own_value S a b \<longleftrightarrow> own_op_eq a b \<and> same_text (json_own S a) (json_own S b)"

definition same_guarantee_value ::
  "services \<Rightarrow> accuracy_guarantee option \<Rightarrow> accuracy_guarantee option \<Rightarrow> bool" where
  "same_guarantee_value S a b \<longleftrightarrow> guarantee_eq a b \<and> same_text (json_guarantee S a) (json_guarantee S b)"

text \<open>What \<^verbatim>\<open>same_node\<close> compares besides the children.\<close>

definition same_fields :: "services \<Rightarrow> operator_node \<Rightarrow> operator_node \<Rightarrow> bool" where
  "same_fields S l r \<longleftrightarrow>
     result_kind l = result_kind r \<and> schema_eq (node_schema l) (node_schema r)
     \<and> node_timing l = node_timing r \<and> node_materialization l = node_materialization r
     \<and> same_guarantee_value S (node_guarantee l) (node_guarantee r)
     \<and> same_own_value S (own_fields l) (own_fields r)"

fun all_st :: "('a \<Rightarrow> 's \<Rightarrow> bool \<times> 's) \<Rightarrow> 'a list \<Rightarrow> 's \<Rightarrow> bool \<times> 's" where
  "all_st f [] s = (True, s)"
| "all_st f (x # xs) s = (case f x s of (ok, s1) \<Rightarrow> if ok then all_st f xs s1 else (False, s1))"

lemma all_st_cong [fundef_cong]:
  assumes "xs = ys" and "s = t" and "\<And>x s. x \<in> set ys \<Longrightarrow> f x s = g x s"
  shows "all_st f xs s = all_st g ys t"
proof -
  have "(\<And>x s. x \<in> set ys \<Longrightarrow> f x s = g x s) \<Longrightarrow> all_st f ys t = all_st g ys t" for ys t
    by (induction ys arbitrary: t) (simp_all split: prod.splits)
  with assms show ?thesis by blast
qed

type_synonym pair_cache = "nat \<times> nat \<rightharpoonup> bool"

function same_node :: "services \<Rightarrow> operator_node \<Rightarrow> operator_node \<Rightarrow> pair_cache \<Rightarrow> bool \<times> pair_cache" where
  "same_node S l r cache =
     (if length (node_children l) \<noteq> length (node_children r) then (False, cache)
      else
        (case all_st (\<lambda>p cache.
                        if node_id (fst p) = node_id (snd p) then (True, cache)
                        else
                          (case cache (node_id (fst p), node_id (snd p)) of
                             Some eq \<Rightarrow> (eq, cache)
                           | None \<Rightarrow>
                               (case same_node S (fst p) (snd p) cache of
                                  (eq, cache) \<Rightarrow> (eq, cache((node_id (fst p), node_id (snd p)) \<mapsto> eq)))))
                (zip (node_children l) (node_children r)) cache of
           (children_equal, cache) \<Rightarrow> (children_equal \<and> same_fields S l r, cache)))"
  by pat_completeness auto
termination
  by (relation "measure (\<lambda>(_, l, _, _). node_height l)") (auto dest!: set_zip_leftD intro: children_height)

declare same_node.simps [simp del]

section \<open>Interning\<close>

record intern_table =
  buckets :: "64 word \<Rightarrow> operator_node list"
  hash_cache :: "nat \<rightharpoonup> 64 word"
  pair_results :: pair_cache
  next_rc :: nat \<comment> \<open>where \<^verbatim>\<open>Rc::new\<close> puts the next node\<close>

definition new_table :: "nat \<Rightarrow> intern_table" where
  "new_table i = \<lparr>buckets = \<lambda>_. [], hash_cache = Map.empty, pair_results = Map.empty, next_rc = i\<rparr>"

definition may_share :: "operator_node \<Rightarrow> bool" where
  "may_share n \<longleftrightarrow>
     is_asap n \<or> (case non_asap_of n of Some op \<Rightarrow> is_shareable_when_equal op | None \<Rightarrow> False)"

fun find_st :: "('a \<Rightarrow> 's \<Rightarrow> bool \<times> 's) \<Rightarrow> 'a list \<Rightarrow> 's \<Rightarrow> 'a option \<times> 's" where
  "find_st f [] s = (None, s)"
| "find_st f (x # xs) s = (case f x s of (hit, s1) \<Rightarrow> if hit then (Some x, s1) else find_st f xs s1)"

definition intern :: "services \<Rightarrow> operator_node \<Rightarrow> intern_table \<Rightarrow> operator_node \<times> intern_table" where
  "intern S n t =
     (case structural_hash S n (hash_cache t) of
        (h, hashes) \<Rightarrow>
          (case (if may_share n
                 then find_st (\<lambda>candidate. same_node S candidate n) (buckets t h) (pair_results t)
                 else (None, pair_results t)) of
             (Some existing, pairs) \<Rightarrow> (existing, t\<lparr>hash_cache := hashes, pair_results := pairs\<rparr>)
           | (None, pairs) \<Rightarrow>
               (n, t\<lparr>buckets := (buckets t)(h := buckets t h @ [n]), hash_cache := hashes,
                     pair_results := pairs, next_rc := Suc (next_rc t)\<rparr>)))"

text \<open>\<^verbatim>\<open>intern_bottom_up\<close>: the children first, then the node rebuilt over them.\<close>

type_synonym intern_state = "intern_table \<times> (nat \<rightharpoonup> operator_node \<times> operator_node)"

definition rebuilt :: "nat \<Rightarrow> operator_node \<Rightarrow> node_op \<Rightarrow> operator_node" where
  "rebuilt i n op =
     with_materialization
       (with_timing (with_guarantee (with_schema i op (node_schema n)) (node_guarantee n)) (node_timing n))
       (node_materialization n)"

function intern_bottom_up :: "services \<Rightarrow> operator_node \<Rightarrow> intern_state \<Rightarrow> operator_node \<times> intern_state" where
  "intern_bottom_up S n st =
     (case snd st (node_id n) of
        Some (_, interned) \<Rightarrow> (interned, st)
      | None \<Rightarrow>
          (case map_children_st (intern_bottom_up S) (operator_of n) st of
             (op, (t, visited)) \<Rightarrow>
               (case intern S (rebuilt (next_rc t) n op) t of
                  (interned, t) \<Rightarrow> (interned, (t, visited(node_id n \<mapsto> (n, interned)))))))"
  by pat_completeness auto
termination
  by (relation "measure (\<lambda>(_, n, _). node_height n)") (auto intro: children_height simp: node_children_def)

declare intern_bottom_up.simps [simp del]

definition share_common_sub_dags ::
  "services \<Rightarrow> nat \<Rightarrow> ('q \<times> operator_node) list \<Rightarrow> ('q \<times> operator_node) list \<times> intern_state" where
  "share_common_sub_dags S i roots =
     map_st (\<lambda>r st. case intern_bottom_up S (snd r) st of (m, st) \<Rightarrow> ((fst r, m), st)) roots
       (new_table i, Map.empty)"

end
