(* ===== verification/Stage0.thy ===== *)
theory Stage0
  imports Memo Search HashCons
begin

text \<open>
  Stage 0 (\<^verbatim>\<open>crates/logical-asap-optimization/src/stage0.rs\<close>): the memo groups of a workload's query roots.
  The roots are hash-consed, the interned nodes numbered children first, every group told its parents and
  the queries that reach it, and every original node mapped to its group. A table index out of range and a
  missing key panic: the result is \<open>None\<close>.
\<close>

section \<open>Loops that may panic\<close>

fun fold_opt :: "('a \<Rightarrow> 's \<Rightarrow> 's option) \<Rightarrow> 'a list \<Rightarrow> 's \<Rightarrow> 's option" where
  "fold_opt f [] s = Some s"
| "fold_opt f (x # xs) s = (case f x s of None \<Rightarrow> None | Some s1 \<Rightarrow> fold_opt f xs s1)"

fun map_opt_st :: "('a \<Rightarrow> 's \<Rightarrow> ('b \<times> 's) option) \<Rightarrow> 'a list \<Rightarrow> 's \<Rightarrow> ('b list \<times> 's) option" where
  "map_opt_st f [] s = Some ([], s)"
| "map_opt_st f (x # xs) s =
     (case f x s of
        None \<Rightarrow> None
      | Some (y, s1) \<Rightarrow>
          (case map_opt_st f xs s1 of None \<Rightarrow> None | Some (ys, s2) \<Rightarrow> Some (y # ys, s2)))"

lemma fold_opt_cong [fundef_cong]:
  assumes "xs = ys" "s = t" "\<And>x s. x \<in> set ys \<Longrightarrow> f x s = g x s"
  shows "fold_opt f xs s = fold_opt g ys t"
proof -
  have "(\<And>x s. x \<in> set ys \<Longrightarrow> f x s = g x s) \<Longrightarrow> fold_opt f ys t = fold_opt g ys t" for ys t
    by (induction ys arbitrary: t) (simp_all split: option.splits)
  with assms show ?thesis by blast
qed

lemma map_opt_st_cong [fundef_cong]:
  assumes "xs = ys" "s = t" "\<And>x s. x \<in> set ys \<Longrightarrow> f x s = g x s"
  shows "map_opt_st f xs s = map_opt_st g ys t"
proof -
  have "(\<And>x s. x \<in> set ys \<Longrightarrow> f x s = g x s) \<Longrightarrow> map_opt_st f ys t = map_opt_st g ys t" for ys t
    by (induction ys arbitrary: t) (simp_all split: option.splits prod.splits)
  with assms show ?thesis by blast
qed

definition modify_at :: "nat \<Rightarrow> ('a \<Rightarrow> 'a) \<Rightarrow> 'a list \<Rightarrow> 'a list option" where
  "modify_at i f xs = (if i < length xs then Some (xs[i := f (xs ! i)]) else None)"

section \<open>Numbering\<close>

definition add_parent :: "nat \<Rightarrow> memo_group \<Rightarrow> memo_group" where
  "add_parent p g =
     (if p \<in> set (parent_groups g) then g else g\<lparr>parent_groups := parent_groups g @ [p]\<rparr>)"

type_synonym numbering = "memo_group list \<times> (nat \<rightharpoonup> nat)"

function number :: "operator_node \<Rightarrow> numbering \<Rightarrow> (nat \<times> numbering) option" where
  "number n st =
     (case snd st (node_id n) of
        Some g \<Rightarrow> Some (g, st)
      | None \<Rightarrow>
          (case map_opt_st number (node_children n) st of
             None \<Rightarrow> None
           | Some (children, (groups, id_of)) \<Rightarrow>
               (let g = as_u32 (length groups)
                in case fold_opt (\<lambda>child. modify_at child (add_parent g)) children groups of
                     None \<Rightarrow> None
                   | Some groups \<Rightarrow>
                       Some (g,
                         (groups @ [\<lparr>logical_node = n, child_groups = children, parent_groups = [],
                                     reached_by_queries = []\<rparr>],
                          id_of(node_id n \<mapsto> g))))))"
  by pat_completeness auto
termination
  by (relation "measure (\<lambda>(n, _). node_height n)") (auto intro: children_height)

declare number.simps [simp del]

section \<open>Queries\<close>

text \<open>\<^verbatim>\<open>reach\<close>, its recursion as a list of the calls still to make.\<close>

partial_function (option) reach :: "memo_group list \<Rightarrow> nat list \<Rightarrow> nat set \<Rightarrow> nat set option" where
  [code]: "reach groups calls reached =
     (case calls of
        [] \<Rightarrow> Some reached
      | g # rest \<Rightarrow>
          if g \<in> reached then reach groups rest reached
          else
            (case get groups g of
               None \<Rightarrow> None
             | Some grp \<Rightarrow> reach groups (child_groups grp @ rest) (insert g reached)))"

definition add_query :: "nat \<Rightarrow> memo_group \<Rightarrow> memo_group" where
  "add_query q g =
     (if q \<in> set (reached_by_queries g) then g
      else g\<lparr>reached_by_queries := reached_by_queries g @ [q]\<rparr>)"

text \<open>The loop over a set of reached groups, whose order does not matter.\<close>

definition add_query_to :: "nat set \<Rightarrow> nat \<Rightarrow> memo_group list \<Rightarrow> memo_group list" where
  "add_query_to reached q groups =
     map (\<lambda>i. if i \<in> reached then add_query q (groups ! i) else groups ! i) [0..<length groups]"

definition mark_query ::
  "(nat \<rightharpoonup> nat) \<Rightarrow> nat \<times> operator_node \<Rightarrow> memo_group list \<Rightarrow> memo_group list option" where
  "mark_query id_of r groups =
     (case id_of (node_id (snd r)) of
        None \<Rightarrow> None
      | Some g \<Rightarrow> map_option (\<lambda>reached. add_query_to reached (fst r) groups) (reach groups [g] {}))"

definition sort_queries :: "memo_group \<Rightarrow> memo_group" where
  "sort_queries g = g\<lparr>reached_by_queries := sort (reached_by_queries g)\<rparr>"

section \<open>Original nodes\<close>

text \<open>\<^verbatim>\<open>pair\<close>: an original node and its interned copy, walked side by side.\<close>

function pair_nodes ::
  "(nat \<rightharpoonup> nat) \<Rightarrow> operator_node \<times> operator_node \<Rightarrow> (nat \<rightharpoonup> nat) \<Rightarrow> (nat \<rightharpoonup> nat) option" where
  "pair_nodes id_of p groups =
     (case id_of (node_id (snd p)) of
        None \<Rightarrow> None
      | Some g \<Rightarrow>
          if groups (node_id (fst p)) \<noteq> None then Some (groups(node_id (fst p) \<mapsto> g))
          else
            fold_opt (pair_nodes id_of) (zip (node_children (fst p)) (node_children (snd p)))
              (groups(node_id (fst p) \<mapsto> g)))"
  by pat_completeness auto
termination
  by (relation "measure (\<lambda>(_, p, _). node_height (fst p))")
    (auto dest!: set_zip_leftD intro: children_height)

declare pair_nodes.simps [simp del]

section \<open>The stage\<close>

definition operator_roots :: "operator_node query_root list \<Rightarrow> (nat \<times> operator_node) list" where
  "operator_roots roots = concat (map (\<lambda>(q, root). map (Pair q) (root_refs root)) (enumerate 0 roots))"

definition hash_consed ::
  "services \<Rightarrow> nat \<Rightarrow> operator_node query_root list \<Rightarrow> (memo_group list \<times> (nat \<rightharpoonup> nat)) option" where
  "hash_consed S i roots =
     (let originals = operator_roots roots;
          interned = fst (share_common_sub_dags S i originals)
      in case fold_opt (\<lambda>r st. map_option snd (number (snd r) st)) interned ([], Map.empty) of
           None \<Rightarrow> None
         | Some (groups, id_of) \<Rightarrow>
             (case fold_opt (mark_query id_of) interned groups of
                None \<Rightarrow> None
              | Some groups \<Rightarrow>
                  map_option (Pair (map sort_queries groups))
                    (fold_opt (\<lambda>(original, root). pair_nodes id_of (snd original, snd root))
                       (zip originals interned) Map.empty)))"

definition dag_of_logical_memo_groups ::
  "services \<Rightarrow> nat \<Rightarrow> operator_node query_root list \<Rightarrow> memo_dag option" where
  "dag_of_logical_memo_groups S i roots =
     (case hash_consed S i roots of
        None \<Rightarrow> None
      | Some (groups, by_node) \<Rightarrow>
          map_option (\<lambda>qs. \<lparr>dag_groups = groups, dag_query_roots = qs, group_of = by_node\<rparr>)
            (collect_option (map_root_option (\<lambda>n. by_node (node_id n))) roots))"

end
