(* ===== verification/HashConsLaws.thy ===== *)
theory HashConsLaws
  imports HashCons
begin

text \<open>
  What hash-consing keeps: the pair cache of \<^verbatim>\<open>same_node\<close> holds answers of the uncached comparison, the
  interned nodes are a DAG of their own, and every node's interned copy is the node up to equal fields.
\<close>

section \<open>The uncached comparison\<close>

function same_as :: "services \<Rightarrow> operator_node \<Rightarrow> operator_node \<Rightarrow> bool" where
  "same_as S l r \<longleftrightarrow>
     length (node_children l) = length (node_children r)
     \<and> (\<forall>p \<in> set (zip (node_children l) (node_children r)).
          node_id (fst p) = node_id (snd p) \<or> same_as S (fst p) (snd p))
     \<and> same_fields S l r"
  by pat_completeness auto
termination
  by (relation "measure (\<lambda>(_, l, _). node_height l)") (auto dest!: set_zip_leftD intro: children_height)

declare same_as.simps [simp del]

text \<open>A pair cache over the nodes of \<open>T\<close>.\<close>

definition pairs_right :: "services \<Rightarrow> operator_node set \<Rightarrow> pair_cache \<Rightarrow> bool" where
  "pairs_right S T cache \<longleftrightarrow>
     (\<forall>i j e. cache (i, j) = Some e \<longrightarrow>
        (\<exists>a \<in> T. \<exists>b \<in> T. node_id a = i \<and> node_id b = j \<and> (e \<longleftrightarrow> same_as S a b)))"

lemma pairs_right_empty: "pairs_right S T Map.empty"
  by (simp add: pairs_right_def)

lemma pairs_right_mono: "pairs_right S T cache \<Longrightarrow> T \<subseteq> U \<Longrightarrow> pairs_right S U cache"
  unfolding pairs_right_def by (meson subsetD)

lemma pairs_right_lookup:
  "pairs_right S T cache \<Longrightarrow> inj_on node_id T \<Longrightarrow> a \<in> T \<Longrightarrow> b \<in> T \<Longrightarrow>
   cache (node_id a, node_id b) = Some e \<Longrightarrow> e \<longleftrightarrow> same_as S a b"
  unfolding pairs_right_def inj_on_def by metis

lemma pairs_right_insert:
  "pairs_right S T cache \<Longrightarrow> a \<in> T \<Longrightarrow> b \<in> T \<Longrightarrow>
   pairs_right S T (cache((node_id a, node_id b) \<mapsto> same_as S a b))"
  by (auto simp: pairs_right_def)

lemma all_st_right:
  assumes "\<And>x s. x \<in> set xs \<Longrightarrow> I s \<Longrightarrow> I (snd (f x s)) \<and> (fst (f x s) \<longleftrightarrow> P x)"
  shows "I s \<Longrightarrow> I (snd (all_st f xs s)) \<and> (fst (all_st f xs s) \<longleftrightarrow> (\<forall>x \<in> set xs. P x))"
  using assms
proof (induction xs arbitrary: s)
  case (Cons x xs)
  obtain ok s1 where f: "f x s = (ok, s1)" by (cases "f x s")
  from Cons.prems(2)[of x s] Cons.prems(1) f have x: "I s1" "ok \<longleftrightarrow> P x" by auto
  from Cons.IH[OF x(1)] Cons.prems(2) have "I (snd (all_st f xs s1)) \<and> (fst (all_st f xs s1) \<longleftrightarrow> (\<forall>x \<in> set xs. P x))"
    by simp
  with f x show ?case by auto
qed simp

text \<open>Caching pairs changes nothing.\<close>

lemma same_node_right:
  assumes "inj_on node_id T" "\<forall>m \<in> T. set (node_children m) \<subseteq> T"
  shows "set (node_children l) \<subseteq> T \<Longrightarrow> set (node_children r) \<subseteq> T \<Longrightarrow> pairs_right S T cache \<Longrightarrow>
    pairs_right S T (snd (same_node S l r cache)) \<and> (fst (same_node S l r cache) \<longleftrightarrow> same_as S l r)"
proof (induction l arbitrary: r cache rule: measure_induct_rule[of node_height])
  case (less l)
  show ?case
  proof (cases "length (node_children l) = length (node_children r)")
    case False
    with less.prems show ?thesis by (simp add: same_node.simps[of S l] same_as.simps[of S l])
  next
    case True
    let ?f = "\<lambda>p cache. if node_id (fst p) = node_id (snd p) then (True, cache)
       else (case cache (node_id (fst p), node_id (snd p)) of
          Some eq \<Rightarrow> (eq, cache)
        | None \<Rightarrow> (case same_node S (fst p) (snd p) cache of
            (eq, cache) \<Rightarrow> (eq, cache((node_id (fst p), node_id (snd p)) \<mapsto> eq))))"
    let ?P = "\<lambda>p. node_id (fst p) = node_id (snd p) \<or> same_as S (fst p) (snd p)"
    have step: "pairs_right S T (snd (?f p c)) \<and> (fst (?f p c) \<longleftrightarrow> ?P p)"
      if p: "p \<in> set (zip (node_children l) (node_children r))" and c: "pairs_right S T c" for p c
    proof -
      obtain a b where ab: "p = (a, b)" by (cases p)
      with p have m: "a \<in> set (node_children l)" "b \<in> set (node_children r)"
        by (auto dest: set_zip_leftD set_zip_rightD)
      with less.prems have T: "a \<in> T" "b \<in> T" by auto
      show ?thesis
      proof (cases "c (node_id a, node_id b)")
        case None
        obtain e c1 where run: "same_node S a b c = (e, c1)" by (cases "same_node S a b c")
        have "pairs_right S T (snd (same_node S a b c)) \<and> (fst (same_node S a b c) \<longleftrightarrow> same_as S a b)"
          using T assms(2) c by (intro less.IH children_height[OF m(1)]) auto
        with run have "pairs_right S T c1" "e \<longleftrightarrow> same_as S a b" by auto
        with pairs_right_insert[OF _ T, of S c1] None run c ab show ?thesis by auto
      next
        case (Some e)
        with pairs_right_lookup[OF c assms(1) T] c ab show ?thesis by auto
      qed
    qed
    obtain e c1 where run: "all_st ?f (zip (node_children l) (node_children r)) cache = (e, c1)"
      by (cases "all_st ?f (zip (node_children l) (node_children r)) cache")
    have "pairs_right S T c1 \<and> (e \<longleftrightarrow> (\<forall>p \<in> set (zip (node_children l) (node_children r)). ?P p))"
      using all_st_right[where I = "pairs_right S T" and f = ?f and P = ?P
          and xs = "zip (node_children l) (node_children r)" and s = cache] step less.prems(3)
      by (simp only: run fst_conv snd_conv)
    moreover have "same_node S l r cache = (e \<and> same_fields S l r, c1)"
      unfolding same_node.simps[of S l] run using True by simp
    moreover have "same_as S l r \<longleftrightarrow>
        (\<forall>p \<in> set (zip (node_children l) (node_children r)). ?P p) \<and> same_fields S l r"
      unfolding same_as.simps[of S l] using True by simp
    ultimately show ?thesis by simp
  qed
qed

lemma find_st_right:
  assumes "\<And>x s. x \<in> set xs \<Longrightarrow> I s \<Longrightarrow> I (snd (f x s)) \<and> (fst (f x s) \<longleftrightarrow> P x)"
  shows "I s \<Longrightarrow> I (snd (find_st f xs s)) \<and> fst (find_st f xs s) = find P xs"
  using assms
proof (induction xs arbitrary: s)
  case (Cons x xs)
  obtain ok s1 where f: "f x s = (ok, s1)" by (cases "f x s")
  from Cons.prems(2)[of x s] Cons.prems(1) f have x: "I s1" "ok \<longleftrightarrow> P x" by auto
  from Cons.IH[OF x(1)] Cons.prems(2) have "I (snd (find_st f xs s1)) \<and> fst (find_st f xs s1) = find P xs"
    by simp
  with f x show ?case by auto
qed simp


section \<open>Similar nodes\<close>

text \<open>Equality of schemas is equality of their canonical forms.\<close>

lemma canon_field_type_eq: "same_by canon_field_type a b \<longleftrightarrow> field_data_type_eq a b"
proof -
  have "same_by canon_field_type (Sketch k g) (Sketch k' g') \<longleftrightarrow>
      algorithm k = algorithm k' \<and> same_by canon_params (params k) (params k') \<and> g = g'" for k g k' g'
    by (auto simp: same_by_iff)
  then have both: "same_by canon_field_type (Sketch k g) (Sketch k' g') \<longleftrightarrow>
      field_data_type_eq (Sketch k g) (Sketch k' g')" for k g k' g'
    by (simp add: field_data_type_eq_def sketch_kind_eq_def canon_params_eq)
  show ?thesis
  proof (cases "\<exists>k g k' g'. a = Sketch k g \<and> b = Sketch k' g'")
    case True
    with both show ?thesis by blast
  next
    case False
    then show ?thesis by (cases a; cases b) (auto simp: field_data_type_eq_def same_by_iff)
  qed
qed

lemma canon_field_eq: "same_by canon_field f g \<longleftrightarrow> schema_field_eq f g"
proof -
  have "same_by canon_field f g \<longleftrightarrow>
      name f = name g \<and> same_by canon_field_type (dtype f) (dtype g) \<and> nullable f = nullable g
      \<and> table f = table g"
    by (auto simp: same_by_iff canon_field_def)
  then show ?thesis by (simp add: canon_field_type_eq schema_field_eq_def)
qed

lemma sequence_same: "same_by sequence xs ys \<longleftrightarrow> list_all2 (same_by (\<lambda>x. x)) xs ys"
proof (induction xs arbitrary: ys)
  case Nil
  then show ?case by (cases ys) (auto simp: same_by_iff bind_eq_Some_conv)
next
  case (Cons x xs)
  show ?case
  proof (cases ys)
    case Nil
    then show ?thesis by (auto simp: same_by_iff bind_eq_Some_conv)
  next
    case (Cons y zs)
    have "same_by sequence (x # xs) (y # zs) \<longleftrightarrow> same_by (\<lambda>x. x) x y \<and> same_by sequence xs zs"
      by (auto simp: same_by_iff bind_eq_Some_conv)
    with Cons Cons.IH show ?thesis by simp
  qed
qed

lemma same_by_apply: "same_by (\<lambda>x. x) (f x) (f y) = same_by f x y"
  by (simp add: same_by_def)

lemma canon_list_same: "same_by (canon_list f) xs ys \<longleftrightarrow> list_all2 (same_by f) xs ys"
proof -
  have "same_by (canon_list f) xs ys \<longleftrightarrow> same_by sequence (map f xs) (map f ys)"
    by (simp add: same_by_def canon_list_def)
  also have "\<dots> \<longleftrightarrow> list_all2 (same_by f) xs ys"
    by (simp only: sequence_same list.rel_map same_by_apply)
  finally show ?thesis .
qed

lemma canon_schema_eq: "same_by canon_schema s t \<longleftrightarrow> schema_eq s t"
proof -
  have "same_by canon_schema s t \<longleftrightarrow>
      same_by (canon_list canon_field) (schema_fields s) (schema_fields t) \<and> time_index s = time_index t
      \<and> unique_keys s = unique_keys t \<and> closed s = closed t"
    by (cases s; cases t) (auto simp: same_by_iff canon_schema_def)
  moreover have "list_all2 (same_by canon_field) xs ys = list_all2 schema_field_eq xs ys" for xs ys
    by (metis canon_field_eq list_all2_mono)
  ultimately show ?thesis by (simp add: canon_list_same schema_eq_def)
qed

text \<open>Two values interchangeable in a shared node: one value, or two that compare equal.\<close>

definition either_same :: "('a \<Rightarrow> 'a \<Rightarrow> bool) \<Rightarrow> 'a \<Rightarrow> 'a \<Rightarrow> bool" where
  "either_same eq a b \<longleftrightarrow> a = b \<or> eq a b"

lemma either_refl [simp, intro]: "either_same eq a a"
  by (simp add: either_same_def)

lemma either_trans:
  "(\<And>a b c. eq a b \<Longrightarrow> eq b c \<Longrightarrow> eq a c) \<Longrightarrow>
   either_same eq a b \<Longrightarrow> either_same eq b c \<Longrightarrow> either_same eq a c"
  unfolding either_same_def by blast

lemma either_sym: "(\<And>a b. eq a b \<Longrightarrow> eq b a) \<Longrightarrow> either_same eq a b \<Longrightarrow> either_same eq b a"
  unfolding either_same_def by blast

lemma same_text_iff: "same_text a b \<longleftrightarrow> (\<exists>x. a = Some x \<and> b = Some x)"
  by (auto simp: same_text_def split: option.splits)

lemma own_same_trans: "same_own_value S a b \<Longrightarrow> same_own_value S b c \<Longrightarrow> same_own_value S a c"
  by (auto simp: same_own_value_def own_op_eq_def same_text_iff intro: same_by_trans)

lemma own_same_sym: "same_own_value S a b \<Longrightarrow> same_own_value S b a"
  by (auto simp: same_own_value_def own_op_eq_def same_text_iff same_by_sym)

lemma guarantee_same_trans:
  "same_guarantee_value S a b \<Longrightarrow> same_guarantee_value S b c \<Longrightarrow> same_guarantee_value S a c"
  by (auto simp: same_guarantee_value_def guarantee_eq_def same_text_iff intro: same_by_trans)

lemma guarantee_same_sym: "same_guarantee_value S a b \<Longrightarrow> same_guarantee_value S b a"
  by (auto simp: same_guarantee_value_def guarantee_eq_def same_text_iff same_by_sym)

lemma schema_eq_trans: "schema_eq a b \<Longrightarrow> schema_eq b c \<Longrightarrow> schema_eq a c"
  using same_by_trans canon_schema_eq by metis

lemma schema_eq_sym: "schema_eq a b \<Longrightarrow> schema_eq b a"
  using same_by_sym canon_schema_eq by metis

definition kept_fields :: "services \<Rightarrow> operator_node \<Rightarrow> operator_node \<Rightarrow> bool" where
  "kept_fields S n m \<longleftrightarrow>
     node_timing n = node_timing m \<and> node_materialization n = node_materialization m
     \<and> either_same schema_eq (node_schema n) (node_schema m)
     \<and> either_same (same_guarantee_value S) (node_guarantee n) (node_guarantee m)
     \<and> either_same (same_own_value S) (own_fields n) (own_fields m)"

lemma kept_fields_refl [simp]: "kept_fields S n n"
  by (simp add: kept_fields_def)

lemma kept_fields_trans:
  assumes "kept_fields S a b" "kept_fields S b c"
  shows "kept_fields S a c"
proof -
  have "either_same schema_eq (node_schema a) (node_schema c)"
    by (rule either_trans[OF schema_eq_trans, where b = "node_schema b"]) (use assms in \<open>simp_all add: kept_fields_def\<close>)
  moreover have "either_same (same_guarantee_value S) (node_guarantee a) (node_guarantee c)"
    by (rule either_trans[OF guarantee_same_trans, where b = "node_guarantee b"]) (use assms in \<open>simp_all add: kept_fields_def\<close>)
  moreover have "either_same (same_own_value S) (own_fields a) (own_fields c)"
    by (rule either_trans[OF own_same_trans, where b = "own_fields b"]) (use assms in \<open>simp_all add: kept_fields_def\<close>)
  ultimately show ?thesis using assms by (simp add: kept_fields_def)
qed

lemma kept_fields_sym:
  assumes "kept_fields S a b"
  shows "kept_fields S b a"
proof -
  have "either_same schema_eq (node_schema b) (node_schema a)"
    by (rule either_sym[OF schema_eq_sym]) (use assms in \<open>simp_all add: kept_fields_def\<close>)
  moreover have "either_same (same_guarantee_value S) (node_guarantee b) (node_guarantee a)"
    by (rule either_sym[OF guarantee_same_sym]) (use assms in \<open>simp_all add: kept_fields_def\<close>)
  moreover have "either_same (same_own_value S) (own_fields b) (own_fields a)"
    by (rule either_sym[OF own_same_sym]) (use assms in \<open>simp_all add: kept_fields_def\<close>)
  ultimately show ?thesis using assms by (simp add: kept_fields_def)
qed

lemma same_fields_kept: "same_fields S a b \<Longrightarrow> kept_fields S a b"
  by (simp add: same_fields_def kept_fields_def either_same_def)

text \<open>The same node over similar children.\<close>

function similar :: "services \<Rightarrow> operator_node \<Rightarrow> operator_node \<Rightarrow> bool" where
  "similar S n m \<longleftrightarrow>
     length (node_children n) = length (node_children m)
     \<and> (\<forall>p \<in> set (zip (node_children n) (node_children m)). similar S (fst p) (snd p))
     \<and> kept_fields S n m"
  by pat_completeness auto
termination
  by (relation "measure (\<lambda>(_, n, _). node_height n)") (auto dest!: set_zip_leftD intro: children_height)

declare similar.simps [simp del]

lemma similar_iff:
  "similar S n m \<longleftrightarrow> list_all2 (similar S) (node_children n) (node_children m) \<and> kept_fields S n m"
  by (subst similar.simps) (auto simp: list_all2_iff)

lemma similar_refl: "similar S n n"
proof (induction n rule: measure_induct_rule[of node_height])
  case (less n)
  then show ?case by (auto simp: similar_iff[of S n n] list_all2_same intro: children_height)
qed

lemma list_all2_trans_on:
  assumes "list_all2 P xs ys" "list_all2 Q ys zs" "\<And>x y z. x \<in> set xs \<Longrightarrow> P x y \<Longrightarrow> Q y z \<Longrightarrow> R x z"
  shows "list_all2 R xs zs"
  using assms by (auto simp: list_all2_conv_all_nth)

lemma similar_trans: "similar S a b \<Longrightarrow> similar S b c \<Longrightarrow> similar S a c"
proof (induction a arbitrary: b c rule: measure_induct_rule[of node_height])
  case (less a)
  have "list_all2 (similar S) (node_children a) (node_children c)"
    by (rule list_all2_trans_on[of "similar S" _ "node_children b" "similar S"])
      (use less.prems less.IH children_height in \<open>auto simp: similar_iff[of S a b] similar_iff[of S b c]\<close>)
  with less.prems show ?case by (auto simp: similar_iff[of S a] similar_iff[of S b c] intro: kept_fields_trans)
qed

lemma similar_sym: "similar S a b \<Longrightarrow> similar S b a"
proof (induction a arbitrary: b rule: measure_induct_rule[of node_height])
  case (less a)
  note s = less.prems[unfolded similar_iff[of S a b]]
  have "list_all2 (similar S) (node_children b) (node_children a)"
    unfolding list_all2_conv_all_nth
  proof (intro conjI allI impI)
    show "length (node_children b) = length (node_children a)" using s by (auto dest: list_all2_lengthD)
    fix i assume "i < length (node_children b)"
    with s have i: "i < length (node_children a)" "similar S (node_children a ! i) (node_children b ! i)"
      by (simp_all add: list_all2_conv_all_nth)
    from less.IH[OF children_height[OF nth_mem[OF i(1)]] i(2)]
    show "similar S (node_children b ! i) (node_children a ! i)" .
  qed
  with s show ?case by (subst similar_iff) (blast intro: kept_fields_sym)
qed

text \<open>Nodes the interning decision calls the same are similar.\<close>

lemma same_as_similar:
  assumes "coherent T"
  shows "set (node_children a) \<subseteq> T \<Longrightarrow> set (node_children b) \<subseteq> T \<Longrightarrow> same_as S a b \<Longrightarrow> similar S a b"
proof (induction a arbitrary: b rule: measure_induct_rule[of node_height])
  case (less a)
  note same = less.prems(3)[unfolded same_as.simps[of S a]]
  have "similar S c d" if p: "(c, d) \<in> set (zip (node_children a) (node_children b))" for c d
  proof -
    have c: "c \<in> set (node_children a)" and d: "d \<in> set (node_children b)"
      using p by (auto dest: set_zip_leftD set_zip_rightD)
    then have T: "c \<in> T" "d \<in> T" using less.prems by auto
    show ?thesis
    proof (cases "node_id c = node_id d")
      case True
      with coherent_eq[OF assms T] show ?thesis by (simp add: similar_refl)
    next
      case False
      with same p have "same_as S c d" by auto
      then show ?thesis
        using T assms by (intro less.IH[OF children_height[OF c]]) (auto simp: coherent_def)
    qed
  qed
  with same show ?case by (auto simp: similar_iff[of S a b] list_all2_iff intro: same_fields_kept)
qed

end
