(* ===== verification/SharingLaws.thy ===== *)
theory SharingLaws
  imports HashConsLaws
begin

text \<open>
  What Stage 0 may share. Whether equal copies of a node return the same rows is read off the node and its
  children's operators, so a node and its interned copy agree on it; the table keeps this decision, and it
  never misses a copy it may share.
\<close>

section \<open>What the sharing rule reads\<close>

datatype sharing_gate = Always bool | SortedGate bool "column_id group_keys" | KeyGate "column_id list"

fun gate :: "('c, 'n) operator \<Rightarrow> sharing_gate" where
  "gate (NonASAP (Limit n offset partition_by _)) = SortedGate (n = None \<and> offset = 0) partition_by"
| "gate (NonASAP (Dedup cols _)) = KeyGate cols"
| "gate (NonASAP (SQLWindowFunc func _ _ order_by frame _ _)) =
     Always (\<not> reads_row_positions func frame \<or> order_by \<noteq> [])"
| "gate _ = Always True"

fun sorted_within :: "('c, 'n) operator \<Rightarrow> column_id group_keys option" where
  "sorted_within (NonASAP (Sort _ part _)) = Some part"
| "sorted_within _ = None"

definition passes :: "sharing_gate \<Rightarrow> column_id group_keys option list \<Rightarrow> nat list \<Rightarrow> bool" where
  "passes g orders widths =
     (case g of
        Always b \<Rightarrow> b
      | SortedGate all_rows part \<Rightarrow> all_rows \<or> hd orders = Some part
      | KeyGate cols \<Rightarrow> cols = [] \<or> length (remdups cols) = hd widths)"

lemma may_share_gate:
  "may_share n \<longleftrightarrow>
     passes (gate (operator_of n)) (map (\<lambda>c. sorted_within (operator_of c)) (node_children n))
       (map (\<lambda>c. length (schema_fields (node_schema c))) (node_children n))"
proof (cases "operator_of n")
  case (NonASAP op)
  have sorted: "(case non_asap_of c of Some (Sort _ s _) \<Rightarrow> s = part | _ \<Rightarrow> False) \<longleftrightarrow>
      sorted_within (operator_of c) = Some part" for c part
  proof (cases "operator_of c")
    case (NonASAP op')
    then show ?thesis by (cases op') (simp_all add: non_asap_of_def)
  qed (simp add: non_asap_of_def)
  from NonASAP have "may_share n \<longleftrightarrow> is_shareable_when_equal op"
    by (simp add: may_share_def is_asap_def asap_of_def non_asap_of_def)
  then show ?thesis
    by (cases op)
      (simp_all add: NonASAP node_children_def non_asap_children_def passes_def sorted)
next
  case (ASAP op)
  then show ?thesis by (simp add: may_share_def is_asap_def asap_of_def passes_def)
qed

lemma gate_map [simp]: "gate (map_operator f g op) = gate op"
proof (cases op)
  case (NonASAP op')
  then show ?thesis by (cases op') simp_all
qed simp

lemma sorted_within_map [simp]: "sorted_within (map_operator f g op) = sorted_within op"
proof (cases op)
  case (NonASAP op')
  then show ?thesis by (cases op') simp_all
qed simp

lemma canon_list_length: "canon_list f xs = Some ys \<Longrightarrow> length ys = length xs"
proof (induction xs arbitrary: ys)
  case (Cons x xs)
  then show ?case by (auto simp: canon_list_def bind_eq_Some_conv)
qed (simp add: canon_list_def)

lemma canon_frame_reads:
  "canon_option canon_frame frame = Some frame' \<Longrightarrow>
   reads_row_positions func frame' = reads_row_positions func frame"
  by (cases frame)
    (auto simp: canon_option_def sequence_option_def canon_frame_def reads_row_positions_def
      bind_eq_Some_conv split: window_func_kind.splits)

lemma canon_gate:
  "canon_operator op = Some op' \<Longrightarrow> gate op' = gate op \<and> sorted_within op' = sorted_within op"
proof (cases op)
  case (NonASAP o1)
  assume "canon_operator op = Some op'"
  then obtain o2 where o2: "canon_non_asap o1 = Some o2" "op' = NonASAP o2" by (auto simp: NonASAP)
  show ?thesis
  proof (cases o1)
    case (SQLWindowFunc func args part order_by frame out c)
    with o2(1) obtain args' ks frame' c' where
      "canon_list canon_key order_by = Some ks" "canon_option canon_frame frame = Some frame'"
      "o2 = SQLWindowFunc func args' part ks frame' out c'"
      by (auto simp: bind_eq_Some_conv)
    moreover from this(1) have "ks = [] \<longleftrightarrow> order_by = []" by (auto dest: canon_list_length)
    ultimately show ?thesis
      using canon_frame_reads by (simp add: NonASAP SQLWindowFunc o2(2))
  qed (use o2 in \<open>auto simp: NonASAP bind_eq_Some_conv\<close>)
qed auto

lemma own_same_gate:
  assumes "either_same (same_own_value S) (own_fields a) (own_fields b)"
  shows "gate (operator_of a) = gate (operator_of b) \<and> sorted_within (operator_of a) = sorted_within (operator_of b)"
proof (cases "own_fields a = own_fields b")
  case True
  then show ?thesis unfolding own_fields_map by (metis gate_map sorted_within_map)
next
  case False
  with assms have "own_op_eq (own_fields a) (own_fields b)" by (auto simp: either_same_def same_own_value_def)
  then obtain y where
    "canon_operator (map_operator (\<lambda>u. Some u) canon_node (own_fields a)) = Some y"
    "canon_operator (map_operator (\<lambda>u. Some u) canon_node (own_fields b)) = Some y"
    by (auto simp: own_op_eq_def same_by_iff)
  from this[THEN canon_gate] show ?thesis
    unfolding own_fields_map by (metis gate_map sorted_within_map)
qed

text \<open>Similar nodes share alike.\<close>

lemma similar_may_share:
  assumes "similar S a b"
  shows "may_share a \<longleftrightarrow> may_share b"
proof -
  have cs: "list_all2 (similar S) (node_children a) (node_children b)" and
    own: "gate (operator_of a) = gate (operator_of b)"
    using assms own_same_gate[of S a b] by (auto simp: similar_iff[of S a b] kept_fields_def)
  have 1: "sorted_within (operator_of c) = sorted_within (operator_of d)" if "similar S c d" for c d
    using that own_same_gate[of S c d] by (simp add: similar_iff[of S c d] kept_fields_def)
  have 2: "length (schema_fields (node_schema c)) = length (schema_fields (node_schema d))"
    if "similar S c d" for c d
    using that by (auto simp: similar_iff[of S c d] kept_fields_def either_same_def schema_eq_def
        dest: list_all2_lengthD)
  have "map (\<lambda>c. sorted_within (operator_of c)) (node_children a)
      = map (\<lambda>c. sorted_within (operator_of c)) (node_children b)"
    using cs by (induction rule: list_all2_induct) (simp_all add: 1)
  moreover have "map (\<lambda>c. length (schema_fields (node_schema c))) (node_children a)
      = map (\<lambda>c. length (schema_fields (node_schema c))) (node_children b)"
    using cs by (induction rule: list_all2_induct) (simp_all add: 2)
  ultimately show ?thesis by (simp add: may_share_gate own)
qed

end
