(* ===== verification/InternLaws.thy ===== *)
theory InternLaws
  imports SharingLaws "HOL-Library.Sublist"
begin

text \<open>
  The interning pass as a whole: the invariant of the table and of the visited nodes, and what follows for
  every root of the workload.
\<close>

section \<open>The hash cache\<close>

function hash_of :: "services \<Rightarrow> operator_node \<Rightarrow> 64 word" where
  "hash_of S n =
     hash_node S (own_fields n, result_kind n, node_schema n, node_guarantee n, node_timing n,
       node_materialization n) (map (hash_of S) (node_children n))"
  by pat_completeness auto
termination
  by (relation "measure (\<lambda>(_, n). node_height n)") (auto intro: children_height)

declare hash_of.simps [simp del]

definition hashes_right :: "services \<Rightarrow> operator_node set \<Rightarrow> (nat \<rightharpoonup> 64 word) \<Rightarrow> bool" where
  "hashes_right S T cache \<longleftrightarrow>
     (\<forall>i h. cache i = Some h \<longrightarrow> (\<exists>m \<in> T. node_id m = i \<and> h = hash_of S m))"

lemma hashes_right_empty: "hashes_right S T Map.empty"
  by (simp add: hashes_right_def)

lemma hashes_right_mono: "hashes_right S T cache \<Longrightarrow> T \<subseteq> U \<Longrightarrow> hashes_right S U cache"
  unfolding hashes_right_def by blast

lemma hashes_right_lookup:
  "hashes_right S T cache \<Longrightarrow> coherent T \<Longrightarrow> c \<in> T \<Longrightarrow> cache (node_id c) = Some h \<Longrightarrow> h = hash_of S c"
  unfolding hashes_right_def using coherent_eq by blast

lemma hashes_right_insert:
  "hashes_right S T cache \<Longrightarrow> c \<in> T \<Longrightarrow> hashes_right S T (cache(node_id c \<mapsto> hash_of S c))"
  by (auto simp: hashes_right_def)

lemma map_st_right:
  assumes "\<And>x s. x \<in> set xs \<Longrightarrow> I s \<Longrightarrow> I (snd (f x s)) \<and> fst (f x s) = g x"
  shows "I s \<Longrightarrow> I (snd (map_st f xs s)) \<and> fst (map_st f xs s) = map g xs"
  using assms
proof (induction xs arbitrary: s)
  case (Cons x xs)
  obtain y s1 where f: "f x s = (y, s1)" by (cases "f x s")
  from Cons.prems(2)[of x s] Cons.prems(1) f have x: "I s1" "y = g x" by auto
  from Cons.IH[OF x(1)] Cons.prems(2) have "I (snd (map_st f xs s1)) \<and> fst (map_st f xs s1) = map g xs"
    by simp
  with f x show ?case by (auto simp: bind_st_def split: prod.splits)
qed simp

lemma structural_hash_right:
  assumes T: "coherent T"
  shows "set (node_children n) \<subseteq> T \<Longrightarrow> hashes_right S T cache \<Longrightarrow>
    hashes_right S T (snd (structural_hash S n cache)) \<and> fst (structural_hash S n cache) = hash_of S n"
proof (induction n arbitrary: cache rule: measure_induct_rule[of node_height])
  case (less n)
  let ?f = "\<lambda>c cache. case cache (node_id c) of
       Some h \<Rightarrow> (h, cache)
     | None \<Rightarrow> (case structural_hash S c cache of (h, cache) \<Rightarrow> (h, cache(node_id c \<mapsto> h)))"
  have step: "hashes_right S T (snd (?f c s)) \<and> fst (?f c s) = hash_of S c"
    if c: "c \<in> set (node_children n)" and s: "hashes_right S T s" for c s
  proof (cases "s (node_id c)")
    case None
    obtain h s1 where run: "structural_hash S c s = (h, s1)" by (cases "structural_hash S c s")
    have "hashes_right S T (snd (structural_hash S c s)) \<and> fst (structural_hash S c s) = hash_of S c"
      using less.prems c s T by (intro less.IH children_height) (auto simp: coherent_def)
    with run have "hashes_right S T s1" "h = hash_of S c" by auto
    with hashes_right_insert[of S T s1 c] None run less.prems c show ?thesis by auto
  next
    case (Some h)
    with hashes_right_lookup[OF s T, of c h] less.prems c s show ?thesis by auto
  qed
  obtain hs c1 where run: "map_st ?f (node_children n) cache = (hs, c1)"
    by (cases "map_st ?f (node_children n) cache")
  have "hashes_right S T c1 \<and> hs = map (hash_of S) (node_children n)"
    using map_st_right[where I = "hashes_right S T" and f = ?f and g = "hash_of S"
        and xs = "node_children n" and s = cache] step less.prems(2)
    by (simp only: run fst_conv snd_conv)
  moreover have "structural_hash S n cache =
      (hash_node S (own_fields n, result_kind n, node_schema n, node_guarantee n, node_timing n,
         node_materialization n) hs, c1)"
    by (subst structural_hash.simps) (simp only: run prod.case)
  ultimately show ?case by (simp add: hash_of.simps[of S n])
qed

section \<open>The table\<close>

definition table_nodes :: "intern_table \<Rightarrow> operator_node set" where
  "table_nodes t = (\<Union>h. set (buckets t h))"

text \<open>A bucket holds nodes of its hash, and no node that may be shared after one that is the same.\<close>

definition buckets_ok :: "services \<Rightarrow> intern_table \<Rightarrow> bool" where
  "buckets_ok S t \<longleftrightarrow>
     (\<forall>h. (\<forall>x \<in> set (buckets t h). hash_of S x = h)
        \<and> sorted_wrt (\<lambda>a b. may_share b \<longrightarrow> \<not> same_as S a b) (buckets t h))"

definition table_ok :: "services \<Rightarrow> intern_table \<Rightarrow> bool" where
  "table_ok S t \<longleftrightarrow>
     buckets_ok S t \<and>
     coherent (table_nodes t) \<and> (\<forall>m \<in> table_nodes t. node_id m < next_rc t)
     \<and> pairs_right S (table_nodes t) (pair_results t) \<and> hashes_right S (table_nodes t) (hash_cache t)"

lemma new_table_ok: "table_ok S (new_table i)"
  by (simp add: table_ok_def buckets_ok_def new_table_def table_nodes_def coherent_def pairs_right_empty hashes_right_empty)

text \<open>The node a table already has for one, if it may be shared.\<close>

definition known :: "services \<Rightarrow> intern_table \<Rightarrow> operator_node \<Rightarrow> operator_node option" where
  "known S t n =
     (if may_share n then find (\<lambda>c. same_as S c n) (buckets t (hash_of S n)) else None)"

definition bucket_order :: "intern_table \<Rightarrow> intern_table \<Rightarrow> bool" where
  "bucket_order t t' \<longleftrightarrow> (\<forall>h. prefix (buckets t h) (buckets t' h))"

lemma bucket_order_nodes: "bucket_order t t' \<Longrightarrow> table_nodes t \<subseteq> table_nodes t'"
  unfolding bucket_order_def table_nodes_def by (force dest: set_mono_prefix)

lemma table_nodes_push:
  "buckets t' = (buckets t)(h := buckets t h @ [n]) \<Longrightarrow> table_nodes t' = insert n (table_nodes t)"
  by (auto simp: table_nodes_def split: if_splits)

lemma buckets_push:
  assumes "buckets_ok S t" and "known S t n = None"
    and "buckets t' = (buckets t)(hash_of S n := buckets t (hash_of S n) @ [n])"
  shows "buckets_ok S t'"
proof -
  have "may_share n \<Longrightarrow> c \<in> set (buckets t (hash_of S n)) \<Longrightarrow> \<not> same_as S c n" for c
    using assms(2) by (simp add: known_def find_None_iff)
  then have "sorted_wrt (\<lambda>a b. may_share b \<longrightarrow> \<not> same_as S a b) (buckets t (hash_of S n) @ [n])"
    using assms(1) by (auto simp: buckets_ok_def sorted_wrt_append)
  with assms(1) show ?thesis
    by (simp add: buckets_ok_def assms(3))
qed

text \<open>So two nodes of one hash that may be shared are the same only if they are one.\<close>

lemma buckets_apart:
  assumes ok: "buckets_ok S t" and a: "a \<in> table_nodes t" and b: "b \<in> table_nodes t"
    and hash: "hash_of S a = hash_of S b" and share: "may_share a" "may_share b"
    and same: "same_as S a b" "same_as S b a"
  shows "a = b"
proof -
  let ?bucket = "buckets t (hash_of S b)"
  have in_bucket: "x \<in> set (buckets t (hash_of S x))" if "x \<in> table_nodes t" for x
    using that ok by (auto simp: table_nodes_def buckets_ok_def)
  obtain i j where at: "i < length ?bucket" "?bucket ! i = a" "j < length ?bucket" "?bucket ! j = b"
    using in_bucket [OF a] in_bucket [OF b] by (auto simp: hash in_set_conv_nth)
  have apart: "sorted_wrt (\<lambda>a b. may_share b \<longrightarrow> \<not> same_as S a b) ?bucket"
    using ok by (simp add: buckets_ok_def)
  have False if "i < j"
    using sorted_wrt_nth_less [OF apart that at(3)] share(2) same(1) unfolding at(2) at(4) by simp
  moreover have False if "j < i"
    using sorted_wrt_nth_less [OF apart that at(1)] share(1) same(2) unfolding at(2) at(4) by simp
  ultimately have "i = j" by (meson linorder_neqE_nat)
  then have "?bucket ! i = ?bucket ! j" by (rule arg_cong)
  then show ?thesis unfolding at(2) at(4) .
qed

lemma intern_right:
  assumes ok: "table_ok S t" and kids: "set (node_children n) \<subseteq> table_nodes t" and fresh: "node_id n = next_rc t"
    and run: "intern S n t = (m, t')"
  shows "table_ok S t' \<and> bucket_order t t' \<and> m \<in> table_nodes t'
    \<and> (case known S t n of
         Some e \<Rightarrow> m = e \<and> m \<in> table_nodes t \<and> same_as S m n \<and> may_share n \<and> buckets t' = buckets t
       | None \<Rightarrow> m = n \<and> m \<notin> table_nodes t
           \<and> buckets t' = (buckets t)(hash_of S n := buckets t (hash_of S n) @ [n]))"
proof -
  let ?T = "table_nodes t"
  let ?h = "hash_of S n"
  have T: "coherent ?T" and pairs: "pairs_right S ?T (pair_results t)" and hashes: "hashes_right S ?T (hash_cache t)"
    using ok by (auto simp: table_ok_def)
  obtain hc where hash: "structural_hash S n (hash_cache t) = (?h, hc)" "hashes_right S ?T hc"
    using structural_hash_right[OF T kids hashes] by (cases "structural_hash S n (hash_cache t)") auto
  let ?look = "if may_share n
      then find_st (\<lambda>candidate. same_node S candidate n) (buckets t ?h) (pair_results t)
      else (None, pair_results t)"
  have look: "pairs_right S ?T (snd ?look) \<and> fst ?look = known S t n"
  proof (cases "may_share n")
    case True
    have "pairs_right S ?T (snd (same_node S c n s)) \<and> (fst (same_node S c n s) \<longleftrightarrow> same_as S c n)"
      if "c \<in> set (buckets t ?h)" "pairs_right S ?T s" for c s
    proof (rule same_node_right)
      show "inj_on node_id ?T" "\<forall>m \<in> ?T. set (node_children m) \<subseteq> ?T" using T by (auto simp: coherent_def)
      have "c \<in> ?T" using that(1) by (auto simp: table_nodes_def)
      then show "set (node_children c) \<subseteq> ?T" using T by (auto simp: coherent_def)
    qed (use that kids in auto)
    from find_st_right[where I = "pairs_right S ?T" and f = "\<lambda>candidate. same_node S candidate n"
        and P = "\<lambda>c. same_as S c n" and xs = "buckets t ?h", OF this pairs] True
    show ?thesis by (simp add: known_def)
  qed (use pairs in \<open>simp add: known_def\<close>)
  obtain ps where ps: "?look = (known S t n, ps)" "pairs_right S ?T ps"
    using look by (cases ?look) (simp only: fst_conv snd_conv)
  have out: "n \<notin> ?T" using ok fresh by (auto simp: table_ok_def)
  show ?thesis
  proof (cases "known S t n")
    case None
    then have r: "m = n" "t' = t\<lparr>buckets := (buckets t)(?h := buckets t ?h @ [n]), hash_cache := hc,
                     pair_results := ps, next_rc := Suc (next_rc t)\<rparr>"
      using run unfolding intern_def hash prod.case ps(1) by auto
    have T': "table_nodes t' = insert n ?T" by (rule table_nodes_push[where h = ?h]) (simp add: r)
    have "coherent (insert n ?T)"
      using ok fresh kids by (intro coherent_insert) (auto simp: table_ok_def)
    moreover have "buckets_ok S t'"
      by (rule buckets_push [OF _ None]) (use ok in \<open>simp_all add: table_ok_def r\<close>)
    ultimately have "table_ok S t'"
      using ok fresh ps(2) hash(2) unfolding table_ok_def T'
      by (auto simp: r intro: pairs_right_mono[OF ps(2)] hashes_right_mono[OF hash(2)])
    moreover have "bucket_order t t'" by (simp add: bucket_order_def r)
    ultimately show ?thesis using out T' by (simp add: None) (simp add: r)
  next
    case (Some e)
    then have r: "m = e" "t' = t\<lparr>hash_cache := hc, pair_results := ps\<rparr>"
      using run unfolding intern_def hash prod.case ps(1) by auto
    from Some have e: "may_share n" "find (\<lambda>c. same_as S c n) (buckets t ?h) = Some e"
      by (auto simp: known_def split: if_splits)
    then have "e \<in> set (buckets t ?h)" and same: "same_as S e n" by (auto simp: find_Some_iff)
    then have "e \<in> ?T" by (auto simp: table_nodes_def)
    note this same
    moreover have "table_nodes t' = ?T" by (simp add: r table_nodes_def)
    moreover have "table_ok S t'"
      using ok ps(2) hash(2) by (simp add: table_ok_def buckets_ok_def r table_nodes_def)
    ultimately show ?thesis using e by (simp add: Some) (simp add: r bucket_order_def)
  qed
qed


section \<open>The pass\<close>

text \<open>A node rebuilt over the copies of its children; its address does not matter.\<close>

definition copied :: "(nat \<rightharpoonup> operator_node \<times> operator_node) \<Rightarrow> operator_node \<Rightarrow> operator_node" where
  "copied v n = rebuilt 0 n (map_operator (\<lambda>c. snd (the (v (node_id c)))) id (operator_of n))"

lemma rebuilt_simps [simp]:
  "node_id (rebuilt i n op) = i" "operator_of (rebuilt i n op) = op" "result_kind (rebuilt i n op) = output_kind op"
  "node_schema (rebuilt i n op) = node_schema n" "node_guarantee (rebuilt i n op) = node_guarantee n"
  "node_timing (rebuilt i n op) = node_timing n"
  "node_materialization (rebuilt i n op) = node_materialization n"
  "node_children (rebuilt i n op) = children_of op"
  by (simp_all add: rebuilt_def with_schema_def node_children_def)

lemma own_fields_rebuilt [simp]: "own_fields (rebuilt i n (map_operator h id (operator_of n))) = own_fields n"
  by (simp add: own_fields_map operator.map_comp comp_def id_def)

lemma own_fields_op: "own_fields (rebuilt i n op) = own_fields (rebuilt j n' op)"
  by (simp add: own_fields_map)

lemma hash_of_address: "hash_of S (rebuilt i n op) = hash_of S (rebuilt j n op)"
  by (simp add: hash_of.simps[of S "rebuilt _ n op"] own_fields_op[of i n op j n])

lemma same_as_address: "same_as S c (rebuilt i n op) = same_as S c (rebuilt j n op)"
  by (simp add: same_as.simps[of S c] same_fields_def own_fields_op[of i n op j n])

lemma may_share_address: "may_share (rebuilt i n op) = may_share (rebuilt j n op)"
  by (simp add: may_share_gate)

lemma copied_children:
  "node_children (copied v n) = map (\<lambda>c. snd (the (v (node_id c)))) (node_children n)"
  by (simp add: copied_def children_of_map node_children_def)

lemma copied_similar:
  "\<forall>c \<in> set (node_children n). similar S c (snd (the (v (node_id c)))) \<Longrightarrow> similar S n (copied v n)"
  by (subst similar_iff)
    (simp add: copied_children kept_fields_def, simp add: copied_def list.rel_map list_all2_same)

lemma copied_cong:
  assumes "\<forall>c \<in> set (node_children n). v (node_id c) = w (node_id c)"
  shows "copied v n = copied w n"
proof -
  have "map_operator (\<lambda>c. snd (the (v (node_id c)))) id (operator_of n)
      = map_operator (\<lambda>c. snd (the (w (node_id c)))) id (operator_of n)"
    by (rule operator.map_cong0) (use assms in \<open>auto simp: node_children_def set_children_of\<close>)
  then show ?thesis by (simp add: copied_def)
qed

text \<open>
  A visited node: its children are visited, its copy is a node of the table and similar to it, it has the copy
  for itself or may share it, and, if it may share and compares equal to itself, its copy is the first node of
  its bucket that is the same.
\<close>

definition recorded :: "services \<Rightarrow> operator_node set \<Rightarrow> operator_node \<Rightarrow> operator_node \<Rightarrow> intern_state \<Rightarrow> bool" where
  "recorded S N n m st \<longleftrightarrow>
     (\<forall>c \<in> set (node_children n). snd st (node_id c) \<noteq> None)
     \<and> m \<in> table_nodes (fst st) \<and> similar S n m
     \<and> (\<forall>k \<in> N. snd st (node_id k) = Some (k, m) \<longrightarrow> k = n \<or> may_share n)
     \<and> (may_share n \<and> same_fields S n n \<longrightarrow>
          find (\<lambda>c. same_as S c (copied (snd st) n)) (buckets (fst st) (hash_of S (copied (snd st) n))) = Some m)"

definition pass_ok :: "services \<Rightarrow> operator_node set \<Rightarrow> intern_state \<Rightarrow> bool" where
  "pass_ok S N st \<longleftrightarrow>
     table_ok S (fst st)
     \<and> (\<forall>m \<in> table_nodes (fst st). \<exists>n \<in> N. snd st (node_id n) = Some (n, m))
     \<and> (\<forall>n \<in> N. \<forall>e. snd st (node_id n) = Some e \<longrightarrow> fst e = n \<and> recorded S N n (snd e) st)"

definition pass_order :: "intern_state \<Rightarrow> intern_state \<Rightarrow> bool" where
  "pass_order st st' \<longleftrightarrow> bucket_order (fst st) (fst st') \<and> snd st \<subseteq>\<^sub>m snd st'"

definition copy_in :: "operator_node \<Rightarrow> operator_node \<Rightarrow> intern_state \<Rightarrow> bool" where
  "copy_in n m st \<longleftrightarrow> snd st (node_id n) = Some (n, m)"

text \<open>Only nodes below some height are visited.\<close>

definition visited_below :: "operator_node set \<Rightarrow> nat set \<Rightarrow> nat \<Rightarrow> intern_state \<Rightarrow> bool" where
  "visited_below N D h st \<longleftrightarrow> dom (snd st) \<subseteq> D \<union> node_id ` {x \<in> N. node_height x < h}"

definition pass_inv ::
  "services \<Rightarrow> operator_node set \<Rightarrow> nat set \<Rightarrow> nat \<Rightarrow> intern_state \<Rightarrow> bool" where
  "pass_inv S N D h st \<longleftrightarrow> pass_ok S N st \<and> visited_below N D h st"

lemma bucket_order_refl [simp]: "bucket_order t t"
  by (simp add: bucket_order_def)

lemma bucket_order_trans: "bucket_order r s \<Longrightarrow> bucket_order s t \<Longrightarrow> bucket_order r t"
  unfolding bucket_order_def by (meson prefix_order.trans)

lemma pass_order_refl: "pass_order st st"
  by (simp add: pass_order_def)

lemma pass_order_trans: "pass_order r s \<Longrightarrow> pass_order s t \<Longrightarrow> pass_order r t"
  unfolding pass_order_def by (meson bucket_order_trans map_le_trans)

lemma copy_in_stable: "pass_order s t \<Longrightarrow> copy_in n m s \<Longrightarrow> copy_in n m t"
  by (force simp: pass_order_def copy_in_def map_le_def)

interpretation interning: state_order "pass_inv S N D h" pass_order copy_in for S N D h
  by unfold_locales (auto intro: pass_order_refl pass_order_trans copy_in_stable)

lemma rel_children_copied:
  assumes "rel_operator (\<lambda>c d. copy_in c d st) (=) op op'"
  shows "(\<forall>c \<in> set (children_of op). snd st (node_id c) \<noteq> None)
    \<and> op' = map_operator (\<lambda>c. snd (the (snd st (node_id c)))) id op"
proof
  have r: "rel_operator (\<lambda>c d. snd st (node_id c) = Some (c, d)) (=) op op'"
    by (rule operator.rel_mono_strong[OF assms]) (auto simp: copy_in_def)
  then show "\<forall>c \<in> set (children_of op). snd st (node_id c) \<noteq> None"
    by (fastforce simp: operator.in_rel set_children_of operator.set_map)
  show "op' = map_operator (\<lambda>c. snd (the (snd st (node_id c)))) id op"
    by (rule rel_operator_map, rule operator.rel_mono_strong[OF r]) auto
qed

text \<open>Recording stays right while the table grows and other nodes are visited.\<close>

lemma find_append: "find P (xs @ ys) = (case find P xs of None \<Rightarrow> find P ys | Some x \<Rightarrow> Some x)"
  by (induction xs) auto

lemma find_prefix: "prefix xs ys \<Longrightarrow> find P xs = Some x \<Longrightarrow> find P ys = Some x"
  by (auto simp: prefix_def find_append)

lemma recorded_later:
  assumes order: "pass_order st st'" and rec: "recorded S N n m st"
    and only: "\<forall>k \<in> N. snd st' (node_id k) = Some (k, m) \<longrightarrow> snd st (node_id k) = Some (k, m) \<or> may_share n"
  shows "recorded S N n m st'"
proof -
  have v: "snd st' (node_id c) = snd st (node_id c)" if "c \<in> set (node_children n)" for c
    using that order rec unfolding pass_order_def recorded_def map_le_def by (metis domIff)
  have c: "copied (snd st') n = copied (snd st) n" by (rule copied_cong) (use v in auto)
  have "table_nodes (fst st) \<subseteq> table_nodes (fst st')"
    using order by (auto simp: pass_order_def dest: bucket_order_nodes)
  moreover have "find P (buckets (fst st) h) = Some m \<Longrightarrow> find P (buckets (fst st') h) = Some m" for P h
    using order unfolding pass_order_def bucket_order_def by (metis find_prefix)
  ultimately show ?thesis
    using rec only v unfolding recorded_def c by auto
qed

text \<open>Storing the copy of a node keeps the invariant.\<close>

lemma store_copy:
  assumes N: "coherent N" "n \<in> N" and ok: "pass_ok S N st"
    and new: "snd st (node_id n) = None"
    and kids: "\<forall>c \<in> set (node_children n). snd st (node_id c) \<noteq> None"
    and op: "op = map_operator (\<lambda>c. snd (the (snd st (node_id c)))) id (operator_of n)"
    and run: "intern S (rebuilt (next_rc (fst st)) n op) (fst st) = (m, t')"
  defines "st' \<equiv> (t', (snd st)(node_id n \<mapsto> (n, m)))"
  shows "pass_ok S N st' \<and> pass_order st st' \<and> copy_in n m st'"
proof -
  let ?r = "rebuilt (next_rc (fst st)) n op"
  let ?t = "fst st"
  have cN: "c \<in> N" if "c \<in> set (node_children n)" for c using that N by (auto simp: coherent_def)
  have kid: "snd st (node_id c) = Some (c, snd (the (snd st (node_id c))))
      \<and> recorded S N c (snd (the (snd st (node_id c)))) st" if "c \<in> set (node_children n)" for c
  proof -
    from kids that obtain k d where k: "snd st (node_id c) = Some (k, d)" by fastforce
    with ok cN[OF that] have "k = c" "recorded S N c d st" by (auto simp: pass_ok_def)
    with k show ?thesis by simp
  qed
  have r: "?r = rebuilt (next_rc ?t) n op" "copied (snd st) n = rebuilt 0 n op" by (simp_all add: copied_def op)
  have tok: "table_ok S ?t" using ok by (simp add: pass_ok_def)
  have rk: "set (node_children ?r) \<subseteq> table_nodes ?t"
    using kid by (auto simp: op children_of_map node_children_def[symmetric] recorded_def)
  note i = intern_right[OF tok rk _ run, simplified]
  have order: "pass_order st st'"
    using i new by (auto simp: pass_order_def st'_def map_le_def)
  have "similar S n (copied (snd st) n)"
    by (rule copied_similar) (use kid in \<open>auto simp: recorded_def\<close>)
  moreover have "similar S (rebuilt 0 n op) ?r"
    by (subst similar_iff) (simp add: list_all2_same similar_refl kept_fields_def own_fields_op[of 0 n op "next_rc ?t" n])
  ultimately have nr: "similar S n ?r" unfolding r(2) by (rule similar_trans)
  then have share: "may_share ?r = may_share n" by (simp add: similar_may_share)
  have self: "same_fields S ?r ?r" if "same_fields S n n"
    using that by (simp add: same_fields_def op)
  have "similar S n m"
  proof (cases "known S ?t ?r")
    case (Some e)
    with i have "m \<in> table_nodes ?t" "same_as S m ?r" by auto
    moreover have T: "coherent (table_nodes ?t)" using tok by (simp add: table_ok_def)
    ultimately have "similar S m ?r"
      using rk by (intro same_as_similar[OF T]) (auto simp: coherent_def)
    with nr show ?thesis using similar_trans similar_sym by blast
  qed (use i nr in simp)
  moreover have "k = n \<or> may_share n"
    if "k \<in> N" "snd st' (node_id k) = Some (k, m)" for k
  proof (cases "known S ?t ?r")
    case None
    with i have "m \<notin> table_nodes ?t" by auto
    with ok that(1) have old: "snd st (node_id k) \<noteq> Some (k, m)" by (auto simp: pass_ok_def recorded_def)
    have "node_id k = node_id n"
    proof (rule ccontr)
      assume "node_id k \<noteq> node_id n"
      with that(2) have "snd st (node_id k) = Some (k, m)" by (simp add: st'_def)
      with old show False ..
    qed
    with coherent_eq[OF N(1) that(1) N(2)] show ?thesis by simp
  qed (use i share in simp)
  moreover have "find (\<lambda>c. same_as S c ?r) (buckets t' (hash_of S ?r)) = Some m"
    if "may_share n" "same_fields S n n"
  proof (cases "known S ?t ?r")
    case None
    with that share have "find (\<lambda>c. same_as S c ?r) (buckets ?t (hash_of S ?r)) = None"
      by (simp add: known_def)
    moreover have "same_as S ?r ?r"
      using self[OF that(2)] by (auto simp: same_as.simps[of S ?r ?r] zip_same_conv_map)
    ultimately show ?thesis using i None by (simp add: find_append)
  next
    case (Some e)
    with i have "buckets t' = buckets ?t" "m = e" by auto
    with Some show ?thesis by (simp add: known_def split: if_splits)
  qed
  moreover have same: "copied (snd st') n = rebuilt 0 n op"
    unfolding r(2)[symmetric] by (rule copied_cong) (use kids new in \<open>auto simp: st'_def\<close>)
  moreover have "snd st' (node_id c) \<noteq> None" if "c \<in> set (node_children n)" for c
    using kids that by (simp add: st'_def)
  ultimately have rec: "recorded S N n m st'"
    using i unfolding recorded_def same
    by (simp add: st'_def same_as_address[of S _ 0 n op "next_rc ?t"] hash_of_address[of S 0 n op "next_rc ?t"])
  have "fst e = k \<and> recorded S N k (snd e) st'" if k: "k \<in> N" "snd st' (node_id k) = Some e" for k e
  proof (cases "node_id k = node_id n")
    case True
    with coherent_eq[OF N(1) k(1) N(2)] k have "k = n" "e = (n, m)" by (simp_all add: st'_def)
    with rec show ?thesis by simp
  next
    case False
    with k have old: "snd st (node_id k) = Some e" by (simp add: st'_def)
    with ok k(1) have e: "fst e = k" "recorded S N k (snd e) st" unfolding pass_ok_def by blast+
    have "recorded S N k (snd e) st'"
    proof (rule recorded_later[OF order e(2)], intro ballI impI)
      fix j assume j: "j \<in> N" "snd st' (node_id j) = Some (j, snd e)"
      show "snd st (node_id j) = Some (j, snd e) \<or> may_share k"
      proof (cases "node_id j = node_id n")
        case True
        with j have m: "snd e = m" "j = n" by (auto simp: st'_def)
        with e(2) have "m \<in> table_nodes ?t" "similar S k m" by (auto simp: recorded_def)
        with i have "may_share n" using share by (cases "known S ?t ?r") auto
        with \<open>similar S n m\<close> \<open>similar S k m\<close> show ?thesis by (simp add: similar_may_share)
      qed (use j in \<open>simp add: st'_def\<close>)
    qed
    with e(1) show ?thesis by simp
  qed
  moreover have "\<exists>k \<in> N. snd st' (node_id k) = Some (k, x)" if x: "x \<in> table_nodes t'" for x
  proof (cases "x = m")
    case True
    with N(2) show ?thesis by (auto simp: st'_def)
  next
    case False
    have "x \<in> table_nodes ?t"
    proof (cases "known S ?t ?r")
      case None
      with i have "m = ?r"
        and push: "buckets t' = (buckets ?t)(hash_of S ?r := buckets ?t (hash_of S ?r) @ [?r])" by auto
      with table_nodes_push[OF push] False x show ?thesis by simp
    next
      case (Some e)
      with i have "buckets t' = buckets ?t" by simp
      with x show ?thesis by (simp add: table_nodes_def)
    qed
    with ok obtain k where k: "k \<in> N" "snd st (node_id k) = Some (k, x)" unfolding pass_ok_def by blast
    with new have "node_id k \<noteq> node_id n" by auto
    with k show ?thesis by (auto simp: st'_def)
  qed
  moreover have "table_ok S t'" using i by simp
  ultimately have "pass_ok S N st'" unfolding pass_ok_def by (simp add: st'_def)
  with order show ?thesis by (simp add: copy_in_def st'_def)
qed


lemma intern_bottom_up_unfold:
  "intern_bottom_up S n st =
     (case snd st (node_id n) of
        Some (_, interned) \<Rightarrow> (interned, st)
      | None \<Rightarrow>
          (case map_children_st (intern_bottom_up S) (operator_of n) st of
             (op, st) \<Rightarrow>
               (case intern S (rebuilt (next_rc (fst st)) n op) (fst st) of
                  (interned, t) \<Rightarrow> (interned, (t, (snd st)(node_id n \<mapsto> (n, interned)))))))"
  by (subst intern_bottom_up.simps) (simp split: prod.splits option.splits)

lemma intern_bottom_up_sat:
  assumes N: "coherent N"
  shows "n \<in> N \<Longrightarrow> node_height n < h \<Longrightarrow> interning.sat S N D h (intern_bottom_up S n) (copy_in n)"
proof (induction n arbitrary: D h rule: measure_induct_rule[of node_height])
  case (less n)
  show ?case
    unfolding interning.sat_def
  proof (intro allI impI)
    fix st assume st: "pass_inv S N D h st"
    let ?goal = "\<lambda>z. case z of (m, st') \<Rightarrow> pass_inv S N D h st' \<and> pass_order st st' \<and> copy_in n m st'"
    show "?goal (intern_bottom_up S n st)"
    proof (cases "snd st (node_id n)")
      case (Some e)
      obtain k m where e: "e = (k, m)" by (cases e)
      with Some st less.prems(1) have "k = n" by (auto simp: pass_inv_def pass_ok_def)
      with Some e st show ?thesis
        by (subst intern_bottom_up_unfold) (simp add: pass_order_refl copy_in_def)
    next
      case None
      let ?D = "dom (snd st)"
      have st0: "pass_inv S N ?D (node_height n) st"
        using st by (auto simp: pass_inv_def visited_below_def)
      obtain op st1 where kids: "map_children_st (intern_bottom_up S) (operator_of n) st = (op, st1)"
        by (cases "map_children_st (intern_bottom_up S) (operator_of n) st")
      have "interning.sat S N ?D (node_height n) (map_children_st (intern_bottom_up S) (operator_of n))
          (\<lambda>op' s. rel_operator (\<lambda>c d. copy_in c d s) (=) (operator_of n) op')"
      proof (rule interning.sat_children)
        fix c assume "c \<in> set (children_of (operator_of n))"
        then have c: "c \<in> set (node_children n)" by (simp add: node_children_def)
        with N less.prems(1) have "c \<in> N" by (auto simp: coherent_def)
        from less.IH[OF children_height[OF c] this children_height[OF c]]
        show "interning.sat S N ?D (node_height n) (intern_bottom_up S c) (copy_in c)" .
      qed
      from interning.satD[OF this st0 kids]
      have st1: "pass_inv S N ?D (node_height n) st1" "pass_order st st1"
        and rel: "rel_operator (\<lambda>c d. copy_in c d st1) (=) (operator_of n) op" by blast+
      have "node_id n \<notin> node_id ` {x \<in> N. node_height x < node_height n}"
        using coherent_eq[OF N less.prems(1)] by (metis (no_types, lifting) image_iff less_irrefl mem_Collect_eq)
      moreover have "node_id n \<notin> ?D" using None by blast
      moreover have "dom (snd st1) \<subseteq> ?D \<union> node_id ` {x \<in> N. node_height x < node_height n}"
        using st1(1) by (simp add: pass_inv_def visited_below_def)
      ultimately have new: "snd st1 (node_id n) = None" by blast
      obtain m t' where run: "intern S (rebuilt (next_rc (fst st1)) n op) (fst st1) = (m, t')"
        by (cases "intern S (rebuilt (next_rc (fst st1)) n op) (fst st1)")
      let ?st' = "(t', (snd st1)(node_id n \<mapsto> (n, m)))"
      have ok: "pass_ok S N ?st' \<and> pass_order st1 ?st' \<and> copy_in n m ?st'"
      proof (rule store_copy[OF N less.prems(1) _ new _ _ run])
        show "pass_ok S N st1" using st1(1) by (simp add: pass_inv_def)
      qed (use rel_children_copied[OF rel] in \<open>simp_all add: node_children_def\<close>)
      moreover have "visited_below N D h ?st'"
      proof -
        let ?X = "node_id ` {x \<in> N. node_height x < h}"
        have low: "node_id ` {x \<in> N. node_height x < node_height n} \<subseteq> ?X" using less.prems(2) by auto
        have "dom (snd st1) \<subseteq> ?D \<union> node_id ` {x \<in> N. node_height x < node_height n}" "?D \<subseteq> D \<union> ?X"
          using st st1(1) by (simp_all add: pass_inv_def visited_below_def)
        then have "dom (snd st1) \<subseteq> D \<union> ?X"
          using low by (meson Un_least Un_upper2 subset_trans)
        moreover have "node_id n \<in> D \<union> ?X" using less.prems by blast
        ultimately show ?thesis
          by (simp only: visited_below_def snd_conv dom_fun_upd option.simps if_False insert_subset)
      qed
      moreover have "intern_bottom_up S n st = (m, ?st')"
        by (subst intern_bottom_up_unfold) (simp add: None kids run)
      ultimately show ?thesis
        using pass_order_trans[OF st1(2)] by (simp only: prod.case pass_inv_def)
    qed
  qed
qed

text \<open>The whole pass.\<close>

lemma pass_ok_new: "pass_ok S N (new_table i, Map.empty)"
  by (simp add: pass_ok_def new_table_ok) (simp add: table_nodes_def new_table_def)

lemma share_ok:
  assumes N: "coherent N" "snd ` set roots \<subseteq> N"
    and run: "share_common_sub_dags S i roots = (out, st)"
  shows "pass_ok S N st \<and> list_all2 (\<lambda>r m. fst m = fst r \<and> copy_in (snd r) (snd m) st) roots out"
proof -
  let ?h = "Suc (Max (insert 0 (node_height ` snd ` set roots)))"
  have "interning.sat S N {} ?h (\<lambda>st. case intern_bottom_up S (snd r) st of (m, st) \<Rightarrow> ((fst r, m), st))
      (\<lambda>m s. fst m = fst r \<and> copy_in (snd r) (snd m) s)" if r: "r \<in> set roots" for r
  proof -
    have "node_height (snd r) < ?h" using r by (auto intro!: le_imp_less_Suc Max_ge)
    moreover have "snd r \<in> N" using N(2) r by blast
    ultimately have "interning.sat S N {} ?h (intern_bottom_up S (snd r)) (copy_in (snd r))"
      by (intro intern_bottom_up_sat[OF N(1)])
    then show ?thesis unfolding interning.sat_def by (simp add: case_prod_unfold)
  qed
  moreover have "interning.stable (\<lambda>s. fst m = fst r \<and> copy_in (snd r) (snd m) s)" for r m :: "'a \<times> operator_node"
    by (auto simp: interning.stable_def intro: copy_in_stable)
  ultimately have "interning.sat S N {} ?h
      (map_st (\<lambda>r st. case intern_bottom_up S (snd r) st of (m, st) \<Rightarrow> ((fst r, m), st)) roots)
      (\<lambda>ms s. list_all2 (\<lambda>r m. fst m = fst r \<and> copy_in (snd r) (snd m) s) roots ms)"
    by (intro interning.sat_map_st)
  from interning.satD[OF this _ run[unfolded share_common_sub_dags_def]] pass_ok_new[of S N i]
  show ?thesis by (simp add: pass_inv_def visited_below_def)
qed


lemma pass_recorded:
  "pass_ok S N st \<Longrightarrow> n \<in> N \<Longrightarrow> snd st (node_id n) = Some (k, m) \<Longrightarrow> k = n \<and> recorded S N n m st"
  unfolding pass_ok_def by force

lemma list_all2_partner: "list_all2 P xs ys \<Longrightarrow> y \<in> set ys \<Longrightarrow> \<exists>x \<in> set xs. P x y"
  by (induction rule: list_all2_induct) auto

text \<open>The interned nodes of a workload are one DAG, of at most as many nodes as the workload has.\<close>

lemma interned_nodes:
  assumes N: "coherent N" "snd ` set roots \<subseteq> N" and run: "share_common_sub_dags S i roots = (out, st)"
  shows "(\<Union>m \<in> set out. below (snd m)) \<subseteq> table_nodes (fst st)"
proof -
  from share_ok[OF N run] have ok: "pass_ok S N st"
    and all: "list_all2 (\<lambda>r m. fst m = fst r \<and> copy_in (snd r) (snd m) st) roots out" by blast+
  have U: "coherent (table_nodes (fst st))" using ok by (simp add: pass_ok_def table_ok_def)
  have "snd m \<in> table_nodes (fst st)" if m: "m \<in> set out" for m
  proof -
    from list_all2_partner[OF all m] obtain r where r: "r \<in> set roots" "copy_in (snd r) (snd m) st" by blast
    have "snd r \<in> N" using N(2) r(1) by blast
    with pass_recorded[OF ok, of "snd r"] r(2) show ?thesis by (simp add: copy_in_def recorded_def)
  qed
  then show ?thesis using coherent_below[OF U] by blast
qed

lemma interned_dag:
  assumes N: "coherent N" "snd ` set roots \<subseteq> N" and run: "share_common_sub_dags S i roots = (out, st)"
  defines "T \<equiv> \<Union>m \<in> set out. below (snd m)"
  shows "coherent T" "finite N \<Longrightarrow> finite T \<and> card T \<le> card N"
proof -
  from share_ok[OF N run] have ok: "pass_ok S N st" by blast
  let ?U = "table_nodes (fst st)"
  have U: "coherent ?U" using ok by (simp add: pass_ok_def table_ok_def)
  have TU: "T \<subseteq> ?U" unfolding T_def by (rule interned_nodes[OF N run])
  have "inj_on node_id T" using U TU by (auto simp: coherent_def intro: inj_on_subset)
  moreover have "set (node_children n) \<subseteq> T" if "n \<in> T" for n
    using that unfolding T_def by (auto intro: below_step)
  ultimately show "coherent T" by (simp add: coherent_def)
  assume fin: "finite N"
  have "T \<subseteq> (\<lambda>n. snd (the (snd st (node_id n)))) ` N"
  proof
    fix m assume "m \<in> T"
    with TU ok obtain n where "n \<in> N" "snd st (node_id n) = Some (n, m)" unfolding pass_ok_def by blast
    then show "m \<in> (\<lambda>n. snd (the (snd st (node_id n)))) ` N" by force
  qed
  with fin show "finite T \<and> card T \<le> card N"
    by (meson finite_imageI finite_subset surj_card_le)
qed

end
