(* ===== verification/Stage0Laws.thy ===== *)
theory Stage0Laws
  imports Stage0 InternLaws
begin

text \<open>
  Stage 0's groups: numbering gives each interned node its group, children before parents; the parents and
  the reaching queries of a group are exactly those; every original node has a group, of a similar node.
\<close>

section \<open>Numbering\<close>

abbreviation gnode :: "memo_group list \<Rightarrow> nat \<Rightarrow> operator_node" where
  "gnode groups g \<equiv> logical_node (groups ! g)"

abbreviation gkids :: "memo_group list \<Rightarrow> nat \<Rightarrow> nat list" where
  "gkids groups g \<equiv> child_groups (groups ! g)"

definition reading :: "memo_group list \<Rightarrow> nat \<Rightarrow> nat set" where
  "reading groups g = {p. p < length groups \<and> g \<in> set (gkids groups p)}"

text \<open>The groups so far number nodes of \<open>T\<close>, each once, after its children.\<close>

definition numbered :: "operator_node set \<Rightarrow> numbering \<Rightarrow> bool" where
  "numbered T st \<longleftrightarrow>
     (\<forall>n \<in> T. \<forall>g. snd st (node_id n) = Some g \<longrightarrow> g < length (fst st) \<and> gnode (fst st) g = n)
     \<and> (\<forall>g < length (fst st).
          gnode (fst st) g \<in> T \<and> snd st (node_id (gnode (fst st) g)) = Some g
          \<and> map Some (gkids (fst st) g) = map (\<lambda>c. snd st (node_id c)) (node_children (gnode (fst st) g))
          \<and> (\<forall>c \<in> set (gkids (fst st) g). c < g)
          \<and> distinct (parent_groups (fst st ! g)) \<and> set (parent_groups (fst st ! g)) = reading (fst st) g
          \<and> reached_by_queries (fst st ! g) = [])"

definition numbering_order :: "numbering \<Rightarrow> numbering \<Rightarrow> bool" where
  "numbering_order st st' \<longleftrightarrow>
     length (fst st) \<le> length (fst st') \<and> snd st \<subseteq>\<^sub>m snd st'
     \<and> (\<forall>g < length (fst st). gnode (fst st') g = gnode (fst st) g \<and> gkids (fst st') g = gkids (fst st) g)"

lemma numbering_order_refl: "numbering_order st st"
  by (simp add: numbering_order_def)

lemma numbering_order_trans: "numbering_order r s \<Longrightarrow> numbering_order s t \<Longrightarrow> numbering_order r t"
  unfolding numbering_order_def by (auto intro: map_le_trans)

lemma numbered_length:
  assumes "numbered T st" "finite T"
  shows "length (fst st) \<le> card T"
proof -
  have "inj_on (gnode (fst st)) {..<length (fst st)}"
    using assms(1) unfolding numbered_def inj_on_def by (metis lessThan_iff option.inject)
  moreover have "gnode (fst st) ` {..<length (fst st)} \<subseteq> T" using assms(1) by (auto simp: numbered_def)
  ultimately show ?thesis using card_inj_on_le[OF _ _ assms(2)] by fastforce
qed

text \<open>A node not yet numbered leaves room for its number.\<close>

lemma numbered_room:
  assumes "numbered T st" "finite T" "n \<in> T" "snd st (node_id n) = None"
  shows "length (fst st) < card T"
proof -
  have "inj_on (gnode (fst st)) {..<length (fst st)}"
    using assms(1) unfolding numbered_def inj_on_def by (metis lessThan_iff option.inject)
  moreover have "gnode (fst st) ` {..<length (fst st)} \<subseteq> T - {n}"
    using assms(1,4) by (auto simp: numbered_def)
  ultimately have "length (fst st) \<le> card (T - {n})"
    using card_inj_on_le[of "gnode (fst st)" "{..<length (fst st)}" "T - {n}"] assms(2) by simp
  also have "\<dots> < card T" using assms(2,3) by (meson card_Diff1_less)
  finally show ?thesis .
qed

text \<open>Telling the children of a new group.\<close>

definition with_parent :: "nat set \<Rightarrow> nat \<Rightarrow> memo_group list \<Rightarrow> memo_group list" where
  "with_parent C p groups = map (\<lambda>i. if i \<in> C then add_parent p (groups ! i) else groups ! i) [0..<length groups]"

lemma add_parent_idem [simp]: "add_parent p (add_parent p g) = add_parent p g"
  by (simp add: add_parent_def)

lemma with_parent_nth [simp]:
  "i < length groups \<Longrightarrow> with_parent C p groups ! i = (if i \<in> C then add_parent p (groups ! i) else groups ! i)"
  "length (with_parent C p groups) = length groups"
  by (simp_all add: with_parent_def)

lemma tell_child:
  assumes "c < length groups"
  shows "modify_at c (add_parent p) (with_parent C p groups) = Some (with_parent (insert c C) p groups)"
proof -
  have "(with_parent C p groups)[c := add_parent p (with_parent C p groups ! c)] = with_parent (insert c C) p groups"
  proof (rule nth_equalityI)
    fix i assume "i < length ((with_parent C p groups)[c := add_parent p (with_parent C p groups ! c)])"
    then have "i < length groups" by simp
    then show "(with_parent C p groups)[c := add_parent p (with_parent C p groups ! c)] ! i
        = with_parent (insert c C) p groups ! i"
      using assms by (cases "i = c") simp_all
  qed simp
  with assms show ?thesis by (simp add: modify_at_def)
qed

lemma tell_children:
  "\<forall>c \<in> set cs. c < length groups \<Longrightarrow>
   fold_opt (\<lambda>child. modify_at child (add_parent p)) cs (with_parent C p groups)
     = Some (with_parent (C \<union> set cs) p groups)"
  by (induction cs arbitrary: C) (simp_all add: tell_child)

lemma tell_children_all:
  assumes "\<forall>c \<in> set cs. c < length groups"
  shows "fold_opt (\<lambda>child. modify_at child (add_parent p)) cs groups = Some (with_parent (set cs) p groups)"
proof -
  have "with_parent {} p groups = groups" by (simp add: with_parent_def map_nth)
  with tell_children[OF assms, of p "{}"] show ?thesis by simp
qed

lemma add_parent_simps [simp]:
  "logical_node (add_parent p g) = logical_node g" "child_groups (add_parent p g) = child_groups g"
  "reached_by_queries (add_parent p g) = reached_by_queries g"
  "set (parent_groups (add_parent p g)) = insert p (set (parent_groups g))"
  "distinct (parent_groups (add_parent p g)) = distinct (parent_groups g)"
  by (auto simp: add_parent_def)

lemma map_opt_st_ok:
  assumes "\<And>x s. x \<in> set xs \<Longrightarrow> I s \<Longrightarrow>
      \<exists>y s'. f x s = Some (y, s') \<and> I s' \<and> le s s' \<and> R x y s'"
    and "\<And>s. le s s" "\<And>r s t. le r s \<Longrightarrow> le s t \<Longrightarrow> le r t" "\<And>x y s t. le s t \<Longrightarrow> R x y s \<Longrightarrow> R x y t"
  shows "I s \<Longrightarrow> \<exists>ys s'. map_opt_st f xs s = Some (ys, s') \<and> I s' \<and> le s s' \<and> list_all2 (\<lambda>x y. R x y s') xs ys"
  using assms(1)
proof (induction xs arbitrary: s)
  case Nil
  then show ?case using assms(2) by simp
next
  case (Cons x xs)
  from Cons.prems(2)[of x s] Cons.prems(1) obtain y s1 where
    y: "f x s = Some (y, s1)" "I s1" "le s s1" "R x y s1" by auto
  from Cons.IH[OF y(2)] Cons.prems(2) obtain ys s2 where
    ys: "map_opt_st f xs s1 = Some (ys, s2)" "I s2" "le s1 s2" "list_all2 (\<lambda>x y. R x y s2) xs ys" by auto
  have "le s s2" by (rule assms(3)[OF y(3) ys(3)])
  moreover have "R x y s2" by (rule assms(4)[OF ys(3) y(4)])
  ultimately show ?case using y(1) ys by simp
qed


text \<open>Numbering a node whose children are numbered.\<close>

definition new_group :: "operator_node \<Rightarrow> nat list \<Rightarrow> memo_group" where
  "new_group n cs = \<lparr>logical_node = n, child_groups = cs, parent_groups = [], reached_by_queries = []\<rparr>"

definition number_node :: "operator_node \<Rightarrow> nat list \<Rightarrow> numbering \<Rightarrow> numbering" where
  "number_node n cs st =
     (with_parent (set cs) (length (fst st)) (fst st) @ [new_group n cs], (snd st)(node_id n \<mapsto> length (fst st)))"

lemma number_node_nth:
  "length (fst (number_node n cs st)) = Suc (length (fst st))"
  "i < length (fst st) \<Longrightarrow> fst (number_node n cs st) ! i =
     (if i \<in> set cs then add_parent (length (fst st)) (fst st ! i) else fst st ! i)"
  "fst (number_node n cs st) ! length (fst st) = new_group n cs"
  by (simp_all add: number_node_def nth_append)

lemma number_node_kept:
  "i < length (fst st) \<Longrightarrow> gnode (fst (number_node n cs st)) i = gnode (fst st) i
     \<and> gkids (fst (number_node n cs st)) i = gkids (fst st) i"
  by (simp add: number_node_nth)

lemma number_node_order:
  "snd st (node_id n) = None \<Longrightarrow> numbering_order st (number_node n cs st)"
  unfolding numbering_order_def
  by (auto simp: number_node_nth(1) number_node_kept map_le_def) (auto simp: number_node_def)

lemma reading_number_node:
  assumes "\<forall>p < length (fst st). \<forall>c \<in> set (gkids (fst st) p). c < p" "\<forall>c \<in> set cs. c < length (fst st)"
  shows "g < length (fst st) \<Longrightarrow> reading (fst (number_node n cs st)) g =
      (if g \<in> set cs then insert (length (fst st)) (reading (fst st) g) else reading (fst st) g)"
    and "reading (fst (number_node n cs st)) (length (fst st)) = {}"
proof -
  have r: "reading (fst (number_node n cs st)) g =
      reading (fst st) g \<union> (if g \<in> set cs then {length (fst st)} else {})" for g
    by (auto simp: reading_def number_node_nth(1) less_Suc_eq number_node_kept number_node_nth(3) new_group_def)
  show "g < length (fst st) \<Longrightarrow> reading (fst (number_node n cs st)) g =
      (if g \<in> set cs then insert (length (fst st)) (reading (fst st) g) else reading (fst st) g)"
    by (simp add: r)
  show "reading (fst (number_node n cs st)) (length (fst st)) = {}"
    using assms unfolding r by (auto simp: reading_def dest: less_trans)
qed

lemma numbered_store:
  assumes T: "coherent T" "n \<in> T" and st: "numbered T st" and new: "snd st (node_id n) = None"
    and cs: "list_all2 (\<lambda>c g. snd st (node_id c) = Some g) (node_children n) cs"
  shows "numbered T (number_node n cs st)"
proof -
  let ?L = "length (fst st)"
  let ?st' = "number_node n cs st"
  have kids: "c \<in> T" if "c \<in> set (node_children n)" for c using that T by (auto simp: coherent_def)
  have csL: "\<forall>c \<in> set cs. c < ?L"
  proof
    fix g assume "g \<in> set cs"
    from list_all2_partner[OF cs this] obtain c where
      "c \<in> set (node_children n)" "snd st (node_id c) = Some g" by blast
    with kids st show "g < ?L" by (auto simp: numbered_def)
  qed
  have low: "\<forall>p < ?L. \<forall>c \<in> set (gkids (fst st) p). c < p" using st by (simp add: numbered_def)
  have some: "map Some cs = map (\<lambda>c. snd st (node_id c)) (node_children n)"
    using cs by (auto simp: list_all2_conv_all_nth intro!: nth_equalityI)
  have ids: "snd ?st' = (snd st)(node_id n \<mapsto> ?L)" by (simp add: number_node_def)
  have keep: "map (\<lambda>c. snd ?st' (node_id c)) xs = map Some gs"
    if "map Some gs = map (\<lambda>c. snd st (node_id c)) xs" for gs xs
  proof -
    have "snd st (node_id c) \<noteq> None" if "c \<in> set xs" for c
      using \<open>map Some gs = map (\<lambda>c. snd st (node_id c)) xs\<close> that
      by (metis (no_types, lifting) image_iff image_set option.distinct(1))
    with new have "node_id c \<noteq> node_id n" if "c \<in> set xs" for c using that by fastforce
    with that show ?thesis unfolding ids by simp
  qed
  have "g < length (fst ?st') \<and> gnode (fst ?st') g = m" if m: "m \<in> T" "snd ?st' (node_id m) = Some g" for m g
  proof (cases "node_id m = node_id n")
    case True
    with coherent_eq[OF T(1) m(1) T(2)] m(2) have "m = n" "g = ?L" by (simp_all add: ids)
    then show ?thesis by (simp add: number_node_nth(1,3) new_group_def)
  next
    case False
    with m st have "g < ?L" "gnode (fst st) g = m" unfolding ids numbered_def by auto
    then show ?thesis by (simp add: number_node_nth(1) number_node_kept)
  qed
  moreover have "gnode (fst ?st') g \<in> T \<and> snd ?st' (node_id (gnode (fst ?st') g)) = Some g
      \<and> map Some (gkids (fst ?st') g) = map (\<lambda>c. snd ?st' (node_id c)) (node_children (gnode (fst ?st') g))
      \<and> (\<forall>c \<in> set (gkids (fst ?st') g). c < g)
      \<and> distinct (parent_groups (fst ?st' ! g)) \<and> set (parent_groups (fst ?st' ! g)) = reading (fst ?st') g
      \<and> reached_by_queries (fst ?st' ! g) = []" if g: "g < length (fst ?st')" for g
  proof (cases "g = ?L")
    case True
    show ?thesis
      unfolding True number_node_nth(3) reading_number_node(2)[OF low csL]
      using T(2) csL keep[OF some] by (simp add: new_group_def ids)
  next
    case False
    with g have gL: "g < ?L" by (simp add: number_node_nth(1))
    have old: "gnode (fst st) g \<in> T" "snd st (node_id (gnode (fst st) g)) = Some g"
      "map Some (gkids (fst st) g) = map (\<lambda>c. snd st (node_id c)) (node_children (gnode (fst st) g))"
      "\<forall>c \<in> set (gkids (fst st) g). c < g" "distinct (parent_groups (fst st ! g))"
      "set (parent_groups (fst st ! g)) = reading (fst st) g" "reached_by_queries (fst st ! g) = []"
      using st gL by (simp_all add: numbered_def)
    have "node_id (gnode (fst st) g) \<noteq> node_id n" using old(2) new by auto
    then show ?thesis
      unfolding reading_number_node(1)[OF low csL gL]
      using old keep[OF old(3)] gL by (auto simp: number_node_nth(2) ids)
  qed
  ultimately show ?thesis unfolding numbered_def by blast
qed


definition number_inv :: "operator_node set \<Rightarrow> nat set \<Rightarrow> nat \<Rightarrow> numbering \<Rightarrow> bool" where
  "number_inv T D h st \<longleftrightarrow> numbered T st \<and> dom (snd st) \<subseteq> D \<union> node_id ` {x \<in> T. node_height x < h}"

lemma number_ok:
  assumes T: "coherent T" "finite T" "card T \<le> 2 ^ 32"
  shows "n \<in> T \<Longrightarrow> node_height n < h \<Longrightarrow> number_inv T D h st \<Longrightarrow>
    \<exists>g st'. number n st = Some (g, st') \<and> number_inv T D h st' \<and> numbering_order st st'
      \<and> snd st' (node_id n) = Some g"
proof (induction n arbitrary: D h st rule: measure_induct_rule[of node_height])
  case (less n)
  show ?case
  proof (cases "snd st (node_id n)")
    case (Some g)
    with less.prems(3) show ?thesis by (subst number.simps) (simp add: numbering_order_refl)
  next
    case None
    let ?D = "dom (snd st)"
    have kids: "c \<in> T" if "c \<in> set (node_children n)" for c
      using that less.prems(1) T(1) by (auto simp: coherent_def)
    have "number_inv T ?D (node_height n) st" using less.prems(3) by (auto simp: number_inv_def)
    have step: "\<exists>g s'. number c s = Some (g, s') \<and> number_inv T ?D (node_height n) s' \<and> numbering_order s s'
        \<and> snd s' (node_id c) = Some g"
      if c: "c \<in> set (node_children n)" and s: "number_inv T ?D (node_height n) s" for c s
      by (rule less.IH[OF children_height[OF c] kids[OF c] children_height[OF c] s])
    have stable: "snd t (node_id c) = Some g" if "numbering_order s t" "snd s (node_id c) = Some g"
      for c g and s t :: numbering
      using that by (force simp: numbering_order_def map_le_def)
    have "\<exists>cs st1. map_opt_st number (node_children n) st = Some (cs, st1)
        \<and> number_inv T ?D (node_height n) st1 \<and> numbering_order st st1
        \<and> list_all2 (\<lambda>c g. snd st1 (node_id c) = Some g) (node_children n) cs"
      by (rule map_opt_st_ok[where R = "\<lambda>c g s. snd s (node_id c) = Some g"])
        (erule (1) step, rule numbering_order_refl, erule (1) numbering_order_trans, erule (1) stable, fact)
    then obtain cs st1 where run: "map_opt_st number (node_children n) st = Some (cs, st1)"
      and st1: "number_inv T ?D (node_height n) st1" "numbering_order st st1"
      and cs: "list_all2 (\<lambda>c g. snd st1 (node_id c) = Some g) (node_children n) cs"
      by (elim exE conjE)
    have "node_id n \<notin> node_id ` {x \<in> T. node_height x < node_height n}"
      using coherent_eq[OF T(1) less.prems(1)] by (metis (no_types, lifting) image_iff less_irrefl mem_Collect_eq)
    moreover have "node_id n \<notin> ?D" using None by blast
    moreover have "dom (snd st1) \<subseteq> ?D \<union> node_id ` {x \<in> T. node_height x < node_height n}"
      using st1(1) by (simp add: number_inv_def)
    ultimately have new: "snd st1 (node_id n) = None" by blast
    have num1: "numbered T st1" using st1(1) by (simp add: number_inv_def)
    let ?L = "length (fst st1)"
    have "?L < 2 ^ 32" using numbered_room[OF num1 T(2) less.prems(1) new] T(3) by simp
    then have u32: "as_u32 ?L = ?L" by (simp add: as_u32_def)
    have csL: "\<forall>c \<in> set cs. c < ?L"
    proof
      fix g assume "g \<in> set cs"
      from list_all2_partner[OF cs this] obtain c where
        "c \<in> set (node_children n)" "snd st1 (node_id c) = Some g" by blast
      with kids num1 show "g < ?L" by (auto simp: numbered_def)
    qed
    let ?st' = "number_node n cs st1"
    have out: "number n st = Some (?L, ?st')"
    proof -
      obtain groups id_of where s: "st1 = (groups, id_of)" by (cases st1)
      show ?thesis
        by (subst number.simps)
          (use run u32 tell_children_all[of cs groups "length groups"] csL in
            \<open>simp add: None s Let_def number_node_def new_group_def\<close>)
    qed
    have inv: "numbered T ?st'" by (rule numbered_store[OF T(1) less.prems(1) num1 new cs])
    let ?X = "node_id ` {x \<in> T. node_height x < h}"
    have low: "node_id ` {x \<in> T. node_height x < node_height n} \<subseteq> ?X" using less.prems(2) by auto
    have "dom (snd st1) \<subseteq> ?D \<union> node_id ` {x \<in> T. node_height x < node_height n}" "?D \<subseteq> D \<union> ?X"
      using less.prems(3) st1(1) by (simp_all add: number_inv_def)
    then have "dom (snd st1) \<subseteq> D \<union> ?X" using low by (meson Un_least Un_upper2 subset_trans)
    moreover have "node_id n \<in> D \<union> ?X" using less.prems(1,2) by blast
    moreover have "snd ?st' = (snd st1)(node_id n \<mapsto> ?L)" by (simp add: number_node_def)
    ultimately have "dom (snd ?st') \<subseteq> D \<union> ?X"
      by (simp only: dom_fun_upd option.simps if_False insert_subset)
    with inv have "number_inv T D h ?st'" by (simp add: number_inv_def)
    moreover have "numbering_order st ?st'"
      by (rule numbering_order_trans[OF st1(2) number_node_order[OF new]])
    moreover have "snd ?st' (node_id n) = Some ?L" by (simp add: number_node_def)
    ultimately show ?thesis using out by blast
  qed
qed


text \<open>All roots.\<close>

lemma fold_opt_ok:
  assumes "\<And>x s. x \<in> set xs \<Longrightarrow> I s \<Longrightarrow> \<exists>s'. f x s = Some s' \<and> I s' \<and> le s s' \<and> R x s'"
    and "\<And>s. le s s" "\<And>r s t. le r s \<Longrightarrow> le s t \<Longrightarrow> le r t" "\<And>x s t. le s t \<Longrightarrow> R x s \<Longrightarrow> R x t"
  shows "I s \<Longrightarrow> \<exists>s'. fold_opt f xs s = Some s' \<and> I s' \<and> le s s' \<and> (\<forall>x \<in> set xs. R x s')"
  using assms(1)
proof (induction xs arbitrary: s)
  case Nil
  then show ?case using assms(2) by simp
next
  case (Cons x xs)
  from Cons.prems(2)[of x s] Cons.prems(1) obtain s1 where
    y: "f x s = Some s1" "I s1" "le s s1" "R x s1" by auto
  from Cons.IH[OF y(2)] Cons.prems(2) obtain s2 where
    ys: "fold_opt f xs s1 = Some s2" "I s2" "le s1 s2" "\<forall>x \<in> set xs. R x s2" by auto
  have "le s s2" by (rule assms(3)[OF y(3) ys(3)])
  moreover have "R x s2" by (rule assms(4)[OF ys(3) y(4)])
  ultimately show ?case using y(1) ys by simp
qed

lemma numbered_empty: "numbered T ([], Map.empty)"
  by (simp add: numbered_def)

lemma number_roots_ok:
  assumes T: "coherent T" "finite T" "card T \<le> 2 ^ 32" and roots: "snd ` set rs \<subseteq> T"
  shows "\<exists>st. fold_opt (\<lambda>r st. map_option snd (number (snd r) st)) rs ([], Map.empty) = Some st
    \<and> numbered T st \<and> (\<forall>r \<in> set rs. snd st (node_id (snd r)) \<noteq> None)"
proof -
  have "\<exists>st. fold_opt (\<lambda>r st. map_option snd (number (snd r) st)) rs ([], Map.empty) = Some st
    \<and> numbered T st \<and> numbering_order ([], Map.empty) st \<and> (\<forall>r \<in> set rs. snd st (node_id (snd r)) \<noteq> None)"
  proof (rule fold_opt_ok[where I = "numbered T" and R = "\<lambda>r st. snd st (node_id (snd r)) \<noteq> None"])
    fix r st assume r: "r \<in> set rs" and st: "numbered T st"
    have n: "snd r \<in> T" using r roots by blast
    have "number_inv T (dom (snd st)) (Suc (node_height (snd r))) st"
      using st by (simp add: number_inv_def)
    from number_ok[OF T n lessI this] obtain g st' where
      "number (snd r) st = Some (g, st')" "numbered T st'" "numbering_order st st'" "snd st' (node_id (snd r)) = Some g"
      by (auto simp: number_inv_def)
    then show "\<exists>st'. map_option snd (number (snd r) st) = Some st' \<and> numbered T st'
        \<and> numbering_order st st' \<and> snd st' (node_id (snd r)) \<noteq> None" by simp
  next
    fix x :: "'a \<times> operator_node" and s t :: numbering
    assume "numbering_order s t" and some: "snd s (node_id (snd x)) \<noteq> None"
    then have "snd s \<subseteq>\<^sub>m snd t" by (simp add: numbering_order_def)
    with some show "snd t (node_id (snd x)) \<noteq> None" unfolding map_le_def by (metis domIff)
  next
    show "numbering_order s s" for s by (rule numbering_order_refl)
    show "numbering_order r s \<Longrightarrow> numbering_order s t \<Longrightarrow> numbering_order r t" for r s t
      by (rule numbering_order_trans)
    show "numbered T ([], Map.empty)" by (rule numbered_empty)
  qed
  then show ?thesis by blast
qed

section \<open>Reaching\<close>

definition dag_steps :: "memo_group list \<Rightarrow> (nat \<times> nat) set" where
  "dag_steps groups = {(p, c). p < length groups \<and> c \<in> set (gkids groups p)}"

definition closed_groups :: "memo_group list \<Rightarrow> bool" where
  "closed_groups groups \<longleftrightarrow> (\<forall>p < length groups. \<forall>c \<in> set (gkids groups p). c < length groups)"

lemma reach_explore:
  assumes "closed_groups groups"
  shows "set calls \<subseteq> {..<length groups} \<Longrightarrow> reached \<subseteq> {..<length groups} \<Longrightarrow>
    reach groups calls reached = explore (\<lambda>g. rev (gkids groups g)) (rev calls) reached"
proof (induction "(card ({..<length groups} - reached), length calls)" arbitrary: calls reached
    rule: wf_induct_rule[OF wf_lex_prod[OF wf_less_than wf_less_than]])
  case 1
  show ?case
  proof (cases calls)
    case Nil
    then show ?thesis by (simp add: reach.simps[of _ "[]"] explore.simps[of _ "[]"])
  next
    case (Cons g rest)
    show ?thesis
    proof (cases "g \<in> reached")
      case True
      have "reach groups rest reached = explore (\<lambda>g. rev (gkids groups g)) (rev rest) reached"
        using 1 Cons by simp
      with True Cons show ?thesis
        by (simp add: reach.simps[of _ "g # rest"] explore.simps[of _ "rev rest @ [g]"])
    next
      case False
      have g: "g < length groups" using 1(2) Cons by simp
      then have lt: "card ({..<length groups} - insert g reached) < card ({..<length groups} - reached)"
        using False by (intro psubset_card_mono) auto
      have "reach groups (gkids groups g @ rest) (insert g reached)
          = explore (\<lambda>g. rev (gkids groups g)) (rev (gkids groups g @ rest)) (insert g reached)"
        by (rule 1(1)) (use lt 1(2,3) Cons g assms in \<open>auto simp: closed_groups_def\<close>)
      with False Cons g show ?thesis
        by (simp add: reach.simps[of _ "g # rest"] explore.simps[of _ "rev rest @ [g]"] get_def)
    qed
  qed
qed

lemma reach_ok:
  assumes "closed_groups groups" "g < length groups"
  shows "reach groups [g] {} = Some ((dag_steps groups)\<^sup>* `` {g})"
proof -
  let ?f = "\<lambda>g. rev (gkids groups g)"
  have "(g, h) \<in> (steps_of ?f)\<^sup>* \<longleftrightarrow> (g, h) \<in> (dag_steps groups)\<^sup>*" for h
  proof
    assume "(g, h) \<in> (steps_of ?f)\<^sup>*"
    then have "h < length groups \<and> (g, h) \<in> (dag_steps groups)\<^sup>*"
    proof induction
      case (step y z)
      then have "(y, z) \<in> dag_steps groups" "z < length groups"
        using assms(1) by (auto simp: steps_of_def dag_steps_def closed_groups_def)
      with step.IH show ?case by (blast intro: rtrancl_into_rtrancl)
    qed (use assms(2) in simp)
    then show "(g, h) \<in> (dag_steps groups)\<^sup>*" by simp
  next
    have "dag_steps groups \<subseteq> steps_of ?f" by (auto simp: dag_steps_def steps_of_def)
    then show "(g, h) \<in> (dag_steps groups)\<^sup>* \<Longrightarrow> (g, h) \<in> (steps_of ?f)\<^sup>*" by (blast dest: rtrancl_mono)
  qed
  moreover have "reach groups [g] {} = explore ?f [g] {}"
    using reach_explore[OF assms(1), of "[g]" "{}"] assms(2) by simp
  moreover have "explore ?f [g] {} = Some ((steps_of ?f)\<^sup>* `` {g})"
    using explore_reachable[of "{..<length groups}" ?f "[g]"] assms by (simp add: closed_groups_def subset_iff)
  ultimately show ?thesis unfolding Image_def by simp
qed

text \<open>The groups below a group are those of the nodes below its node.\<close>

lemma numbered_closed: "numbered T st \<Longrightarrow> closed_groups (fst st)"
  unfolding numbered_def closed_groups_def by (meson less_trans)

lemma gkids_nodes:
  assumes T: "coherent T" and st: "numbered T st" and p: "p < length (fst st)"
  shows "map (gnode (fst st)) (gkids (fst st) p) = node_children (gnode (fst st) p)"
proof (rule nth_equalityI)
  let ?cs = "node_children (gnode (fst st) p)"
  have "gnode (fst st) p \<in> T" and eq: "map Some (gkids (fst st) p) = map (\<lambda>c. snd st (node_id c)) ?cs"
    using st p by (simp_all add: numbered_def)
  then have kids: "set ?cs \<subseteq> T" using T by (auto simp: coherent_def)
  from eq have len: "length (gkids (fst st) p) = length ?cs" by (metis length_map)
  then show "length (map (gnode (fst st)) (gkids (fst st) p)) = length ?cs" by simp
  fix i assume "i < length (map (gnode (fst st)) (gkids (fst st) p))"
  then have i: "i < length (gkids (fst st) p)" "i < length ?cs" using len by simp_all
  have "snd st (node_id (?cs ! i)) = Some (gkids (fst st) p ! i)"
    using arg_cong[OF eq, of "\<lambda>xs. xs ! i"] i by simp
  moreover have "?cs ! i \<in> T" using kids i(2) by auto
  ultimately have "gnode (fst st) (gkids (fst st) p ! i) = ?cs ! i" using st unfolding numbered_def by blast
  then show "map (gnode (fst st)) (gkids (fst st) p) ! i = ?cs ! i" using i by simp
qed

lemma gnode_inj:
  "numbered T st \<Longrightarrow> g < length (fst st) \<Longrightarrow> h < length (fst st) \<Longrightarrow> gnode (fst st) g = gnode (fst st) h \<Longrightarrow> g = h"
  unfolding numbered_def by (metis option.inject)

lemma reached_below:
  assumes T: "coherent T" and st: "numbered T st" and g: "g < length (fst st)" "h < length (fst st)"
  shows "(g, h) \<in> (dag_steps (fst st))\<^sup>* \<longleftrightarrow> gnode (fst st) h \<in> below (gnode (fst st) g)"
proof
  assume "(g, h) \<in> (dag_steps (fst st))\<^sup>*"
  then show "gnode (fst st) h \<in> below (gnode (fst st) g)"
  proof induction
    case (step y z)
    then have y: "y < length (fst st)" "z \<in> set (gkids (fst st) y)" by (auto simp: dag_steps_def)
    have "gnode (fst st) z \<in> set (node_children (gnode (fst st) y))"
      unfolding gkids_nodes[OF T st y(1), symmetric] using y(2) by simp
    with step.IH show ?case by (rule below_step)
  qed (rule below_refl)
next
  have "\<exists>k < length (fst st). gnode (fst st) k = x \<and> (g, k) \<in> (dag_steps (fst st))\<^sup>*"
    if "x \<in> below (gnode (fst st) g)" for x
    using that
  proof induction
    case below_refl
    with g(1) show ?case by blast
  next
    case (below_step m c)
    then obtain k where k: "k < length (fst st)" "gnode (fst st) k = m" "(g, k) \<in> (dag_steps (fst st))\<^sup>*" by blast
    with below_step.hyps(2) have "c \<in> gnode (fst st) ` set (gkids (fst st) k)"
      using gkids_nodes[OF T st k(1)] by (metis list.set_map)
    then obtain j where j: "j \<in> set (gkids (fst st) k)" "c = gnode (fst st) j" by blast
    have "j < length (fst st)" using numbered_closed[OF st] k(1) j(1) by (auto simp: closed_groups_def)
    moreover have "(g, j) \<in> (dag_steps (fst st))\<^sup>*"
      using k(1,3) j(1) by (auto simp: dag_steps_def intro: rtrancl_into_rtrancl)
    ultimately show ?case using j(2) by blast
  qed
  moreover assume "gnode (fst st) h \<in> below (gnode (fst st) g)"
  ultimately obtain k where "k < length (fst st)" "gnode (fst st) k = gnode (fst st) h" "(g, k) \<in> (dag_steps (fst st))\<^sup>*"
    by blast
  with gnode_inj[OF st _ g(2)] show "(g, h) \<in> (dag_steps (fst st))\<^sup>*" by metis
qed


section \<open>Queries\<close>

definition same_dag :: "memo_group list \<Rightarrow> memo_group list \<Rightarrow> bool" where
  "same_dag groups groups' \<longleftrightarrow>
     length groups' = length groups
     \<and> (\<forall>g < length groups. gnode groups' g = gnode groups g \<and> gkids groups' g = gkids groups g
          \<and> parent_groups (groups' ! g) = parent_groups (groups ! g))"

lemma same_dag_refl: "same_dag groups groups"
  by (simp add: same_dag_def)

lemma same_dag_trans: "same_dag a b \<Longrightarrow> same_dag b c \<Longrightarrow> same_dag a c"
  by (simp add: same_dag_def)

lemma same_dag_steps: "same_dag a b \<Longrightarrow> dag_steps b = dag_steps a"
  by (auto simp: same_dag_def dag_steps_def)

lemma same_dag_closed: "same_dag a b \<Longrightarrow> closed_groups a \<Longrightarrow> closed_groups b"
  by (simp add: same_dag_def closed_groups_def)

definition marks :: "memo_group list \<Rightarrow> nat \<Rightarrow> nat set" where
  "marks groups g = set (reached_by_queries (groups ! g))"

lemma add_query_to_ok:
  shows "same_dag groups (add_query_to R q groups)"
    and "g < length groups \<Longrightarrow>
      marks (add_query_to R q groups) g = (if g \<in> R then insert q (marks groups g) else marks groups g)"
    and "g < length groups \<Longrightarrow> distinct (reached_by_queries (groups ! g)) \<Longrightarrow>
      distinct (reached_by_queries (add_query_to R q groups ! g))"
  by (auto simp: same_dag_def add_query_to_def add_query_def marks_def)

lemma mark_all:
  assumes closed: "closed_groups groups" and ids: "\<forall>r \<in> set rs. \<exists>g < length groups. id_of (node_id (snd r)) = Some g"
    and dis: "\<forall>g < length groups. distinct (reached_by_queries (groups ! g))"
  shows "\<exists>groups'. fold_opt (mark_query id_of) rs groups = Some groups' \<and> same_dag groups groups'
    \<and> (\<forall>g < length groups. distinct (reached_by_queries (groups' ! g))
         \<and> marks groups' g = marks groups g
             \<union> {q. \<exists>r \<in> set rs. fst r = q \<and> (the (id_of (node_id (snd r))), g) \<in> (dag_steps groups)\<^sup>*})"
  using assms
proof (induction rs arbitrary: groups)
  case Nil
  then show ?case by (simp add: same_dag_refl)
next
  case (Cons r rs)
  from Cons.prems(2) obtain k where k: "k < length groups" "id_of (node_id (snd r)) = Some k" by auto
  let ?R = "(dag_steps groups)\<^sup>* `` {k}"
  let ?g1 = "add_query_to ?R (fst r) groups"
  have m: "mark_query id_of r groups = Some ?g1"
    by (simp add: mark_query_def k(2) reach_ok[OF Cons.prems(1) k(1)])
  have d: "same_dag groups ?g1" by (rule add_query_to_ok(1))
  then have len: "length ?g1 = length groups" by (simp add: same_dag_def)
  have dis1: "\<forall>g < length ?g1. distinct (reached_by_queries (?g1 ! g))"
    using add_query_to_ok(3) Cons.prems(3) len by simp
  have ids1: "\<forall>r \<in> set rs. \<exists>g < length ?g1. id_of (node_id (snd r)) = Some g" using Cons.prems(2) len by simp
  from Cons.IH[OF same_dag_closed[OF d Cons.prems(1)] ids1 dis1] obtain g2 where
    g2: "fold_opt (mark_query id_of) rs ?g1 = Some g2" "same_dag ?g1 g2"
    and all: "\<forall>g < length ?g1. distinct (reached_by_queries (g2 ! g)) \<and> marks g2 g = marks ?g1 g
       \<union> {q. \<exists>r \<in> set rs. fst r = q \<and> (the (id_of (node_id (snd r))), g) \<in> (dag_steps ?g1)\<^sup>*}" by blast
  have "marks g2 g = marks groups g
      \<union> {q. \<exists>r \<in> set (r # rs). fst r = q \<and> (the (id_of (node_id (snd r))), g) \<in> (dag_steps groups)\<^sup>*}"
    if g: "g < length groups" for g
  proof -
    have "marks g2 g = marks ?g1 g
       \<union> {q. \<exists>r \<in> set rs. fst r = q \<and> (the (id_of (node_id (snd r))), g) \<in> (dag_steps groups)\<^sup>*}"
      using all g len same_dag_steps[OF d] by simp
    also have "marks ?g1 g = (if (k, g) \<in> (dag_steps groups)\<^sup>* then insert (fst r) (marks groups g) else marks groups g)"
      using add_query_to_ok(2)[OF g] by simp
    finally show ?thesis using k(2) by auto
  qed
  moreover have "fold_opt (mark_query id_of) (r # rs) groups = Some g2" by (simp add: m g2(1))
  ultimately show ?case using same_dag_trans[OF d g2(2)] all len by auto
qed

lemma sort_queries_ok:
  "same_dag groups (map sort_queries groups)"
  "g < length groups \<Longrightarrow> marks (map sort_queries groups) g = marks groups g
     \<and> sorted (reached_by_queries (map sort_queries groups ! g))
     \<and> (distinct (reached_by_queries (groups ! g)) \<longrightarrow>
          distinct (reached_by_queries (map sort_queries groups ! g)))"
  by (simp_all add: same_dag_def sort_queries_def marks_def)

section \<open>Original nodes\<close>

definition paired :: "services \<Rightarrow> operator_node set \<Rightarrow> memo_group list \<Rightarrow> (nat \<rightharpoonup> nat) \<Rightarrow> bool" where
  "paired S N groups seen \<longleftrightarrow>
     (\<forall>n \<in> N. \<forall>g. seen (node_id n) = Some g \<longrightarrow> g < length groups \<and> similar S n (gnode groups g))"

lemma pair_ok:
  assumes N: "coherent N" and T: "coherent T" and st: "numbered T st"
    and all: "\<forall>m \<in> T. snd st (node_id m) \<noteq> None"
  shows "fst p \<in> N \<Longrightarrow> snd p \<in> T \<Longrightarrow> similar S (fst p) (snd p) \<Longrightarrow> paired S N (fst st) seen \<Longrightarrow>
    traversed N (dom seen) (Suc (node_height (fst p))) \<Longrightarrow>
    \<exists>seen'. pair_nodes (snd st) p seen = Some seen' \<and> paired S N (fst st) seen'
      \<and> dom seen' = dom seen \<union> node_id ` below (fst p)"
proof (induction p arbitrary: seen rule: measure_induct_rule[of "\<lambda>p. node_height (fst p)"])
  case (less p)
  obtain n m where p: "p = (n, m)" by (cases p)
  note n = less.prems(1)[unfolded p fst_conv] and m = less.prems(2)[unfolded p snd_conv]
  from all m obtain g where g: "snd st (node_id m) = Some g" by blast
  with st m have gm: "g < length (fst st)" "gnode (fst st) g = m" unfolding numbered_def by blast+
  let ?seen = "seen(node_id n \<mapsto> g)"
  have ok1: "paired S N (fst st) ?seen"
    unfolding paired_def
  proof (intro ballI allI impI)
    fix k h assume k: "k \<in> N" "?seen (node_id k) = Some h"
    show "h < length (fst st) \<and> similar S k (gnode (fst st) h)"
    proof (cases "node_id k = node_id n")
      case True
      with coherent_eq[OF N k(1) n] k(2) gm less.prems(3) p show ?thesis by simp
    qed (use k less.prems(4) in \<open>simp add: paired_def\<close>)
  qed
  show ?case
  proof (cases "seen (node_id n)")
    case (Some h)
    then have "node_id ` below n \<subseteq> dom seen"
      using less.prems(5) n unfolding traversed_def p fst_conv by (blast intro: lessI)
    moreover have "pair_nodes (snd st) p seen = Some ?seen"
      by (subst pair_nodes.simps) (simp add: p g Some)
    ultimately show ?thesis using ok1 below_refl[of n] by (auto simp: p)
  next
    case None
    let ?zip = "zip (node_children n) (node_children m)"
    let ?inv = "\<lambda>ps by'. paired S N (fst st) seen'
        \<and> dom seen' = dom ?seen \<union> (\<Union>c \<in> fst ` set ps. node_id ` below c)"
    have kids: "node_height c < node_height n" "c \<in> N" "d \<in> T" "similar S c d"
      if "(c, d) \<in> set ?zip" for c d
    proof -
      from that have cd: "c \<in> set (node_children n)" "d \<in> set (node_children m)"
        by (auto dest: set_zip_leftD set_zip_rightD)
      from children_height[OF cd(1)] show "node_height c < node_height n" .
      show "c \<in> N" using cd(1) N n by (auto simp: coherent_def)
      show "d \<in> T" using cd(2) T m by (auto simp: coherent_def)
      show "similar S c d" using less.prems(3) that by (auto simp: p similar_iff[of S n m] list_all2_iff)
    qed
    have t1: "traversed N (dom ?seen) (node_height n)"
      using traversed_insert[OF N n] less.prems(5) by (simp add: p)
    have loop: "set ps \<subseteq> set ?zip \<Longrightarrow> paired S N (fst st) b \<Longrightarrow> traversed N (dom b) (node_height n) \<Longrightarrow>
        \<exists>b'. fold_opt (pair_nodes (snd st)) ps b = Some b' \<and> paired S N (fst st) b'
          \<and> dom b' = dom b \<union> (\<Union>c \<in> fst ` set ps. node_id ` below c)" for ps b
    proof (induction ps arbitrary: b)
      case (Cons q ps)
      obtain c d where q: "q = (c, d)" by (cases q)
      with Cons.prems(1) have cd: "(c, d) \<in> set ?zip" by simp
      note kd = kids[OF cd]
      have tc: "traversed N (dom b) (Suc (node_height c))"
        by (rule traversed_mono[OF Cons.prems(3)]) (use kd(1) in simp)
      obtain b1 where b1: "pair_nodes (snd st) q b = Some b1" "paired S N (fst st) b1"
        "dom b1 = dom b \<union> node_id ` below c"
        using less.IH[of q b] kd Cons.prems(2) tc by (auto simp: q p)
      have "traversed N (dom b1) (node_height n)"
        unfolding b1(3) by (rule traversed_union[OF N kd(2) Cons.prems(3)])
      with Cons.IH[of b1] Cons.prems(1) b1 obtain b2 where
        "fold_opt (pair_nodes (snd st)) ps b1 = Some b2" "paired S N (fst st) b2"
        "dom b2 = dom b1 \<union> (\<Union>c \<in> fst ` set ps. node_id ` below c)" by auto
      with b1 show ?case by (auto simp: q)
    qed simp
    from loop[OF subset_refl ok1 t1] obtain b' where
      b': "fold_opt (pair_nodes (snd st)) ?zip ?seen = Some b'" "paired S N (fst st) b'"
      "dom b' = dom ?seen \<union> (\<Union>c \<in> fst ` set ?zip. node_id ` below c)" by blast
    have "length (node_children n) = length (node_children m)"
      using less.prems(3) by (auto simp: p similar_iff[of S n m] dest: list_all2_lengthD)
    then have "fst ` set ?zip = set (node_children n)" by (metis list.set_map map_fst_zip)
    with b'(3) have "dom b' = dom seen \<union> node_id ` below n" unfolding below_unfold[of n] by auto
    moreover have "pair_nodes (snd st) p seen = Some b'"
      by (subst pair_nodes.simps) (simp add: p g None b'(1))
    ultimately show ?thesis using b'(2) by (auto simp: p)
  qed
qed

end
