(* ===== verification/HashConsProps.thy ===== *)
theory HashConsProps
  imports InternLaws TimingPass
begin

text \<open>
  The properties of Stage 0's hash-consing: every root keeps its value, no two equal nodes are left in the
  interned DAG, only nodes whose equal copies return the same rows are shared, and equal copies of such nodes always are.
\<close>

section \<open>Equal up to addresses\<close>

primrec anonymous :: "operator_node \<Rightarrow> operator_node" where
  "anonymous (OperatorNode i op k s g t m) = OperatorNode 0 (map_operator anonymous (\<lambda>x. x) op) k s g t m"

lemma map_operator_eq:
  "map_operator f (\<lambda>x. x) op = map_operator f (\<lambda>x. x) op' \<longleftrightarrow> rel_operator (\<lambda>c d. f c = f d) (=) op op'"
  by (simp add: operator.rel_eq[symmetric] operator.rel_map)

lemma anonymous_parts:
  "anonymous a = anonymous b \<longleftrightarrow>
     rel_operator (\<lambda>c d. anonymous c = anonymous d) (=) (operator_of a) (operator_of b)
     \<and> result_kind a = result_kind b \<and> node_schema a = node_schema b \<and> node_guarantee a = node_guarantee b
     \<and> node_timing a = node_timing b \<and> node_materialization a = node_materialization b"
  by (cases a; cases b) (simp add: map_operator_eq)

lemmas anonymousD = anonymous_parts[THEN iffD1]

lemma anonymous_own: "anonymous a = anonymous b \<Longrightarrow> own_fields a = own_fields b"
proof -
  assume eq: "anonymous a = anonymous b"
  have "rel_operator (\<lambda>c d. () = ()) (=) (operator_of a) (operator_of b)"
    by (rule operator.rel_mono_strong[OF anonymousD[OF eq, THEN conjunct1]]) auto
  then show ?thesis unfolding own_fields_map id_def by (simp only: map_operator_eq)
qed

lemma rel_operator_children:
  "rel_operator R (=) op op' \<Longrightarrow> list_all2 R (children_of op) (children_of op')"
proof -
  assume "rel_operator R (=) op op'"
  then obtain z where z: "set1_operator z \<subseteq> {(c, d). R c d}" "map_operator fst fst z = op" "map_operator snd snd z = op'"
    by (auto simp: operator.in_rel)
  have "children_of op = map fst (children_of z)" "children_of op' = map snd (children_of z)"
    unfolding z(2,3)[symmetric] by (simp_all add: children_of_map)
  then show ?thesis using z(1) set_children_of[of z] by (auto simp: list.rel_map list_all2_same)
qed

lemma anonymous_similar: "anonymous a = anonymous b \<Longrightarrow> similar S a b"
proof (induction a arbitrary: b rule: measure_induct_rule[of node_height])
  case (less a)
  have "list_all2 (\<lambda>c d. anonymous c = anonymous d) (node_children a) (node_children b)"
    unfolding node_children_def by (rule rel_operator_children[OF anonymousD[OF less.prems, THEN conjunct1]])
  then have "list_all2 (similar S) (node_children a) (node_children b)"
    by (rule list.rel_mono_strong) (use less.IH children_height in blast)
  moreover have "kept_fields S a b"
    using anonymousD[OF less.prems] anonymous_own[OF less.prems] by (simp only: kept_fields_def either_refl)
  ultimately show ?case by (subst similar_iff) simp
qed

lemma anonymous_fields: "anonymous a = anonymous b \<Longrightarrow> same_fields S a a \<Longrightarrow> same_fields S a b \<and> same_fields S b a"
  using anonymousD[of a b] anonymous_own[of a b] by (simp only: same_fields_def)

lemma anonymous_children:
  "anonymous a = anonymous b \<Longrightarrow> list_all2 (\<lambda>c d. anonymous c = anonymous d) (node_children a) (node_children b)"
  unfolding node_children_def by (rule rel_operator_children) (use anonymousD in blast)

text \<open>So they have one hash and are the same, if the nodes below compare equal to themselves.\<close>

lemma anonymous_hash: "anonymous a = anonymous b \<Longrightarrow> hash_of S a = hash_of S b"
proof (induction a arbitrary: b rule: measure_induct_rule[of node_height])
  case (less a)
  have "map (hash_of S) (node_children a) = map (hash_of S) (node_children b)"
    unfolding list.rel_eq[symmetric] list.rel_map
    by (rule list.rel_mono_strong[OF anonymous_children[OF less.prems]]) (use less.IH children_height in blast)
  then show ?case
    using anonymousD[OF less.prems] anonymous_own[OF less.prems]
    by (simp only: hash_of.simps[of S a] hash_of.simps[of S b])
qed

lemma anonymous_same:
  "anonymous a = anonymous b \<Longrightarrow> \<forall>x \<in> below a. same_fields S x x \<Longrightarrow> same_as S a b \<and> same_as S b a"
proof (induction a arbitrary: b rule: measure_induct_rule[of node_height])
  case (less a)
  note kids = anonymous_children[OF less.prems(1)]
  have "same_as S (node_children a ! k) (node_children b ! k) \<and> same_as S (node_children b ! k) (node_children a ! k)"
    if k: "k < length (node_children a)" for k
  proof (rule less.IH)
    show "node_height (node_children a ! k) < node_height a" "\<forall>x \<in> below (node_children a ! k). same_fields S x x"
      using nth_mem[OF k] children_height below_child less.prems(2) by blast+
    show "anonymous (node_children a ! k) = anonymous (node_children b ! k)"
      by (rule list_all2_nthD[OF kids k])
  qed
  moreover have "same_fields S a b \<and> same_fields S b a"
    by (rule anonymous_fields[OF less.prems(1)]) (use less.prems(2) below_refl in blast)
  ultimately show ?case
    using list_all2_lengthD[OF kids]
    by (auto simp: same_as.simps[of S a b] same_as.simps[of S b a] in_set_zip)
qed

section \<open>Equal copies\<close>

text \<open>Below a visited node every node is visited.\<close>

lemma visited_kid:
  assumes "coherent N" "pass_ok S N st" "n \<in> N" "snd st (node_id n) \<noteq> None" "c \<in> set (node_children n)"
  shows "c \<in> N \<and> snd st (node_id c) \<noteq> None"
  using assms pass_recorded[OF assms(2,3)] by (force simp: coherent_def recorded_def)

lemma copies_of_equals:
  assumes N: "coherent N" and ok: "pass_ok S N st"
  shows "n \<in> N \<Longrightarrow> n' \<in> N \<Longrightarrow> snd st (node_id n) = Some (n, m) \<Longrightarrow> snd st (node_id n') = Some (n', m') \<Longrightarrow>
    anonymous n = anonymous n' \<Longrightarrow> \<forall>k \<in> below n. may_share k \<and> same_fields S k k \<Longrightarrow> m = m'"
proof (induction n arbitrary: n' m m' rule: measure_induct_rule[of node_height])
  case (less n)
  note eq = less.prems(5)
  let ?img = "\<lambda>c. snd (the (snd st (node_id c)))"
  have rel: "rel_operator (\<lambda>c d. anonymous c = anonymous d) (=) (operator_of n) (operator_of n')"
    using anonymousD[OF eq] by blast
  have "rel_operator (\<lambda>c d. ?img c = ?img d) (=) (operator_of n) (operator_of n')"
  proof (rule operator.rel_mono_strong[OF rel])
    fix c d assume "c \<in> set1_operator (operator_of n)" "d \<in> set1_operator (operator_of n')"
      and e: "anonymous c = anonymous d"
    then have c: "c \<in> set (node_children n)" and d: "d \<in> set (node_children n')"
      by (simp_all add: node_children_def set_children_of)
    have cN: "c \<in> N" "snd st (node_id c) \<noteq> None"
      using visited_kid[OF N ok less.prems(1) _ c] less.prems(3) by auto
    have dN: "d \<in> N" "snd st (node_id d) \<noteq> None"
      using visited_kid[OF N ok less.prems(2) _ d] less.prems(4) by auto
    from cN dN obtain m1 m2 where v: "snd st (node_id c) = Some (c, m1)" "snd st (node_id d) = Some (d, m2)"
      using pass_recorded[OF ok cN(1)] pass_recorded[OF ok dN(1)] by fastforce
    have "m1 = m2"
      by (rule less.IH[OF children_height[OF c] cN(1) dN(1) v e]) (use less.prems(6) below_child[OF c] in blast)
    with v show "?img c = ?img d" by simp
  qed auto
  then have "map_operator ?img id (operator_of n) = map_operator ?img id (operator_of n')"
    by (simp add: operator.rel_eq[symmetric] operator.rel_map)
  then have cp: "copied (snd st) n = copied (snd st) n'"
    using anonymousD[OF eq] by (simp only: copied_def rebuilt_def with_schema_def)
  have r: "recorded S N n m st" "recorded S N n' m' st"
    using pass_recorded[OF ok] less.prems(1-4) by blast+
  have n: "may_share n" "same_fields S n n" using less.prems(6) by (auto intro: below_refl)
  have n': "may_share n'" "same_fields S n' n'"
    using n similar_may_share[OF anonymous_similar[OF eq]] anonymous_own[OF eq] anonymousD[OF eq]
    by (simp, simp only: same_fields_def)
  from r n n' cp show ?case by (simp add: recorded_def)
qed


section \<open>Properties\<close>

text \<open>Two scans of one metric, at two addresses; every value serializes, and every hash collides.\<close>

definition second_scan :: operator_node where
  "second_scan = OperatorNode 1 (NonASAP (Scan (TimeSeries ''m'') [] sample_schema))
     InstantVectorKind sample_schema None None NotMaterialized"

definition sample_services :: services where
  "sample_services =
     \<lparr>json_own = \<lambda>_. Some [], json_guarantee = \<lambda>_. Some [], hash_node = \<lambda>_ _. 0\<rparr>"

definition sample_roots :: "(nat \<times> operator_node) list" where
  "sample_roots = [(0, sample_scan), (1, second_scan)]"

lemma sample_scans_leaves [simp]: "node_children sample_scan = []" "node_children second_scan = []"
  by (simp_all add: node_children_def sample_scan_def second_scan_def non_asap_children_def)

lemma sample_roots_coherent: "coherent {sample_scan, second_scan}" "snd ` set sample_roots \<subseteq> {sample_scan, second_scan}"
  by (auto simp: coherent_def sample_roots_def) (simp add: sample_scan_def second_scan_def)

lemma sample_scan_alone: "below sample_scan = {sample_scan}"
  by (subst below_unfold) simp

lemma sample_scan_shareable: "may_share sample_scan \<and> same_fields sample_services sample_scan sample_scan"
proof
  show "may_share sample_scan" by (simp add: may_share_def sample_scan_def non_asap_of_def)
  have f: "canon_schema sample_schema = Some sample_schema"
    by (simp add: canon_schema_def sample_schema_def schema_with_time_index_def canon_list_def canon_field_def
        plain_field_def field_new_def)
  have "schema_eq sample_schema sample_schema"
    by (simp add: canon_schema_eq[symmetric] same_by_iff f)
  then show "same_fields sample_services sample_scan sample_scan"
    by (simp add: same_fields_def sample_scan_def same_guarantee_value_def guarantee_eq_def same_by_iff
        canon_option_def sequence_option_def same_text_iff sample_services_def same_own_value_def own_op_eq_def
        own_fields_map canon_list_def f)
qed

lemma sample_scans_equal: "anonymous sample_scan = anonymous second_scan"
  by (simp add: sample_scan_def second_scan_def)

text \<open>
  C21: Hash-consing a workload keeps every root: in order and under its identifier, a root's interned copy has
  the same operator, schema, guarantee, timing and materialization as the root (one value, or values the
  sharing decision calls equal), and so have their children, all the way down; whatever the hash and the
  serialization of a value are.
\<close>

theorem sharing_keeps_every_root:
  assumes "coherent N" "snd ` set roots \<subseteq> N" "share_common_sub_dags S i roots = (interned, st)"
  shows "list_all2 (\<lambda>r m. fst m = fst r \<and> similar S (snd r) (snd m)) roots interned"
proof -
  from share_ok[OF assms] have ok: "pass_ok S N st"
    and all: "list_all2 (\<lambda>r m. fst m = fst r \<and> copy_in (snd r) (snd m) st) roots interned" by blast+
  show ?thesis
  proof (rule list.rel_mono_strong[OF all])
    fix r m assume r: "r \<in> set roots" and c: "fst m = fst r \<and> copy_in (snd r) (snd m) st"
    have "snd r \<in> N" using assms(2) r by blast
    then show "fst m = fst r \<and> similar S (snd r) (snd m)"
      using pass_recorded[OF ok, of "snd r"] c by (simp add: copy_in_def recorded_def)
  qed
qed

theorem sharing_keeps_every_root_witness:
  "list_all2 (\<lambda>r m. fst m = fst r \<and> similar sample_services (snd r) (snd m)) sample_roots
     (fst (share_common_sub_dags sample_services 2 sample_roots))"
  by (rule sharing_keeps_every_root[OF sample_roots_coherent prod.collapse[symmetric]])

text \<open>
  C22: No duplicate is left: in the DAG of the interned roots, two nodes that are equal up to addresses, and so have
  equal operators, schemas, guarantees, timings and children all the way down, are one node, provided that
  their equal copies may be shared and that they compare equal to themselves; whatever the hash is and even over
  children that may not be shared.
\<close>

theorem no_two_interned_nodes_are_equal:
  assumes "coherent N" "snd ` set roots \<subseteq> N" "share_common_sub_dags S i roots = (interned, st)"
    and "m \<in> (\<Union>r \<in> set interned. below (snd r))" "m' \<in> (\<Union>r \<in> set interned. below (snd r))"
    and "anonymous m = anonymous m'" "may_share m" "\<forall>x \<in> below m. same_fields S x x"
  shows "m = m'"
proof (rule buckets_apart)
  from share_ok[OF assms(1-3)] show "buckets_ok S (fst st)" by (simp add: pass_ok_def table_ok_def)
  from interned_nodes[OF assms(1-3)] assms(4,5) show "m \<in> table_nodes (fst st)" "m' \<in> table_nodes (fst st)" by blast+
  show "may_share m'" using assms(7) similar_may_share[OF anonymous_similar[OF assms(6)]] by simp
qed (use anonymous_hash anonymous_same assms(6-8) in blast)+

text \<open>The two scans of the sample are interned as one node at the first free address.\<close>

abbreviation interned_sample :: "(nat \<times> operator_node) list" where
  "interned_sample \<equiv> fst (share_common_sub_dags sample_services 2 sample_roots)"

definition interned_scan :: operator_node where
  "interned_scan = OperatorNode 2 (operator_of sample_scan) InstantVectorKind sample_schema None None NotMaterialized"

lemma interned_sample_nodes: "interned_sample = [(0, interned_scan), (1, interned_scan)]"
  by code_simp

lemma interned_scan_alone: "below interned_scan = {interned_scan}"
  by (subst below_unfold) (simp add: interned_scan_def sample_scan_def node_children_def non_asap_children_def)

theorem no_two_interned_nodes_are_equal_witness: "snd (interned_sample ! 0) = snd (interned_sample ! 1)"
proof (rule no_two_interned_nodes_are_equal[OF sample_roots_coherent prod.collapse[symmetric], where i = 2])
  show "anonymous (snd (interned_sample ! 0)) = anonymous (snd (interned_sample ! 1))"
    and "may_share (snd (interned_sample ! 0))"
    by code_simp+
  have "same_fields sample_services interned_scan interned_scan" by code_simp
  then show "\<forall>x \<in> below (snd (interned_sample ! 0)). same_fields sample_services x x"
    by (simp add: interned_sample_nodes interned_scan_alone)
qed (simp_all add: interned_sample_nodes interned_scan_alone)



text \<open>
  C24: Sharing is complete: two roots that are equal up to the addresses of their nodes, over nodes whose equal
  copies may be shared and which compare equal to themselves, become one node, whatever the hash is.
\<close>

theorem equal_copies_become_one:
  assumes "coherent N" "snd ` set roots \<subseteq> N" "share_common_sub_dags S i roots = (interned, st)"
    and "j < length roots" "k < length roots" "anonymous (snd (roots ! j)) = anonymous (snd (roots ! k))"
    and "\<forall>x \<in> below (snd (roots ! j)). may_share x \<and> same_fields S x x"
  shows "snd (interned ! j) = snd (interned ! k)"
proof -
  from share_ok[OF assms(1-3)] have ok: "pass_ok S N st"
    and all: "list_all2 (\<lambda>r m. fst m = fst r \<and> copy_in (snd r) (snd m) st) roots interned" by blast+
  have v: "snd (roots ! x) \<in> N
      \<and> snd st (node_id (snd (roots ! x))) = Some (snd (roots ! x), snd (interned ! x))" if "x < length roots" for x
    using all that assms(2) nth_mem[OF that] by (auto simp: list_all2_conv_all_nth copy_in_def)
  from v[OF assms(4)] v[OF assms(5)] copies_of_equals[OF assms(1) ok] assms(6,7) show ?thesis by blast
qed

theorem equal_copies_become_one_witness:
  "snd (fst (share_common_sub_dags sample_services 2 sample_roots) ! 0)
     = snd (fst (share_common_sub_dags sample_services 2 sample_roots) ! 1)"
  by (rule equal_copies_become_one[OF sample_roots_coherent prod.collapse[symmetric]])
    (use sample_scan_shareable sample_scans_equal sample_scan_alone in \<open>auto simp: sample_roots_def\<close>)

end
