(* ===== verification/Stage0Props.thy ===== *)
theory Stage0Props
  imports Stage0Laws HashConsProps DagProps
begin

text \<open>
  The properties of Stage 0: it never panics, its groups are numbered children first with exact parents and
  queries, and every original node and every query root finds its group.
\<close>

section \<open>The stage as a whole\<close>

definition interned_roots :: "services \<Rightarrow> nat \<Rightarrow> operator_node query_root list \<Rightarrow> (nat \<times> operator_node) list" where
  "interned_roots S i roots = fst (share_common_sub_dags S i (operator_roots roots))"

text \<open>A workload: a set of nodes with one node per address, within the range of a group id.\<close>

definition workload :: "operator_node set \<Rightarrow> operator_node query_root list \<Rightarrow> bool" where
  "workload N roots \<longleftrightarrow>
     coherent N \<and> finite N \<and> card N \<le> 2 ^ 32 \<and> (\<forall>r \<in> set roots. set (root_refs r) \<subseteq> N)"

lemma operator_roots_set:
  "(q, n) \<in> set (operator_roots roots) \<longleftrightarrow> q < length roots \<and> n \<in> set (root_refs (roots ! q))"
proof -
  have "(q, n) \<in> set (operator_roots roots) \<longleftrightarrow>
      (\<exists>root. (q, root) \<in> set (enumerate 0 roots) \<and> n \<in> set (root_refs root))"
    by (force simp: operator_roots_def)
  then show ?thesis by (auto simp: in_set_enumerate_eq)
qed

lemma workload_roots: "workload N roots \<Longrightarrow> snd ` set (operator_roots roots) \<subseteq> N"
  by (force simp: workload_def operator_roots_set)

lemma numbered_below:
  assumes st: "numbered T st" and m: "snd st (node_id m) \<noteq> None" "m \<in> T" and T: "coherent T"
  shows "x \<in> below m \<Longrightarrow> x \<in> T \<and> snd st (node_id x) \<noteq> None"
proof (induction rule: below.induct)
  case (below_step k c)
  then obtain g where g: "snd st (node_id k) = Some g" "k \<in> T" by blast
  with st have "g < length (fst st)" "gnode (fst st) g = k" unfolding numbered_def by blast+
  with st have "map Some (gkids (fst st) g) = map (\<lambda>c. snd st (node_id c)) (node_children k)"
    by (auto simp: numbered_def)
  then have "Some ` set (gkids (fst st) g) = (\<lambda>c. snd st (node_id c)) ` set (node_children k)"
    by (metis list.set_map)
  with below_step.hyps(2) show ?case using T g(2) by (auto simp: coherent_def)
qed (use m in simp)

lemma pair_roots:
  assumes N: "coherent N" and T: "coherent T" and st: "numbered T st"
    and all: "\<forall>m \<in> T. snd st (node_id m) \<noteq> None"
  shows "\<forall>(o1, r1) \<in> set ps. snd o1 \<in> N \<and> snd r1 \<in> T \<and> similar S (snd o1) (snd r1) \<Longrightarrow>
    paired S N (fst st) seen \<Longrightarrow> (\<And>h. traversed N (dom seen) h) \<Longrightarrow>
    \<exists>seen'. fold_opt (\<lambda>(o1, r1). pair_nodes (snd st) (snd o1, snd r1)) ps seen = Some seen'
      \<and> paired S N (fst st) seen' \<and> dom seen' = dom seen \<union> (\<Union>p \<in> set ps. node_id ` below (snd (fst p)))"
proof (induction ps arbitrary: seen)
  case (Cons p ps)
  obtain a b where p: "p = (a, b)" by (cases p)
  with Cons.prems(1) have ab: "snd a \<in> N" "snd b \<in> T" "similar S (snd a) (snd b)" by auto
  from pair_ok[OF N T st all, of "(snd a, snd b)" S seen] ab Cons.prems(2,3) obtain s1 where
    s1: "pair_nodes (snd st) (snd a, snd b) seen = Some s1" "paired S N (fst st) s1"
    "dom s1 = dom seen \<union> node_id ` below (snd a)" by auto
  have "traversed N (dom s1) h" for h
    unfolding s1(3) by (rule traversed_union[OF N ab(1) Cons.prems(3)])
  with Cons.IH[of s1] Cons.prems(1) s1(2) obtain s2 where
    "fold_opt (\<lambda>(o1, r1). pair_nodes (snd st) (snd o1, snd r1)) ps s1 = Some s2" "paired S N (fst st) s2"
    "dom s2 = dom s1 \<union> (\<Union>p \<in> set ps. node_id ` below (snd (fst p)))" by auto
  with s1 show ?case by (auto simp: p)
qed simp

text \<open>What the stage returns.\<close>

definition stage_facts ::
  "services \<Rightarrow> nat \<Rightarrow> operator_node query_root list \<Rightarrow> operator_node set \<Rightarrow> operator_node set \<Rightarrow> numbering \<Rightarrow>
     memo_group list \<Rightarrow> (nat \<rightharpoonup> nat) \<Rightarrow> bool" where
  "stage_facts S i roots N T st groups seen \<longleftrightarrow>
     coherent T \<and> numbered T st \<and> same_dag (fst st) groups
     \<and> (\<forall>g < length groups. sorted (reached_by_queries (groups ! g)) \<and> distinct (reached_by_queries (groups ! g))
          \<and> set (reached_by_queries (groups ! g)) =
              {q. \<exists>m. (q, m) \<in> set (interned_roots S i roots) \<and> gnode groups g \<in> below m})
     \<and> paired S N groups seen \<and> (\<forall>r \<in> set roots. \<forall>n \<in> set (root_refs r). node_id ` below n \<subseteq> dom seen)"

lemma hash_consed_ok:
  fixes S :: services and i :: nat
  assumes w: "workload N roots"
  defines "T \<equiv> \<Union>m \<in> set (interned_roots S i roots). below (snd m)"
  shows "\<exists>st groups seen. hash_consed S i roots = Some (groups, seen) \<and> stage_facts S i roots N T st groups seen"
proof -
  let ?orig = "operator_roots roots"
  obtain out tv where run: "share_common_sub_dags S i ?orig = (out, tv)"
    by (cases "share_common_sub_dags S i ?orig")
  then have out: "interned_roots S i roots = out" by (simp add: interned_roots_def)
  have N: "coherent N" "finite N" "card N \<le> 2 ^ 32" using w by (simp_all add: workload_def)
  note roots = workload_roots[OF w]
  from interned_dag[OF N(1) roots run] N(2,3) have T: "coherent T" "finite T" "card T \<le> 2 ^ 32"
    by (auto simp: T_def out)
  have sub: "snd ` set out \<subseteq> T" by (auto simp: T_def out intro: below_refl)
  from number_roots_ok[OF T sub] obtain st where
    num: "fold_opt (\<lambda>r st. map_option snd (number (snd r) st)) out ([], Map.empty) = Some st"
    and st: "numbered T st" and rs: "\<forall>r \<in> set out. snd st (node_id (snd r)) \<noteq> None" by blast
  obtain groups id_of where s: "st = (groups, id_of)" by (cases st)
  have allT: "\<forall>m \<in> T. snd st (node_id m) \<noteq> None"
    using numbered_below[OF st _ _ T(1)] rs sub unfolding T_def out by blast
  have rid: "\<exists>g < length groups. id_of (node_id (snd r)) = Some g \<and> gnode groups g = snd r" if "r \<in> set out" for r
  proof -
    from rs that obtain g where g: "id_of (node_id (snd r)) = Some g" by (auto simp: s)
    moreover have "snd r \<in> T" using sub that by blast
    ultimately show ?thesis using st unfolding numbered_def s fst_conv snd_conv by blast
  qed
  have "\<forall>g < length groups. reached_by_queries (groups ! g) = []" using st by (simp add: numbered_def s)
  then have none: "\<forall>g < length groups. distinct (reached_by_queries (groups ! g))"
    "\<forall>g < length groups. marks groups g = {}"
    by (simp_all add: marks_def)
  have ids: "\<forall>r \<in> set out. \<exists>g < length groups. id_of (node_id (snd r)) = Some g" using rid by meson
  have closed: "closed_groups groups" using numbered_closed[OF st] by (simp add: s)
  from mark_all[OF closed ids none(1)] none(2) obtain groups1 where
    mk: "fold_opt (mark_query id_of) out groups = Some groups1" "same_dag groups groups1"
    and m1: "\<forall>g < length groups. distinct (reached_by_queries (groups1 ! g)) \<and> marks groups1 g =
        {q. \<exists>r \<in> set out. fst r = q \<and> (the (id_of (node_id (snd r))), g) \<in> (dag_steps groups)\<^sup>*}"
    by auto
  let ?G = "map sort_queries groups1"
  have dag: "same_dag groups ?G" by (rule same_dag_trans[OF mk(2) sort_queries_ok(1)])
  then have len: "length ?G = length groups" "length groups1 = length groups" by (simp_all add: same_dag_def)
  have Q: "sorted (reached_by_queries (?G ! g)) \<and> distinct (reached_by_queries (?G ! g))
      \<and> set (reached_by_queries (?G ! g)) = {q. \<exists>m. (q, m) \<in> set out \<and> gnode ?G g \<in> below m}"
    if g: "g < length ?G" for g
  proof -
    have gL: "g < length groups" "g < length groups1" using g len by simp_all
    have node: "gnode ?G g = gnode groups g" using dag gL(1) unfolding same_dag_def by blast
    have "marks ?G g = {q. \<exists>r \<in> set out. fst r = q \<and> (the (id_of (node_id (snd r))), g) \<in> (dag_steps groups)\<^sup>*}"
      using sort_queries_ok(2)[OF gL(2)] m1 gL(1) by simp
    also have "\<dots> = {q. \<exists>m. (q, m) \<in> set out \<and> gnode groups g \<in> below m}"
    proof -
      have "(the (id_of (node_id (snd r))), g) \<in> (dag_steps groups)\<^sup>* \<longleftrightarrow> gnode groups g \<in> below (snd r)"
        if "r \<in> set out" for r
        using rid[OF that] reached_below[OF T(1) st, of _ g] gL(1) unfolding s by fastforce
      then show ?thesis by (auto simp: Bex_def)
    qed
    finally show ?thesis
      using sort_queries_ok(2)[OF gL(2)] m1 gL(1) node by (simp add: marks_def)
  qed
  have zip: "\<forall>(o1, r1) \<in> set (zip ?orig out). snd o1 \<in> N \<and> snd r1 \<in> T \<and> similar S (snd o1) (snd r1)"
  proof -
    from share_ok[OF N(1) roots run] have ok: "pass_ok S N tv"
      and all: "list_all2 (\<lambda>r m. fst m = fst r \<and> copy_in (snd r) (snd m) tv) ?orig out" by blast+
    have "snd a \<in> N \<and> snd b \<in> T \<and> similar S (snd a) (snd b)" if ab: "(a, b) \<in> set (zip ?orig out)" for a b
    proof -
      have "snd a \<in> N" using set_zip_leftD[OF ab] roots by blast
      moreover have "snd b \<in> T" using set_zip_rightD[OF ab] sub by blast
      moreover have "copy_in (snd a) (snd b) tv" using all ab by (auto simp: list_all2_iff)
      ultimately show ?thesis
        using pass_recorded[OF ok, of "snd a"] by (simp add: copy_in_def recorded_def)
    qed
    then show ?thesis by auto
  qed
  have "paired S N (fst st) Map.empty" by (simp add: paired_def)
  from pair_roots[OF N(1) T(1) st allT zip this] obtain seen where
    seen: "fold_opt (\<lambda>(o1, r1). pair_nodes id_of (snd o1, snd r1)) (zip ?orig out) Map.empty = Some seen"
    "paired S N groups seen" "dom seen = (\<Union>p \<in> set (zip ?orig out). node_id ` below (snd (fst p)))"
    by (auto simp: s)
  have "length ?orig = length out" using share_ok[OF N(1) roots run] by (auto dest: list_all2_lengthD)
  then have "fst ` set (zip ?orig out) = set ?orig" by (metis list.set_map map_fst_zip)
  then have "dom seen = (\<Union>p \<in> set ?orig. node_id ` below (snd p))" unfolding seen(3) by (metis image_image)
  then have orig: "node_id ` below n \<subseteq> dom seen" if "(q, n) \<in> set ?orig" for q n using that by force
  have doms: "\<forall>r \<in> set roots. \<forall>n \<in> set (root_refs r). node_id ` below n \<subseteq> dom seen"
  proof (intro ballI)
    fix r n assume "r \<in> set roots" "n \<in> set (root_refs r)"
    then obtain q where "(q, n) \<in> set ?orig" unfolding operator_roots_set by (metis in_set_conv_nth)
    then show "node_id ` below n \<subseteq> dom seen" by (rule orig)
  qed
  have prs: "paired S N ?G seen" using seen(2) dag unfolding paired_def same_dag_def by metis
  have dag': "same_dag (fst st) ?G" using dag by (simp add: s)
  have Q': "\<forall>g < length ?G. sorted (reached_by_queries (?G ! g)) \<and> distinct (reached_by_queries (?G ! g))
      \<and> set (reached_by_queries (?G ! g)) = {q. \<exists>m. (q, m) \<in> set out \<and> gnode ?G g \<in> below m}"
    using Q by blast
  have "stage_facts S i roots N T st ?G seen"
    unfolding stage_facts_def out by (intro conjI T(1) st dag' Q' prs doms)
  moreover have "hash_consed S i roots = Some (?G, seen)"
    unfolding hash_consed_def Let_def run fst_conv num s option.case prod.case mk(1) seen(1) by simp
  ultimately show ?thesis by blast
qed


lemma map_root_option_total:
  assumes "\<forall>n \<in> set (root_refs r). f n \<noteq> None"
  shows "map_root_option f r = Some (map_query_root (\<lambda>n. the (f n)) r)"
proof (cases r)
  case (OperatorRoot n)
  with assms show ?thesis by auto
next
  case (ScalarRoot e)
  with assms have "list_all (\<lambda>n. f n \<noteq> None) (operator_refs e)" by (simp add: list_all_iff)
  then show ?thesis by (simp add: ScalarRoot map_refs_pure)
qed

lemma collect_option_map_total:
  "\<forall>x \<in> set xs. f x = Some (g x) \<Longrightarrow> collect_option f xs = Some (map g xs)"
  by (simp add: collect_option_iff list.rel_map list_all2_same)

lemma stage0_ok:
  assumes w: "workload N roots"
  obtains d st T where "dag_of_logical_memo_groups S i roots = Some d"
    "stage_facts S i roots N T st (dag_groups d) (group_of d)"
    "dag_query_roots d = map (map_query_root (\<lambda>n. the (group_for_node d n))) roots"
proof -
  from hash_consed_ok[OF w, of S i] obtain st groups seen T where
    h: "hash_consed S i roots = Some (groups, seen)" and facts: "stage_facts S i roots N T st groups seen"
    by blast
  let ?qs = "map (map_query_root (\<lambda>n. the (seen (node_id n)))) roots"
  let ?d = "\<lparr>dag_groups = groups, dag_query_roots = ?qs, group_of = seen\<rparr>"
  have "collect_option (map_root_option (\<lambda>n. seen (node_id n))) roots = Some ?qs"
  proof (rule collect_option_map_total, rule ballI, rule map_root_option_total, rule ballI)
    fix r n assume "r \<in> set roots" "n \<in> set (root_refs r)"
    with facts have "node_id ` below n \<subseteq> dom seen" unfolding stage_facts_def by blast
    then show "seen (node_id n) \<noteq> None" using below_refl[of n] by blast
  qed
  then have "dag_of_logical_memo_groups S i roots = Some ?d"
    by (simp add: dag_of_logical_memo_groups_def h)
  moreover have "stage_facts S i roots N T st (dag_groups ?d) (group_of ?d)" using facts by simp
  moreover have "dag_query_roots ?d = map (map_query_root (\<lambda>n. the (group_for_node ?d n))) roots"
    by (simp add: group_for_node_def)
  ultimately show ?thesis by (rule that)
qed

text \<open>The groups of the stage: children first, children and parents exact, one group per node.\<close>

lemma stage_group_kids:
  assumes T: "coherent T" and st: "numbered T st" and dag: "same_dag (fst st) groups" and g: "g < length groups"
  shows "(\<forall>c \<in> set (gkids groups g). c < g) \<and> map (gnode groups) (gkids groups g) = node_children (gnode groups g)
    \<and> distinct (parent_groups (groups ! g))
    \<and> set (parent_groups (groups ! g)) = {p. p < length groups \<and> g \<in> set (gkids groups p)}"
proof -
  have len: "length groups = length (fst st)" using dag by (simp add: same_dag_def)
  with g have gL: "g < length (fst st)" by simp
  have old: "\<forall>c \<in> set (gkids (fst st) g). c < g" "distinct (parent_groups (fst st ! g))"
    "set (parent_groups (fst st ! g)) = reading (fst st) g"
    using st gL by (simp_all add: numbered_def)
  have same: "gnode groups h = gnode (fst st) h \<and> gkids groups h = gkids (fst st) h
      \<and> parent_groups (groups ! h) = parent_groups (fst st ! h)" if "h < length (fst st)" for h
    using dag that unfolding same_dag_def by blast
  have "map (gnode groups) (gkids (fst st) g) = map (gnode (fst st)) (gkids (fst st) g)"
  proof (rule map_cong[OF refl])
    fix c assume "c \<in> set (gkids (fst st) g)"
    with old(1) gL have "c < length (fst st)" by (auto intro: less_trans)
    with same show "gnode groups c = gnode (fst st) c" by blast
  qed
  then have "map (gnode groups) (gkids groups g) = node_children (gnode groups g)"
    using gkids_nodes[OF T st gL] same[OF gL] by (simp only:)
  moreover have "reading (fst st) g = {p. p < length (fst st) \<and> g \<in> set (gkids groups p)}"
    using same by (auto simp: reading_def)
  ultimately show ?thesis using same[OF gL] old len by simp
qed

lemma stage_group_nodes:
  assumes T: "coherent T" and st: "numbered T st" and dag: "same_dag (fst st) groups"
  shows "distinct (map (\<lambda>g. node_id (logical_node g)) groups)"
proof -
  have len: "length groups = length (fst st)" using dag by (simp add: same_dag_def)
  have inj: "g = h" if g: "g < length (fst st)" "h < length (fst st)" and "node_id (gnode groups g) = node_id (gnode groups h)" for g h
  proof -
    have "node_id (gnode (fst st) g) = node_id (gnode (fst st) h)"
      using that dag unfolding same_dag_def by metis
    moreover have "gnode (fst st) g \<in> T" "gnode (fst st) h \<in> T" using st g by (simp_all add: numbered_def)
    ultimately show ?thesis using coherent_eq[OF T] gnode_inj[OF st g] by blast
  qed
  show ?thesis
    unfolding distinct_conv_nth length_map len
  proof (intro allI impI notI)
    fix g h assume g: "g < length (fst st)" "h < length (fst st)" "g \<noteq> h"
      and "map (\<lambda>g. node_id (logical_node g)) groups ! g = map (\<lambda>g. node_id (logical_node g)) groups ! h"
    then have "node_id (gnode groups g) = node_id (gnode groups h)" by (simp add: len)
    from inj[OF g(1,2) this] g(3) show False by simp
  qed
qed

section \<open>Properties\<close>

lemma sample_workload: "workload {sample_scan, second_scan} [OperatorRoot sample_scan, OperatorRoot second_scan]"
  using sample_roots_coherent(1) by (simp add: workload_def card_insert_if)

text \<open>
  C25: Stage 0 returns its memo DAG on every workload whose nodes have one address each and fit a group id,
  without a panic: groups come children first, a group's child groups are the groups of its logical node's
  children in their order, its parents are exactly the groups that read it, each once, and no node has two
  groups.
\<close>

theorem stage0_numbers_children_first:
  assumes "workload N roots"
  shows "\<exists>d. dag_of_logical_memo_groups S i roots = Some d
    \<and> (\<forall>g < length (dag_groups d).
         (\<forall>c \<in> set (child_groups (dag_groups d ! g)). c < g)
         \<and> map (\<lambda>c. logical_node (dag_groups d ! c)) (child_groups (dag_groups d ! g))
             = node_children (logical_node (dag_groups d ! g))
         \<and> distinct (parent_groups (dag_groups d ! g))
         \<and> set (parent_groups (dag_groups d ! g))
             = {p. p < length (dag_groups d) \<and> g \<in> set (child_groups (dag_groups d ! p))})
    \<and> distinct (map (\<lambda>g. node_id (logical_node g)) (dag_groups d))"
proof -
  obtain d st T where d: "dag_of_logical_memo_groups S i roots = Some d"
    and facts: "stage_facts S i roots N T st (dag_groups d) (group_of d)"
    by (rule stage0_ok[OF assms, of S i])
  have T: "coherent T" and st: "numbered T st" and dag: "same_dag (fst st) (dag_groups d)"
    using facts by (simp_all only: stage_facts_def)
  from stage_group_kids[OF T st dag] stage_group_nodes[OF T st dag] d show ?thesis by blast
qed

theorem stage0_numbers_children_first_witness:
  "\<exists>d. dag_of_logical_memo_groups sample_services 2 [OperatorRoot sample_scan, OperatorRoot second_scan] = Some d
    \<and> distinct (map (\<lambda>g. node_id (logical_node g)) (dag_groups d))"
  using stage0_numbers_children_first[OF sample_workload, of sample_services 2] by blast

text \<open>
  C26: The queries of a group are exactly those whose interned root reaches the group's logical node, each
  once and ascending.
\<close>

theorem stage0_queries_exact:
  assumes "workload N roots" "dag_of_logical_memo_groups S i roots = Some d" "g < length (dag_groups d)"
  shows "sorted (reached_by_queries (dag_groups d ! g)) \<and> distinct (reached_by_queries (dag_groups d ! g))
    \<and> set (reached_by_queries (dag_groups d ! g))
        = {q. \<exists>m. (q, m) \<in> set (interned_roots S i roots) \<and> logical_node (dag_groups d ! g) \<in> below m}"
proof -
  obtain d' st T where "dag_of_logical_memo_groups S i roots = Some d'"
    and facts: "stage_facts S i roots N T st (dag_groups d') (group_of d')"
    by (rule stage0_ok[OF assms(1), of S i])
  with assms(2) have "d' = d" by simp
  with facts assms(3) show ?thesis unfolding stage_facts_def by blast
qed

theorem stage0_queries_exact_witness:
  "\<exists>d. dag_of_logical_memo_groups sample_services 2 [OperatorRoot sample_scan, OperatorRoot second_scan] = Some d
    \<and> 0 < length (dag_groups d) \<and> sorted (reached_by_queries (dag_groups d ! 0))"
proof -
  let ?roots = "[OperatorRoot sample_scan, OperatorRoot second_scan]"
  obtain d st T where d: "dag_of_logical_memo_groups sample_services 2 ?roots = Some d"
    and facts: "stage_facts sample_services 2 ?roots {sample_scan, second_scan} T st (dag_groups d) (group_of d)"
    by (rule stage0_ok[OF sample_workload, of sample_services 2])
  have p: "paired sample_services {sample_scan, second_scan} (dag_groups d) (group_of d)"
    and in_dom: "\<forall>r \<in> set ?roots. \<forall>n \<in> set (root_refs r). node_id ` below n \<subseteq> dom (group_of d)"
    using facts unfolding stage_facts_def by blast+
  from in_dom have "node_id sample_scan \<in> dom (group_of d)" using below_refl[of sample_scan] by auto
  with p have "0 < length (dag_groups d)" by (auto simp: paired_def)
  with stage0_queries_exact[OF sample_workload d] d show ?thesis by blast
qed

text \<open>
  C27: Every node of the workload has a group, and the group's logical node is similar to it; each query root
  is the query's own, with every operator it reads replaced by that operator's group.
\<close>

theorem stage0_every_node_has_its_group:
  assumes "workload N roots" "dag_of_logical_memo_groups S i roots = Some d"
  shows "(\<forall>r \<in> set roots. \<forall>n \<in> set (root_refs r). \<forall>k \<in> below n.
      \<exists>g < length (dag_groups d). group_for_node d k = Some g \<and> similar S k (logical_node (dag_groups d ! g)))
    \<and> dag_query_roots d = map (map_query_root (\<lambda>n. the (group_for_node d n))) roots"
proof -
  obtain d' st T where d': "dag_of_logical_memo_groups S i roots = Some d'"
    and facts': "stage_facts S i roots N T st (dag_groups d') (group_of d')"
    and qs': "dag_query_roots d' = map (map_query_root (\<lambda>n. the (group_for_node d' n))) roots"
    by (rule stage0_ok[OF assms(1), of S i])
  have same: "d' = d" using assms(2) d' by simp
  note facts = facts'[unfolded same] and qs = qs'[unfolded same]
  have p: "paired S N (dag_groups d) (group_of d)"
    and in_dom: "\<forall>r \<in> set roots. \<forall>n \<in> set (root_refs r). node_id ` below n \<subseteq> dom (group_of d)"
    using facts unfolding stage_facts_def by blast+
  have "\<exists>g < length (dag_groups d). group_for_node d k = Some g \<and> similar S k (gnode (dag_groups d) g)"
    if k: "r \<in> set roots" "n \<in> set (root_refs r)" "k \<in> below n" for r n k
  proof -
    have "n \<in> N" "coherent N" using assms(1) k(1,2) by (auto simp: workload_def)
    then have "k \<in> N" using coherent_below k(3) by blast
    moreover from in_dom k obtain g where "group_of d (node_id k) = Some g" by blast
    ultimately show ?thesis using p by (auto simp: paired_def group_for_node_def)
  qed
  with qs show ?thesis by blast
qed

theorem stage0_every_node_has_its_group_witness:
  "\<exists>d. dag_of_logical_memo_groups sample_services 2 [OperatorRoot sample_scan, OperatorRoot second_scan] = Some d
    \<and> dag_query_roots d = [OperatorRoot (the (group_for_node d sample_scan)), OperatorRoot (the (group_for_node d second_scan))]"
proof -
  let ?roots = "[OperatorRoot sample_scan, OperatorRoot second_scan]"
  obtain d where d: "dag_of_logical_memo_groups sample_services 2 ?roots = Some d"
    by (rule stage0_ok[OF sample_workload, of sample_services 2])
  from stage0_every_node_has_its_group[OF sample_workload d] d show ?thesis by simp
qed

end
