(* ===== verification/ExecValue.thy ===== *)
theory ExecValue
  imports F64 Schema "HOL-Library.Char_ord" "HOL-Library.List_Lexorder"
begin

text \<open>
  The runtime values of the executor (\<^verbatim>\<open>executor/src/values/mod.rs\<close>, \<^verbatim>\<open>executor/src/error.rs\<close>): a
  value, whether it has a column's type, the byte key that groups it, and the order of two values.
  A summary state is opaque: its type is the parameter \<open>'s\<close>. Text is its UTF-8 bytes (a \<open>char\<close> is a
  byte), integers are words of their width.
\<close>

type_synonym byte = "8 word"

text \<open>\<^verbatim>\<open>executor::Error\<close>.\<close>

datatype exec_error =
    Invalid string
  | OperatorFailed string
  | AtNode nat string exec_error
  | MemoryLimit
  | Cancelled

type_synonym 'a exec_result = "exec_error + 'a"

section \<open>Values\<close>

datatype 's exec_value =
    VNull
  | VBool bool
  | VInt64 "64 word"
  | VFloat64 f64
  | VUtf8 string
  | VTimestamp "64 word"
  | VDate "32 word"
  | VInterval "32 word" "32 word" "64 word" \<comment> \<open>months, days, nanos\<close>
  | VList "'s exec_value list"
  | VStruct "'s exec_value list"
  | VMap "('s exec_value \<times> 's exec_value) list"
  | VSummary field_data_type 's

definition is_null :: "'s exec_value \<Rightarrow> bool" where
  "is_null v \<longleftrightarrow> (case v of VNull \<Rightarrow> True | _ \<Rightarrow> False)"

lemma is_null_iff [simp]: "is_null v \<longleftrightarrow> v = VNull"
  by (cases v) (simp_all add: is_null_def)

text \<open>
  \<^verbatim>\<open>Value::bytes\<close>: \<open>self_size\<close> is \<^verbatim>\<open>size_of::<Value>()\<close> of the target, \<open>state_size\<close> the size a state
  reports (\<^verbatim>\<open>approx_memory_bytes\<close>).
\<close>

fun value_bytes :: "nat \<Rightarrow> ('s \<Rightarrow> nat) \<Rightarrow> 's exec_value \<Rightarrow> nat" where
  "value_bytes self_size state_size v =
     self_size +
     (case v of
        VUtf8 s \<Rightarrow> length s
      | VList vs \<Rightarrow> sum_list (map (value_bytes self_size state_size) vs)
      | VStruct vs \<Rightarrow> sum_list (map (value_bytes self_size state_size) vs)
      | VMap kvs \<Rightarrow>
          sum_list (map (\<lambda>(k, w). value_bytes self_size state_size k + value_bytes self_size state_size w) kvs)
      | VSummary _ state \<Rightarrow> state_size state
      | _ \<Rightarrow> 0)"

section \<open>Types\<close>

text \<open>\<^verbatim>\<open>Value::matches\<close>: the value belongs to a column of this type and nullability.\<close>

fun value_matches :: "'s exec_value \<Rightarrow> data_type \<Rightarrow> bool \<Rightarrow> bool" where
  "value_matches VNull t n = (n \<or> t = NullType)"
| "value_matches (VBool _) t n = (t = BoolType)"
| "value_matches (VInt64 _) t n = (t = Int64Type)"
| "value_matches (VFloat64 _) t n = (t = Float64Type)"
| "value_matches (VUtf8 _) t n = (t = Utf8Type)"
| "value_matches (VTimestamp _) t n = (t = TimestampType)"
| "value_matches (VDate _) t n = (t = DateType)"
| "value_matches (VInterval _ _ _) t n = (t = IntervalType)"
| "value_matches (VList vs) t n =
     (case t of
        ListType element \<Rightarrow> list_all (\<lambda>v. value_matches v (dtype element) (nullable element)) vs
      | _ \<Rightarrow> False)"
| "value_matches (VStruct vs) t n =
     (case t of
        StructType fs \<Rightarrow>
          length vs = length fs
          \<and> list_all2 (\<lambda>v f. value_matches v (dtype f) (nullable f)) vs fs
      | _ \<Rightarrow> False)"
| "value_matches (VMap kvs) t n =
     (case t of
        MapType key val val_nullable \<Rightarrow>
          list_all (\<lambda>(k, v). value_matches k key False \<and> value_matches v val val_nullable) kvs
      | _ \<Rightarrow> False)"
| "value_matches (VSummary _ _) t n = False"

text \<open>\<^verbatim>\<open>expressions::ordered\<close>: the types whose values a sort key may have.\<close>

fun ordered :: "data_type \<Rightarrow> bool" where
  "ordered (MapType key val _) = (ordered key \<and> ordered val)"
| "ordered NullType = True"
| "ordered Int64Type = True"
| "ordered Float64Type = True"
| "ordered Utf8Type = True"
| "ordered BoolType = True"
| "ordered TimestampType = True"
| "ordered DateType = True"
| "ordered _ = False"

section \<open>Keys\<close>

text \<open>\<^verbatim>\<open>to_le_bytes\<close>, \<^verbatim>\<open>str::as_bytes\<close>, and a length in eight bytes.\<close>

definition le_bytes :: "'a::len word \<Rightarrow> byte list" where
  "le_bytes w = map (\<lambda>i. ucast (drop_bit (8 * i) w)) [0..<LENGTH('a) div 8]"

definition text_bytes :: "string \<Rightarrow> byte list" where
  "text_bytes s = map of_char s"

text \<open>The nested keys of \<^verbatim>\<open>Value::key\<close>: each under its length as a \<^verbatim>\<open>u64\<close>.\<close>

definition segment :: "byte list \<Rightarrow> byte list" where
  "segment key = le_bytes (word_of_nat (length key) :: 64 word) @ key"

text \<open>The bits of a float key: the two zeros are one value, and so are all NaN payloads.\<close>

definition canonical_bits :: "f64 \<Rightarrow> 64 word" where
  "canonical_bits v =
     (if f64_eq v f64_zero then 0
      else if is_nan v then to_bits f64_nan
      else to_bits v)"

fun value_key :: "'s exec_value \<Rightarrow> byte list exec_result" where
  "value_key VNull = Ok [0]"
| "value_key (VBool v) = Ok [1, if v then 1 else 0]"
| "value_key (VInt64 v) = Ok (2 # le_bytes v)"
| "value_key (VFloat64 v) = Ok (3 # le_bytes (canonical_bits v))"
| "value_key (VUtf8 v) = Ok (4 # text_bytes v)"
| "value_key (VTimestamp v) = Ok (5 # le_bytes v)"
| "value_key (VDate v) = Ok (6 # le_bytes v)"
| "value_key (VInterval months days nanos) =
     Ok (7 # le_bytes months @ 8 # le_bytes days @ 9 # le_bytes nanos)"
| "value_key (VList vs) =
     bind_result (collect_result value_key vs) (\<lambda>ks. Ok (10 # concat (map segment ks)))"
| "value_key (VStruct vs) =
     bind_result (collect_result value_key vs) (\<lambda>ks. Ok (11 # concat (map segment ks)))"
| "value_key (VMap kvs) =
     bind_result
       (collect_result
          (\<lambda>(k, v). bind_result (value_key k) (\<lambda>kk. bind_result (value_key v) (\<lambda>kv. Ok (kk, kv)))) kvs)
       (\<lambda>ks. Ok (12 # concat (map (\<lambda>(kk, kv). segment kk @ segment kv) ks)))"
| "value_key (VSummary _ _) = Err (Invalid ''summary states cannot be grouping keys'')"

section \<open>Order\<close>

text \<open>
  The loop of \<^verbatim>\<open>Value::compare\<close> over the entries of two maps: keys first, then values, a NULL value
  after every other; the loop ends at the first difference or with the shorter map.
\<close>

fun compare_entries ::
  "('v \<Rightarrow> bool) \<Rightarrow> ('v \<Rightarrow> 'v \<Rightarrow> ordering exec_result) \<Rightarrow> ('v \<times> 'v) list \<Rightarrow> ('v \<times> 'v) list
   \<Rightarrow> ordering exec_result" where
  "compare_entries null compare ((lk, lv) # ls) ((rk, rv) # rs) =
     bind_result (compare lk rk) (\<lambda>result.
       if result \<noteq> Equal then Ok result
       else bind_result
         (case (null lv, null rv) of
            (True, True) \<Rightarrow> Ok Equal
          | (True, False) \<Rightarrow> Ok Greater
          | (False, True) \<Rightarrow> Ok Less
          | (False, False) \<Rightarrow> compare lv rv)
         (\<lambda>result. if result \<noteq> Equal then Ok result else compare_entries null compare ls rs))"
| "compare_entries null compare _ _ = Ok Equal"

lemma compare_entries_cong [fundef_cong]:
  assumes "null = null'" and "xs = xs'" and "ys = ys'"
    and "\<And>k v l w. (k, v) \<in> set xs' \<Longrightarrow> (l, w) \<in> set ys' \<Longrightarrow> f k l = g k l"
    and "\<And>k v l w. (k, v) \<in> set xs' \<Longrightarrow> (l, w) \<in> set ys' \<Longrightarrow> f v w = g v w"
  shows "compare_entries null f xs ys = compare_entries null' g xs' ys'"
proof -
  have "(\<And>k v l w. (k, v) \<in> set xs \<Longrightarrow> (l, w) \<in> set ys \<Longrightarrow> f k l = g k l \<and> f v w = g v w) \<Longrightarrow>
    compare_entries null f xs ys = compare_entries null g xs ys" for xs ys
  proof (induction xs arbitrary: ys)
    case Nil
    then show ?case by simp
  next
    case (Cons x xs)
    show ?case
    proof (cases ys)
      case (Cons y zs)
      obtain k v l w where "x = (k, v)" and "y = (l, w)" by fastforce
      moreover have "f k l = g k l" "f v w = g v w"
        using Cons.prems calculation Cons by auto
      moreover have "compare_entries null f xs zs = compare_entries null g xs zs"
        by (rule Cons.IH) (use Cons.prems Cons in auto)
      ultimately show ?thesis by (simp add: Cons cong: if_cong split: bool.splits)
    qed simp
  qed
  with assms show ?thesis by blast
qed

text \<open>\<^verbatim>\<open>Value::compare\<close>.\<close>

definition no_common_order :: "ordering exec_result" where
  "no_common_order = Err (OperatorFailed ''values do not have a supported common ordering'')"

fun value_compare :: "'s exec_value \<Rightarrow> 's exec_value \<Rightarrow> ordering exec_result" where
  "value_compare VNull w = (case w of VNull \<Rightarrow> Ok Equal | _ \<Rightarrow> no_common_order)"
| "value_compare (VInt64 a) w =
     (case w of VInt64 b \<Rightarrow> Ok (cmp (sint a) (sint b)) | _ \<Rightarrow> no_common_order)"
| "value_compare (VTimestamp a) w =
     (case w of VTimestamp b \<Rightarrow> Ok (cmp (sint a) (sint b)) | _ \<Rightarrow> no_common_order)"
| "value_compare (VFloat64 a) w =
     (case w of
        VFloat64 b \<Rightarrow> Ok (if f64_eq a b then Equal else f64_total_cmp a b)
      | _ \<Rightarrow> no_common_order)"
| "value_compare (VUtf8 a) w = (case w of VUtf8 b \<Rightarrow> Ok (cmp a b) | _ \<Rightarrow> no_common_order)"
| "value_compare (VBool a) w = (case w of VBool b \<Rightarrow> Ok (cmp a b) | _ \<Rightarrow> no_common_order)"
| "value_compare (VDate a) w =
     (case w of VDate b \<Rightarrow> Ok (cmp (sint a) (sint b)) | _ \<Rightarrow> no_common_order)"
| "value_compare (VMap left) w =
     (case w of
        VMap right \<Rightarrow>
          bind_result (compare_entries is_null value_compare left right) (\<lambda>result.
            Ok (if result = Equal then cmp (length left) (length right) else result))
      | _ \<Rightarrow> no_common_order)"
| "value_compare (VInterval _ _ _) _ = no_common_order"
| "value_compare (VList _) _ = no_common_order"
| "value_compare (VStruct _) _ = no_common_order"
| "value_compare (VSummary _ _) _ = no_common_order"

end
