(* ===== verification/ExecKeys.thy ===== *)
theory ExecKeys
  imports ExecValue
begin

unbundle bit_operations_syntax

text \<open>
  The byte keys of values: a reader of keys that recovers the value up to the identification of
  float payloads, hence that two values have one key exactly when they are the same value up to the
  sign of zero and the payload of NaN. The reader is a proof device; the executor only compares keys.
\<close>

section \<open>Fixed-width fields\<close>

fun of_le :: "byte list \<Rightarrow> 'a::len word" where
  "of_le [] = 0"
| "of_le (b # bs) = ucast b OR push_bit 8 (of_le bs)"

lemma bit_of_le:
  "bit (of_le bs :: 'a::len word) n \<longleftrightarrow>
     n < LENGTH('a) \<and> n div 8 < length bs \<and> bit (bs ! (n div 8)) (n mod 8)"
proof (induction bs arbitrary: n)
  case Nil
  then show ?case by simp
next
  case (Cons b bs)
  show ?case
  proof (cases "n < 8")
    case True
    then show ?thesis
      by (auto simp: bit_or_iff bit_push_bit_iff bit_unsigned_iff)
  next
    case False
    then have "n div 8 = Suc ((n - 8) div 8)" "n mod 8 = (n - 8) mod 8"
      by (simp_all add: div_if mod_if)
    moreover have "\<not> bit b n"
      using False by (auto dest: bit_imp_le_length)
    ultimately show ?thesis
      using False by (auto simp: bit_or_iff bit_push_bit_iff bit_unsigned_iff Cons.IH)
  qed
qed

lemma length_le_bytes [simp]: "length (le_bytes (w :: 'a::len word)) = LENGTH('a) div 8"
  by (simp add: le_bytes_def)

lemma le_bytes_not_Nil [simp]: "le_bytes (w :: 64 word) \<noteq> []"
  by (simp add: le_bytes_def)

lemma of_le_le_bytes:
  assumes "8 dvd LENGTH('a)"
  shows "of_le (le_bytes w) = (w :: 'a::len word)"
proof (rule bit_word_eqI)
  fix n
  assume n: "n < LENGTH('a)"
  then have "n div 8 < LENGTH('a) div 8"
    using assms by (auto simp: dvd_def)
  with n show "bit (of_le (le_bytes w) :: 'a word) n \<longleftrightarrow> bit w n"
    by (simp add: bit_of_le le_bytes_def bit_unsigned_iff bit_drop_bit_eq)
qed

lemma of_le_fields [simp]:
  "of_le (le_bytes (w :: 64 word)) = w"
  "of_le (le_bytes (d :: 32 word)) = d"
  by (simp_all add: of_le_le_bytes)

lemma le_bytes_eq [simp]:
  "le_bytes (w :: 64 word) = le_bytes w' \<longleftrightarrow> w = w'"
  "le_bytes (d :: 32 word) = le_bytes d' \<longleftrightarrow> d = d'"
  by (metis of_le_fields)+

definition bytes_text :: "byte list \<Rightarrow> string" where
  "bytes_text bs = map (\<lambda>b. char_of (unat b)) bs"

lemma char_of_of_char_byte [simp]: "char_of (unat (of_char c :: byte)) = c"
proof -
  have "(of_char c :: byte) = word_of_nat (of_char c)"
    by (simp add: of_nat_of_char)
  moreover have "(of_char c :: nat) < 256"
    by simp
  ultimately show ?thesis
    by (simp add: unat_of_nat del: of_nat_of_char)
qed

lemma bytes_text_text_bytes [simp]: "bytes_text (text_bytes s) = s"
  by (induction s) (simp_all add: bytes_text_def text_bytes_def)

lemma text_bytes_eq [simp]: "text_bytes s = text_bytes t \<longleftrightarrow> s = t"
  by (metis bytes_text_text_bytes)

section \<open>Segments\<close>

text \<open>The segments a byte sequence consists of, each under its length.\<close>

function split_segments :: "byte list \<Rightarrow> byte list list option" where
  "split_segments bs =
     (if bs = [] then Some []
      else if length bs < 8 then None
      else let n = unat (of_le (take 8 bs) :: 64 word); rest = drop 8 bs in
        if length rest < n then None
        else map_option ((#) (take n rest)) (split_segments (drop n rest)))"
  by pat_completeness auto
termination by (relation "measure length") (auto simp: not_less)

declare split_segments.simps [simp del]

lemma split_segments_Nil [simp]: "split_segments [] = Some []"
  by (simp add: split_segments.simps)

lemma split_segments_segment:
  assumes "length k \<le> u64_max"
  shows "split_segments (segment k @ bs) = map_option ((#) k) (split_segments bs)"
proof -
  have "unat (word_of_nat (length k) :: 64 word) = length k"
    using assms by (simp add: unat_of_nat u64_max_def)
  then show ?thesis
    by (subst split_segments.simps) (simp add: segment_def)
qed

lemma split_segments_concat:
  "\<forall>k \<in> set ks. length k \<le> u64_max \<Longrightarrow> split_segments (concat (map segment ks)) = Some ks"
  by (induction ks) (simp_all add: split_segments_segment)

lemma split_segments_length:
  "split_segments bs = Some ks \<Longrightarrow> k \<in> set ks \<Longrightarrow> length k \<le> length bs"
proof (induction bs arbitrary: ks rule: split_segments.induct)
  case (1 bs)
  show ?case
  proof (cases "bs = [] \<or> length bs < 8")
    case True
    with "1.prems" show ?thesis by (cases "bs = []") (simp_all add: split_segments.simps [of bs])
  next
    case False
    let ?n = "unat (of_le (take 8 bs) :: 64 word)"
    from "1.prems"(1) False obtain ks' where
      ks': "split_segments (drop ?n (drop 8 bs)) = Some ks'" "ks = take ?n (drop 8 bs) # ks'"
      by (subst (asm) split_segments.simps) (auto simp: Let_def split: if_splits)
    have short: "\<not> length (drop 8 bs) < ?n"
      using "1.prems"(1) False by (subst (asm) split_segments.simps) (auto simp: Let_def split: if_splits)
    show ?thesis
    proof (cases "k \<in> set ks'")
      case True
      have "length k \<le> length (drop ?n (drop 8 bs))"
        by (rule "1.IH" [OF _ _ refl refl short ks'(1) True]) (use False in auto)
      then show ?thesis by simp
    next
      case False
      with "1.prems"(2) ks'(2) show ?thesis by simp
    qed
  qed
qed

lemma segment_length: "length (segment k) = 8 + length k"
  by (simp add: segment_def)

lemma segments_bound:
  "k \<in> set ks \<Longrightarrow> length k \<le> length (concat (map segment ks))"
  by (induction ks) (auto simp: segment_length)

section \<open>Reading a key\<close>

fun pair_up :: "'a list \<Rightarrow> ('a \<times> 'a) list" where
  "pair_up (x # y # xs) = (x, y) # pair_up xs"
| "pair_up _ = []"

function read_key :: "byte list \<Rightarrow> 's exec_value option" where
  "read_key [] = None"
| "read_key (tag # body) =
     (if tag = 0 then Some VNull
      else if tag = 1 then Some (VBool (body = [1]))
      else if tag = 2 then Some (VInt64 (of_le body))
      else if tag = 3 then Some (VFloat64 (F64 (of_le body)))
      else if tag = 4 then Some (VUtf8 (bytes_text body))
      else if tag = 5 then Some (VTimestamp (of_le body))
      else if tag = 6 then Some (VDate (of_le body))
      else if tag = 7 then
        Some (VInterval (of_le (take 4 body)) (of_le (take 4 (drop 5 body))) (of_le (drop 10 body)))
      else (case split_segments body of
          None \<Rightarrow> None
        | Some ks \<Rightarrow>
            map_option (\<lambda>vs. if tag = 10 then VList vs
                else if tag = 11 then VStruct vs
                else VMap (pair_up vs))
              (collect_option read_key ks)))"
  by pat_completeness auto
termination
  by (relation "measure length") (auto dest: split_segments_length simp: less_Suc_eq_le)

declare read_key.simps(2) [simp del]

text \<open>A value with its floats in the form keys keep.\<close>

fun canonical :: "'s exec_value \<Rightarrow> 's exec_value" where
  "canonical (VFloat64 x) = VFloat64 (F64 (canonical_bits x))"
| "canonical (VList vs) = VList (map canonical vs)"
| "canonical (VStruct vs) = VStruct (map canonical vs)"
| "canonical (VMap kvs) = VMap (map (\<lambda>(k, v). (canonical k, canonical v)) kvs)"
| "canonical v = v"

lemma canonical_bits_canonical [simp]: "canonical_bits (F64 (canonical_bits x)) = canonical_bits x"
proof -
  have "f64_eq (F64 0) f64_zero"
    by (simp add: f64_eq_def f64_classes f64_zero_def f64_mag_def)
  moreover have "is_nan (F64 (to_bits f64_nan))" "\<not> f64_eq (F64 (to_bits f64_nan)) f64_zero"
    by (simp_all add: f64_eq_def f64_classes f64_consts f64_mag_def)
  ultimately show ?thesis
    by (auto simp: canonical_bits_def)
qed

lemma collect_result_Ok:
  "collect_result f xs = Inr ys \<longleftrightarrow> list_all2 (\<lambda>x y. f x = Inr y) xs ys"
proof (induction xs arbitrary: ys)
  case (Cons x xs)
  then show ?case by (cases ys) auto
qed auto

lemma collect_result_map: "collect_result f (map g xs) = collect_result (\<lambda>x. f (g x)) xs"
  by (induction xs) simp_all

lemma value_key_canonical: "value_key (canonical v) = value_key v"
proof (induction v rule: canonical.induct)
  case (2 vs)
  then have "collect_result (\<lambda>v. value_key (canonical v)) vs = collect_result value_key vs"
    by (intro collect_result_cong) auto
  then show ?case by (simp add: collect_result_map)
next
  case (3 vs)
  then have "collect_result (\<lambda>v. value_key (canonical v)) vs = collect_result value_key vs"
    by (intro collect_result_cong) auto
  then show ?case by (simp add: collect_result_map)
next
  case (4 kvs)
  then show ?case
    by (auto simp: collect_result_map split_def intro!: arg_cong2 [where f = bind_result] collect_result_cong)
qed simp_all

lemma read_segments:
  assumes "list_all2 (\<lambda>v k. length k \<le> u64_max \<longrightarrow> read_key k = Some (canonical v)) vs ks"
    and "length (concat (map segment ks)) \<le> u64_max"
  shows "split_segments (concat (map segment ks)) = Some ks"
    and "collect_option read_key ks = Some (map canonical vs)"
proof -
  have short: "\<forall>k \<in> set ks. length k \<le> u64_max"
    using assms(2) segments_bound order_trans by blast
  then show "split_segments (concat (map segment ks)) = Some ks"
    by (rule split_segments_concat)
  show "collect_option read_key ks = Some (map canonical vs)"
    using assms(1) short by (induction rule: list_all2_induct) simp_all
qed

text \<open>The keys of a map's entries, one list.\<close>

definition unpair :: "('a \<times> 'a) list \<Rightarrow> 'a list" where
  "unpair ps = concat (map (\<lambda>(a, b). [a, b]) ps)"

lemma unpair_simps [simp]: "unpair [] = []" "unpair ((a, b) # ps) = a # b # unpair ps"
  by (simp_all add: unpair_def)

lemma pair_up_unpair: "pair_up (map f (unpair ps)) = map (\<lambda>(a, b). (f a, f b)) ps"
  by (induction ps) auto

lemma concat_segment_pairs:
  "concat (map (\<lambda>(a, b). segment a @ segment b) ks) = concat (map segment (unpair ks))"
  by (induction ks) auto

lemma list_all2_unpair:
  "list_all2 (\<lambda>(a, b) (c, d). P a c \<and> P b d) ps qs \<Longrightarrow> list_all2 P (unpair ps) (unpair qs)"
  by (induction rule: list_all2_induct) auto

lemma take_drop_le_bytes [simp]:
  "take 4 (le_bytes (d :: 32 word) @ bs) = le_bytes d"
  "drop 5 (le_bytes (d :: 32 word) @ b # bs) = bs"
  by simp_all

lemma read_key_value_key:
  "value_key v = Inr k \<Longrightarrow> length k \<le> u64_max \<Longrightarrow> read_key k = Some (canonical v)"
proof (induction v arbitrary: k rule: value_key.induct)
  case (9 vs)
  then obtain ks where ks: "list_all2 (\<lambda>v k. value_key v = Inr k) vs ks" "k = 10 # concat (map segment ks)"
    by (auto simp: collect_result_Ok)
  have "list_all2 (\<lambda>v k. length k \<le> u64_max \<longrightarrow> read_key k = Some (canonical v)) vs ks"
    using ks(1) by (rule list.rel_mono_strong) (use "9.IH" in auto)
  from read_segments [OF this] "9.prems"(2) show ?case
    by (simp add: ks(2) read_key.simps(2))
next
  case (10 vs)
  then obtain ks where ks: "list_all2 (\<lambda>v k. value_key v = Inr k) vs ks" "k = 11 # concat (map segment ks)"
    by (auto simp: collect_result_Ok)
  have "list_all2 (\<lambda>v k. length k \<le> u64_max \<longrightarrow> read_key k = Some (canonical v)) vs ks"
    using ks(1) by (rule list.rel_mono_strong) (use "10.IH" in auto)
  from read_segments [OF this] "10.prems"(2) show ?case
    by (simp add: ks(2) read_key.simps(2))
next
  case (11 kvs)
  then obtain ks where
    "collect_result (\<lambda>(x, y). bind_result (value_key x) (\<lambda>kx. bind_result (value_key y) (\<lambda>ky. Inr (kx, ky)))) kvs
      = Inr ks"
    and k: "k = 12 # concat (map segment (unpair ks))"
    by (auto simp del: bind_result_eq_Inr simp: concat_segment_pairs bind_result_def split: sum.splits)
  then have ks: "list_all2 (\<lambda>(x, y) (kx, ky). value_key x = Inr kx \<and> value_key y = Inr ky) kvs ks"
    unfolding collect_result_Ok by - (rule list.rel_mono_strong, assumption, auto)
  have "list_all2 (\<lambda>(x, y) (kx, ky). (length kx \<le> u64_max \<longrightarrow> read_key kx = Some (canonical x))
      \<and> (length ky \<le> u64_max \<longrightarrow> read_key ky = Some (canonical y))) kvs ks"
    using ks by (rule list.rel_mono_strong) (use "11.IH" in fastforce)
  from read_segments [OF list_all2_unpair [OF this]] "11.prems"(2) show ?case
    by (simp add: k read_key.simps(2) pair_up_unpair)
qed (auto simp: read_key.simps(2))

section \<open>Keys identify values\<close>

text \<open>
  C28: the key of a value can be read back, up to the sign of a zero and the payload of a NaN at any
  depth: two values that have keys have the same key exactly when they agree up to those.
\<close>

theorem key_roundtrip:
  assumes "value_key v = Inr k" and "value_key w = Inr k'"
    and "length k \<le> u64_max" and "length k' \<le> u64_max"
  shows "read_key k = Some (canonical v) \<and> (k = k' \<longleftrightarrow> canonical v = canonical w)"
proof -
  have "read_key k = Some (canonical v)" "read_key k' = Some (canonical w)"
    using assms by (simp_all add: read_key_value_key)
  moreover have "canonical v = canonical w \<Longrightarrow> k = k'"
    using assms(1,2) by (metis value_key_canonical sum.inject(2))
  ultimately show ?thesis by auto
qed

lemma key_examples:
  "value_key (VStruct [VFloat64 f64_neg_zero, VUtf8 ''a''])
    = Inr [11, 9, 0, 0, 0, 0, 0, 0, 0, 3, 0, 0, 0, 0, 0, 0, 0, 0, 2, 0, 0, 0, 0, 0, 0, 0, 4, 97]"
  "value_key (VStruct [VFloat64 f64_zero, VUtf8 ''a''])
    = Inr [11, 9, 0, 0, 0, 0, 0, 0, 0, 3, 0, 0, 0, 0, 0, 0, 0, 0, 2, 0, 0, 0, 0, 0, 0, 0, 4, 97]"
  by (simp_all add: segment_def le_bytes_def text_bytes_def canonical_bits_def f64_eq_def f64_classes
      f64_consts f64_mag_def f64_key_def f64_sign_def upt_rec)

theorem key_roundtrip_witness:
  "read_key [11, 9, 0, 0, 0, 0, 0, 0, 0, 3, 0, 0, 0, 0, 0, 0, 0, 0, 2, 0, 0, 0, 0, 0, 0, 0, 4, 97]
    = Some (VStruct [VFloat64 f64_zero, VUtf8 ''a''] :: unit exec_value)"
proof -
  have "canonical (VStruct [VFloat64 f64_zero, VUtf8 ''a''] :: unit exec_value)
      = VStruct [VFloat64 f64_zero, VUtf8 ''a'']"
    by (simp add: canonical_bits_def f64_eq_def f64_zero_def f64_classes f64_mag_def)
  with key_roundtrip [OF key_examples(1) key_examples(2), where ?'a = unit] show ?thesis
    by (simp add: u64_max_def canonical_bits_def f64_eq_def f64_consts f64_classes f64_mag_def)
qed

end
