(* ===== verification/RunMemory.thy ===== *)
theory RunMemory
  imports ExecValue
begin

text \<open>
  The context of one run (\<^verbatim>\<open>executor/src/runtime/context.rs\<close>): its scope, its limits, its cancellation
  and the bytes its operators have reserved. The cells of \<^verbatim>\<open>Control\<close>, which every clone of a
  \<^verbatim>\<open>RunContext\<close> shares, are one record that every operation takes and returns; its limits never
  change and stand apart. A \<^verbatim>\<open>Waker\<close> is a number, and wakers with one number \<^verbatim>\<open>will_wake\<close> each other.
\<close>

section \<open>The context\<close>

datatype scope =
    Ingestion int int \<comment> \<open>\<^verbatim>\<open>window_start_ms\<close>, \<^verbatim>\<open>window_end_ms\<close>\<close>
  | Query int \<comment> \<open>\<^verbatim>\<open>evaluation_time_ms\<close>\<close>

record limits =
  max_buffered_batches :: nat
  max_bytes :: nat

definition default_limits :: limits where
  "default_limits = \<lparr>max_buffered_batches = 8, max_bytes = 64 * 1024 * 1024\<rparr>"

record control =
  is_cancelled :: bool
  retained_bytes :: nat
  peak_bytes :: nat
  wakers :: "nat list"

record run_context =
  run_scope :: scope
  query_range :: "(int \<times> int) option"
  run_limits :: limits

text \<open>\<^verbatim>\<open>RunContext::new\<close>, \<^verbatim>\<open>with_query_range\<close>, \<^verbatim>\<open>evaluation_time_ms\<close>.\<close>

definition context_new :: "scope \<Rightarrow> limits \<Rightarrow> (run_context \<times> control) exec_result" where
  "context_new sc lim =
     (if max_buffered_batches lim = 0 \<or> max_bytes lim = 0
      then Err (Invalid ''execution limits must be positive'')
      else if (case sc of Ingestion window_start window_end \<Rightarrow> window_end < window_start | Query _ \<Rightarrow> False)
      then Err (Invalid ''inverted ingestion window'')
      else Ok (\<lparr>run_scope = sc, query_range = None, run_limits = lim\<rparr>,
               \<lparr>is_cancelled = False, retained_bytes = 0, peak_bytes = 0, wakers = []\<rparr>))"

definition with_query_range :: "int \<Rightarrow> int \<Rightarrow> run_context \<Rightarrow> run_context exec_result" where
  "with_query_range start_ms end_ms r =
     (if end_ms < start_ms \<or> (case run_scope r of Query _ \<Rightarrow> False | _ \<Rightarrow> True)
      then Err (Invalid ''query range requires ordered bounds and query scope'')
      else Ok (r\<lparr>query_range := Some (start_ms, end_ms)\<rparr>))"

definition evaluation_time_ms :: "run_context \<Rightarrow> int option" where
  "evaluation_time_ms r = (case run_scope r of Query at \<Rightarrow> Some at | Ingestion _ _ \<Rightarrow> None)"

text \<open>\<^verbatim>\<open>cancel\<close> (with the wakers it wakes) and \<^verbatim>\<open>register\<close>.\<close>

definition cancel :: "control \<Rightarrow> nat set \<times> control" where
  "cancel c = (set (wakers c), c\<lparr>is_cancelled := True, wakers := []\<rparr>)"

definition register :: "nat \<Rightarrow> control \<Rightarrow> control" where
  "register waker c = (if waker \<in> set (wakers c) then c else c\<lparr>wakers := wakers c @ [waker]\<rparr>)"

section \<open>Reservations\<close>

definition checked_sub_u64 :: "nat \<Rightarrow> nat \<Rightarrow> nat option" where
  "checked_sub_u64 a b = (if b \<le> a then Some (a - b) else None)"

text \<open>\<^verbatim>\<open>RunContext::reserve\<close>: a reservation is the bytes it holds.\<close>

definition reserve :: "limits \<Rightarrow> nat \<Rightarrow> control \<Rightarrow> control exec_result" where
  "reserve lim bytes c =
     bind_result (ok_or MemoryLimit (checked_add_u64 (retained_bytes c) bytes)) (\<lambda>total.
       if max_bytes lim < total then Err MemoryLimit
       else Ok (c\<lparr>retained_bytes := total, peak_bytes := max (peak_bytes c) total\<rparr>))"

text \<open>\<^verbatim>\<open>Reservation::resize\<close> of a reservation of \<open>old\<close> bytes, and its drop.\<close>

definition resize :: "limits \<Rightarrow> nat \<Rightarrow> nat \<Rightarrow> control \<Rightarrow> control exec_result" where
  "resize lim old bytes c =
     bind_result
       (ok_or MemoryLimit
         (Option.bind (checked_sub_u64 (retained_bytes c) old) (\<lambda>total. checked_add_u64 total bytes)))
       (\<lambda>total.
          if max_bytes lim < total then Err MemoryLimit
          else Ok (c\<lparr>retained_bytes := total, peak_bytes := max (peak_bytes c) total\<rparr>))"

definition drop_reservation :: "nat \<Rightarrow> control \<Rightarrow> control" where
  "drop_reservation bytes c = c\<lparr>retained_bytes := retained_bytes c - bytes\<rparr>"

section \<open>The reservations of a run\<close>

text \<open>
  What the operators of a run do with its memory: a reservation is owned by its holder, who resizes or
  drops the bytes it holds, once. The ledger lists the reservations made, \<open>None\<close> once dropped.
\<close>

datatype memory_action = Reserve nat | Resize nat nat | Release nat

type_synonym ledger = "nat option list \<times> control"

fun memory_step :: "limits \<Rightarrow> memory_action \<Rightarrow> ledger \<Rightarrow> ledger" where
  "memory_step lim (Reserve bytes) (held, c) =
     (case reserve lim bytes c of Inl _ \<Rightarrow> (held, c) | Inr c' \<Rightarrow> (held @ [Some bytes], c'))"
| "memory_step lim (Resize i bytes) (held, c) =
     (case Option.bind (get held i) (\<lambda>old. old) of
        None \<Rightarrow> (held, c)
      | Some old \<Rightarrow>
          (case resize lim old bytes c of Inl _ \<Rightarrow> (held, c) | Inr c' \<Rightarrow> (held[i := Some bytes], c')))"
| "memory_step lim (Release i) (held, c) =
     (case Option.bind (get held i) (\<lambda>old. old) of
        None \<Rightarrow> (held, c)
      | Some old \<Rightarrow> (held[i := None], drop_reservation old c))"

definition memory_run :: "limits \<Rightarrow> memory_action list \<Rightarrow> ledger \<Rightarrow> ledger" where
  "memory_run lim actions l = fold (memory_step lim) actions l"

definition held_bytes :: "nat option list \<Rightarrow> nat" where
  "held_bytes held = (\<Sum>h\<leftarrow>held. case h of None \<Rightarrow> 0 | Some bytes \<Rightarrow> bytes)"

definition accounted :: "limits \<Rightarrow> ledger \<Rightarrow> bool" where
  "accounted lim l \<longleftrightarrow>
     retained_bytes (snd l) = held_bytes (fst l)
     \<and> retained_bytes (snd l) \<le> peak_bytes (snd l) \<and> peak_bytes (snd l) \<le> max_bytes lim"

lemma held_bytes_update:
  assumes "i < length held" and "held ! i = Some old"
  shows "held_bytes (held[i := new]) + old
    = held_bytes held + (case new of None \<Rightarrow> 0 | Some bytes \<Rightarrow> bytes)"
    and "old \<le> held_bytes held"
proof -
  have split: "held = take i held @ Some old # drop (Suc i) held"
    using assms by (metis id_take_nth_drop)
  have updated: "held[i := new] = take i held @ new # drop (Suc i) held"
    using assms by (simp add: upd_conv_take_nth_drop)
  have "held_bytes held = held_bytes (take i held) + old + held_bytes (drop (Suc i) held)"
    by (subst split) (simp add: held_bytes_def)
  moreover have "held_bytes (held[i := new])
      = held_bytes (take i held) + (case new of None \<Rightarrow> 0 | Some bytes \<Rightarrow> bytes)
        + held_bytes (drop (Suc i) held)"
    by (simp add: updated held_bytes_def)
  ultimately show "held_bytes (held[i := new]) + old
      = held_bytes held + (case new of None \<Rightarrow> 0 | Some bytes \<Rightarrow> bytes)"
    and "old \<le> held_bytes held"
    by simp_all
qed

lemma live_reservation:
  "Option.bind (get held i) (\<lambda>old. old) = Some old \<longleftrightarrow> i < length held \<and> held ! i = Some old"
  by (auto simp: get_def split: if_splits)

text \<open>With limits of the machine's width, a request is refused exactly when it passes the limit.\<close>

lemma reserve_Ok:
  assumes "max_bytes lim \<le> u64_max"
  shows "reserve lim bytes c =
    (if max_bytes lim < retained_bytes c + bytes then Err MemoryLimit
     else Ok (c\<lparr>retained_bytes := retained_bytes c + bytes,
                peak_bytes := max (peak_bytes c) (retained_bytes c + bytes)\<rparr>))"
  using assms by (auto simp: reserve_def checked_add_u64_def)

lemma resize_Ok:
  assumes "max_bytes lim \<le> u64_max" and "old \<le> retained_bytes c"
  shows "resize lim old bytes c =
    (if max_bytes lim < retained_bytes c - old + bytes then Err MemoryLimit
     else Ok (c\<lparr>retained_bytes := retained_bytes c - old + bytes,
                peak_bytes := max (peak_bytes c) (retained_bytes c - old + bytes)\<rparr>))"
  using assms by (auto simp: resize_def checked_add_u64_def checked_sub_u64_def)

text \<open>Every operation keeps the account, and moves the peak to the new total.\<close>

lemma memory_step_accounted:
  assumes inv: "accounted lim (held, c)" and lim: "max_bytes lim \<le> u64_max"
    and step: "memory_step lim action (held, c) = (held', c')"
  shows "accounted lim (held', c') \<and> peak_bytes c' = max (peak_bytes c) (retained_bytes c')
    \<and> is_cancelled c' = is_cancelled c \<and> wakers c' = wakers c"
proof (cases action)
  case (Reserve bytes)
  then show ?thesis
    using inv step by (auto simp: reserve_Ok [OF lim] accounted_def held_bytes_def split: if_splits)
next
  case (Resize i bytes)
  show ?thesis
  proof (cases "Option.bind (get held i) (\<lambda>old. old)")
    case (Some old)
    then have live: "i < length held" "held ! i = Some old"
      by (simp_all only: live_reservation)
    with inv held_bytes_update(2) [OF live] have "old \<le> retained_bytes c"
      by (simp add: accounted_def)
    then show ?thesis
      using inv step Resize Some held_bytes_update(1) [OF live, of "Some bytes"]
      by (auto simp: resize_Ok [OF lim] accounted_def split: if_splits)
  qed (use Resize inv step in \<open>auto simp: accounted_def\<close>)
next
  case (Release i)
  show ?thesis
  proof (cases "Option.bind (get held i) (\<lambda>old. old)")
    case (Some old)
    then have live: "i < length held" "held ! i = Some old"
      by (simp_all only: live_reservation)
    then show ?thesis
      using inv step Release Some held_bytes_update(1) [OF live, of None]
      by (auto simp: drop_reservation_def accounted_def)
  qed (use Release inv step in \<open>auto simp: accounted_def\<close>)
qed

lemma memory_run_snoc:
  "memory_run lim (actions @ [action]) l = memory_step lim action (memory_run lim actions l)"
  by (simp add: memory_run_def)

lemma context_new_Ok:
  "context_new sc lim = Ok (r, c) \<Longrightarrow>
     run_limits r = lim \<and> 0 < max_bytes lim \<and> 0 < max_buffered_batches lim
     \<and> c = \<lparr>is_cancelled = False, retained_bytes = 0, peak_bytes = 0, wakers = []\<rparr>"
  by (auto simp: context_new_def split: if_splits)

lemma memory_run_accounted:
  assumes "context_new sc lim = Ok (r, c)" and "max_bytes lim \<le> u64_max"
  shows "accounted lim (memory_run lim actions ([], c))
    \<and> peak_bytes (snd (memory_run lim actions ([], c)))
      = Max ((\<lambda>k. retained_bytes (snd (memory_run lim (take k actions) ([], c)))) ` {..length actions})"
proof (induction actions rule: rev_induct)
  case Nil
  then show ?case
    using context_new_Ok [OF assms(1)] by (simp add: accounted_def memory_run_def held_bytes_def)
next
  case (snoc action actions)
  let ?after = "\<lambda>actions k. retained_bytes (snd (memory_run lim (take k actions) ([], c)))"
  obtain held d where before: "memory_run lim actions ([], c) = (held, d)" by fastforce
  obtain held' d' where step: "memory_step lim action (held, d) = (held', d')" by fastforce
  have "?after (actions @ [action]) ` {..length actions} = ?after actions ` {..length actions}"
    by (rule image_cong) simp_all
  then have "?after (actions @ [action]) ` {..length (actions @ [action])}
      = insert (retained_bytes d') (?after actions ` {..length actions})"
    by (simp add: atMost_Suc memory_run_snoc before step)
  then show ?case
    using snoc memory_step_accounted [OF _ assms(2) step]
    by (simp add: memory_run_snoc before step max.commute)
qed

text \<open>
  C33: whatever the operators of a run reserve, resize and drop, in any order, the bytes the run
  reports as retained are exactly those of the live reservations, never above its limit; the
  subtractions of a resize and of a drop never go below zero; the peak is the greatest total the run
  ever retained; and a request succeeds exactly when the new total is within the limit.
\<close>

theorem reservations_are_accounted:
  assumes "context_new sc lim = Ok (r, c)" and "max_bytes lim \<le> u64_max"
    and "memory_run lim actions ([], c) = (held, d)"
  shows "retained_bytes d = held_bytes held \<and> retained_bytes d \<le> max_bytes lim
    \<and> (\<forall>i < length held. \<forall>old. held ! i = Some old \<longrightarrow>
        old \<le> retained_bytes d
        \<and> is_ok (resize lim old bytes d) = (held_bytes (held[i := Some bytes]) \<le> max_bytes lim)
        \<and> retained_bytes (drop_reservation old d) = held_bytes (held[i := None]))
    \<and> is_ok (reserve lim bytes d) = (held_bytes (held @ [Some bytes]) \<le> max_bytes lim)
    \<and> peak_bytes d =
        Max ((\<lambda>k. retained_bytes (snd (memory_run lim (take k actions) ([], c)))) ` {..length actions})"
proof -
  have inv: "accounted lim (held, d)"
    and peak: "peak_bytes d =
      Max ((\<lambda>k. retained_bytes (snd (memory_run lim (take k actions) ([], c)))) ` {..length actions})"
    using memory_run_accounted [OF assms(1,2), of actions] by (simp_all add: assms(3))
  have retained: "retained_bytes d = held_bytes held" and limit: "retained_bytes d \<le> max_bytes lim"
    using inv by (simp_all add: accounted_def)
  have live: "old \<le> retained_bytes d
      \<and> is_ok (resize lim old bytes d) = (held_bytes (held[i := Some bytes]) \<le> max_bytes lim)
      \<and> retained_bytes (drop_reservation old d) = held_bytes (held[i := None])"
    if live: "i < length held" "held ! i = Some old" for i old
  proof -
    from held_bytes_update(2) [OF live] have small: "old \<le> retained_bytes d"
      by (simp add: retained)
    with held_bytes_update(1) [OF live, of "Some bytes"] held_bytes_update(1) [OF live, of None]
    show ?thesis
      by (auto simp: resize_Ok [OF assms(2) small] retained drop_reservation_def)
  qed
  have "is_ok (reserve lim bytes d) = (held_bytes (held @ [Some bytes]) \<le> max_bytes lim)"
    by (simp add: reserve_Ok [OF assms(2)] retained held_bytes_def not_less [symmetric])
  with retained limit live peak show ?thesis by blast
qed

definition small_limits :: limits where
  "small_limits = \<lparr>max_buffered_batches = 2, max_bytes = 100\<rparr>"

theorem reservations_are_accounted_witness:
  "retained_bytes (snd (memory_run small_limits [Reserve 60, Reserve 50, Reserve 30, Resize 0 20, Release 1]
     ([], snd (Sum_Type.projr (context_new (Query 0) small_limits))))) = 20"
  using reservations_are_accounted [of "Query 0" small_limits _ _
      "[Reserve 60, Reserve 50, Reserve 30, Resize 0 20, Release 1]"
      "fst (memory_run small_limits [Reserve 60, Reserve 50, Reserve 30, Resize 0 20, Release 1]
         ([], snd (Sum_Type.projr (context_new (Query 0) small_limits))))"]
  by (simp add: context_new_def small_limits_def memory_run_def reserve_def resize_def
      drop_reservation_def checked_add_u64_def checked_sub_u64_def u64_max_def held_bytes_def get_def)

end
