(* ===== verification/Producer.thy ===== *)
theory Producer
  imports RunMemory "HOL-Library.AList"
begin

text \<open>
  A producer shared by its readers (\<^verbatim>\<open>executor/src/runtime/mod.rs\<close>): the stream of one node of the
  DAG, run once, whose batches wait in a queue until the slowest reader has taken them. The
  \<^verbatim>\<open>BTreeMap\<close>s by reader are association lists with distinct keys. Whatever else runs between two steps is
  the control of the run they are given; polling the node's stream is a function of that control.
\<close>

section \<open>State\<close>

text \<open>\<^verbatim>\<open>SharedValue\<close>: the batch and the bytes its reservation holds.\<close>

record 'v shared_value =
  shared :: 'v
  reserved :: nat

text \<open>\<open>streaming\<close> is whether the producer still owns its stream (\<^verbatim>\<open>stream.is_some()\<close>).\<close>

record 'v producer =
  producer_node :: nat
  operation :: string
  streaming :: bool
  queue :: "'v shared_value list"
  base :: nat
  next_reader :: nat
  batches_polled :: nat
  readers :: "(nat \<times> nat) list"
  waiters :: "(nat \<times> nat) list"
  finished :: bool
  failure :: "exec_error option"

definition new_producer :: "nat \<Rightarrow> string \<Rightarrow> 'v producer" where
  "new_producer node kind =
     \<lparr>producer_node = node, operation = kind, streaming = True, queue = [], base = 0, next_reader = 0,
      batches_polled = 0, readers = [], waiters = [], finished = False, failure = None\<rparr>"

text \<open>\<^verbatim>\<open>Input\<close>: a reader of the producer.\<close>

record input =
  reader :: nat
  input_done :: bool

datatype 'a poll = Pending | Ready 'a

type_synonym 'v polled = "'v exec_result option poll"

section \<open>Operations\<close>

text \<open>\<^verbatim>\<open>Producer::trim\<close>, with the wakers it wakes.\<close>

definition pop_front :: "'v shared_value list \<times> nat \<Rightarrow> 'v shared_value list \<times> nat" where
  "pop_front = (\<lambda>(q, b). (tl q, b + 1))"

definition slowest :: "'v producer \<Rightarrow> nat" where
  "slowest p =
     (case map snd (readers p) of
        [] \<Rightarrow> base p + length (queue p)
      | pos # rest \<Rightarrow> fold min rest pos)"

definition trim :: "'v producer \<Rightarrow> nat set \<times> 'v producer" where
  "trim p =
     (let minimum = slowest p;
          (q, b) = (pop_front ^^ (minimum - base p)) (queue p, base p);
          p' = p\<lparr>queue := q, base := b, waiters := []\<rparr> in
      (set (map snd (waiters p)),
       if readers p = [] then p'\<lparr>streaming := False, queue := []\<rparr> else p'))"

text \<open>\<^verbatim>\<open>Input::subscribe\<close> and the drop of an input.\<close>

definition subscribe :: "'v producer \<Rightarrow> input \<times> 'v producer" where
  "subscribe p =
     (\<lparr>reader = next_reader p, input_done = False\<rparr>,
      p\<lparr>next_reader := next_reader p + 1, readers := AList.update (next_reader p) (base p) (readers p)\<rparr>)"

definition drop_input :: "input \<Rightarrow> 'v producer \<Rightarrow> nat set \<times> 'v producer" where
  "drop_input i p =
     trim (p\<lparr>readers := AList.delete (reader i) (readers p), waiters := AList.delete (reader i) (waiters p)\<rparr>)"

text \<open>
  The end of a producer as one of its readers sees it: the error is kept for the other readers, the
  stream is dropped and this reader is removed.
\<close>

definition finish :: "input \<Rightarrow> exec_error option \<Rightarrow> 'v producer \<Rightarrow> nat set \<times> 'v producer" where
  "finish i e p =
     trim (p\<lparr>failure := e, finished := True, streaming := False, readers := AList.delete (reader i) (readers p)\<rparr>)"

text \<open>A failure is reported at its node, once.\<close>

definition at_node :: "'v producer \<Rightarrow> exec_error \<Rightarrow> exec_error" where
  "at_node p source =
     (case source of
        AtNode _ _ _ \<Rightarrow> source
      | Cancelled \<Rightarrow> source
      | MemoryLimit \<Rightarrow> source
      | _ \<Rightarrow> AtNode (producer_node p) (operation p) source)"

record 'v poll_outcome =
  outcome :: "'v shared_value polled"
  outcome_input :: input
  outcome_control :: control
  outcome_producer :: "'v producer"
  woken :: "nat set"

text \<open>
  \<^verbatim>\<open>Input::poll_next\<close>. \<open>bytes\<close> is the operator's \<^verbatim>\<open>output_bytes\<close>, \<open>poll_stream\<close> what the node's stream
  answers and leaves of the run's control. \<open>None\<close> is a panic: a reader without a position, a
  position behind the base (the subtraction wraps), or the \<^verbatim>\<open>expect\<close> on a producer without a stream.
\<close>

definition stop_if_cancelled :: "control \<Rightarrow> 'v producer \<Rightarrow> 'v producer" where
  "stop_if_cancelled c p =
     (if is_cancelled c
      then p\<lparr>failure := Some Cancelled, finished := True, streaming := False, queue := []\<rparr>
      else p)"

definition advance :: "input \<Rightarrow> nat \<Rightarrow> 'v producer \<Rightarrow> 'v producer" where
  "advance i pos p = p\<lparr>readers := AList.update (reader i) (pos + 1) (readers p)\<rparr>"

definition poll_new_batch ::
  "limits \<Rightarrow> ('v \<Rightarrow> nat) \<Rightarrow> (control \<Rightarrow> 'v polled \<times> control) \<Rightarrow> input \<Rightarrow> nat \<Rightarrow> control \<Rightarrow> 'v producer
   \<Rightarrow> 'v poll_outcome option" where
  "poll_new_batch lim bytes poll_stream i pos c p =
     (if \<not> streaming p then None
      else case poll_stream c of
        (Pending, c) \<Rightarrow> Some \<lparr>outcome = Pending, outcome_input = i, outcome_control = c, outcome_producer = p, woken = {}\<rparr>
      | (Ready (Some (Inr v)), c) \<Rightarrow>
          (let p = p\<lparr>batches_polled := batches_polled p + 1\<rparr> in
           case reserve lim (bytes v) c of
             Inr c \<Rightarrow>
               (let batch = \<lparr>shared = v, reserved = bytes v\<rparr>;
                    (woke, p) = trim (advance i pos (p\<lparr>queue := queue p @ [batch]\<rparr>)) in
                Some \<lparr>outcome = Ready (Some (Inr batch)), outcome_input = i, outcome_control = c,
                      outcome_producer = p, woken = woke\<rparr>)
           | Inl e \<Rightarrow>
               (let (woke, p) = finish i (Some e) p in
                Some \<lparr>outcome = Ready (Some (Inl e)), outcome_input = i\<lparr>input_done := True\<rparr>, outcome_control = c,
                      outcome_producer = p, woken = woke\<rparr>))
      | (Ready ended, c) \<Rightarrow>
          (let e = (case ended of Some (Inl source) \<Rightarrow> Some (at_node p source) | _ \<Rightarrow> None);
               (woke, p) = finish i e p in
           Some \<lparr>outcome = Ready (map_option Inl e), outcome_input = i\<lparr>input_done := True\<rparr>, outcome_control = c,
                 outcome_producer = p, woken = woke\<rparr>))"

definition poll_next ::
  "limits \<Rightarrow> ('v \<Rightarrow> nat) \<Rightarrow> nat \<Rightarrow> (control \<Rightarrow> 'v polled \<times> control) \<Rightarrow> input \<Rightarrow> control \<Rightarrow> 'v producer
   \<Rightarrow> 'v poll_outcome option" where
  "poll_next lim bytes waker poll_stream i c p =
     (if input_done i
      then Some \<lparr>outcome = Ready None, outcome_input = i, outcome_control = c, outcome_producer = p, woken = {}\<rparr>
      else
        let c = register waker c; p = stop_if_cancelled c p in
        case map_of (readers p) (reader i) of
          None \<Rightarrow> None
        | Some pos \<Rightarrow>
            if pos < base p then None
            else case get (queue p) (pos - base p) of
              Some batch \<Rightarrow>
                (let (woke, p) = trim (advance i pos p) in
                 Some \<lparr>outcome = Ready (Some (Inr batch)), outcome_input = i, outcome_control = c,
                       outcome_producer = p, woken = woke\<rparr>)
            | None \<Rightarrow>
                if finished p then
                  (let e = failure p;
                       (woke, p) = trim (p\<lparr>readers := AList.delete (reader i) (readers p)\<rparr>) in
                   Some \<lparr>outcome = Ready (map_option Inl e), outcome_input = i\<lparr>input_done := True\<rparr>,
                         outcome_control = c, outcome_producer = p, woken = woke\<rparr>)
                else
                  let p = p\<lparr>waiters := AList.update (reader i) waker (waiters p)\<rparr> in
                  if max_buffered_batches lim \<le> length (queue p)
                  then Some \<lparr>outcome = Pending, outcome_input = i, outcome_control = c, outcome_producer = p, woken = {}\<rparr>
                  else if 32 \<le> batches_polled p
                  then Some \<lparr>outcome = Pending, outcome_input = i, outcome_control = c,
                             outcome_producer = p\<lparr>batches_polled := 0\<rparr>, woken = {waker}\<rparr>
                  else poll_new_batch lim bytes poll_stream i pos c p)"

section \<open>A run of one producer\<close>

text \<open>
  The inputs on a producer after \<^verbatim>\<open>execute\<close> has built the DAG, and what a run then does with them in any
  order: poll an input, drop one, cancel, and whatever else happens to the control. \<open>delivered\<close> lists
  the batches each reader was given, \<open>produced\<close> those its stream was asked for and the run had memory for.
\<close>

record 'v hub =
  hub_control :: control
  hub_producer :: "'v producer"
  hub_inputs :: "nat \<rightharpoonup> input"
  produced :: "'v shared_value list"
  delivered :: "nat \<Rightarrow> 'v shared_value list"

definition hub_subscribe :: "'v hub \<Rightarrow> 'v hub" where
  "hub_subscribe h =
     (let (i, p) = subscribe (hub_producer h) in
      h\<lparr>hub_producer := p, hub_inputs := (hub_inputs h)(reader i \<mapsto> i)\<rparr>)"

definition hub_start :: "nat \<Rightarrow> string \<Rightarrow> nat \<Rightarrow> control \<Rightarrow> 'v hub" where
  "hub_start node kind count c =
     (hub_subscribe ^^ count)
       \<lparr>hub_control = c, hub_producer = new_producer node kind, hub_inputs = Map.empty, produced = [],
        delivered = (\<lambda>_. [])\<rparr>"

text \<open>The batch a poll appended: the producer had none beyond the reader's position before it.\<close>

definition fresh :: "'v producer \<Rightarrow> nat \<Rightarrow> bool" where
  "fresh p r \<longleftrightarrow> map_of (readers p) r = Some (base p + length (queue p))"

definition hub_poll ::
  "limits \<Rightarrow> ('v \<Rightarrow> nat) \<Rightarrow> nat \<Rightarrow> nat \<Rightarrow> (control \<Rightarrow> 'v polled \<times> control) \<Rightarrow> 'v hub
   \<Rightarrow> 'v poll_outcome option" where
  "hub_poll lim bytes r waker poll_stream h =
     Option.bind (hub_inputs h r) (\<lambda>i.
       poll_next lim bytes waker poll_stream i (hub_control h) (hub_producer h))"

definition after_poll :: "nat \<Rightarrow> 'v poll_outcome \<Rightarrow> 'v hub \<Rightarrow> 'v hub" where
  "after_poll r out h =
     h\<lparr>hub_control := outcome_control out, hub_producer := outcome_producer out,
       hub_inputs := (hub_inputs h)(r \<mapsto> outcome_input out),
       produced := (case outcome out of
           Ready (Some (Inr batch)) \<Rightarrow> if fresh (hub_producer h) r then produced h @ [batch] else produced h
         | _ \<Rightarrow> produced h),
       delivered := (case outcome out of
           Ready (Some (Inr batch)) \<Rightarrow> (delivered h)(r := delivered h r @ [batch])
         | _ \<Rightarrow> delivered h)\<rparr>"

inductive hub_step :: "limits \<Rightarrow> ('v \<Rightarrow> nat) \<Rightarrow> 'v hub \<Rightarrow> 'v hub \<Rightarrow> bool"
  for lim :: limits and bytes :: "'v \<Rightarrow> nat" where
  poll: "hub_poll lim bytes r waker poll_stream h = Some out \<Longrightarrow> hub_step lim bytes h (after_poll r out h)"
| drop: "hub_inputs h r = Some i \<Longrightarrow>
    hub_step lim bytes h
      (h\<lparr>hub_producer := snd (drop_input i (hub_producer h)), hub_inputs := (hub_inputs h)(r := None)\<rparr>)"
| cancelled: "hub_step lim bytes h (h\<lparr>hub_control := snd (cancel (hub_control h))\<rparr>)"
| elsewhere: "hub_step lim bytes h (h\<lparr>hub_control := c\<rparr>)"

inductive hub_reachable :: "limits \<Rightarrow> ('v \<Rightarrow> nat) \<Rightarrow> nat \<Rightarrow> 'v hub \<Rightarrow> bool"
  for lim :: limits and bytes :: "'v \<Rightarrow> nat" and n :: nat where
  start: "hub_reachable lim bytes n (hub_start node kind n c)"
| step: "hub_reachable lim bytes n h \<Longrightarrow> hub_step lim bytes h h' \<Longrightarrow> hub_reachable lim bytes n h'"

end
