(* ===== verification/ProducerLaws.thy ===== *)
theory ProducerLaws
  imports Producer "HOL-Library.Sublist"
begin

text \<open>
  What a shared producer keeps: every reader's batches are a prefix of what was produced, the queue holds
  what some reader still needs and never passes its limit, and a reader that waits has nothing to read.
\<close>

section \<open>Trimming\<close>

lemma pop_front_iterate: "(pop_front ^^ k) (q, b) = (drop k q, b + k)"
  by (induction k) (simp_all add: pop_front_def drop_Suc tl_drop)

lemma slowest_Min:
  assumes "readers p \<noteq> []"
  shows "slowest p = Min (snd ` set (readers p))"
proof -
  obtain x xs where "readers p = x # xs"
    using assms by (cases "readers p") auto
  then show ?thesis
    by (simp add: slowest_def Min.set_eq_fold [symmetric])
qed

lemma slowest_in:
  assumes "readers p \<noteq> []"
  shows "slowest p \<in> snd ` set (readers p)"
  using assms by (simp add: slowest_Min)

lemma slowest_le:
  assumes "(r, pos) \<in> set (readers p)"
  shows "slowest p \<le> pos"
proof -
  have "readers p \<noteq> []"
    using assms by auto
  moreover have "pos \<in> snd ` set (readers p)"
    using assms by force
  ultimately show ?thesis
    by (simp add: slowest_Min)
qed

lemma slowest_fields [simp]:
  "slowest (p\<lparr>waiters := ws\<rparr>) = slowest p" "slowest (p\<lparr>batches_polled := k\<rparr>) = slowest p"
  by (cases "readers p", simp_all add: slowest_def)+

lemma trim_simps [simp]:
  "fst (trim p) = set (map snd (waiters p))"
  "readers (snd (trim p)) = readers p"
  "waiters (snd (trim p)) = []"
  "finished (snd (trim p)) = finished p"
  "failure (snd (trim p)) = failure p"
  "base (snd (trim p)) = max (base p) (slowest p)"
  "queue (snd (trim p)) = (if readers p = [] then [] else drop (slowest p - base p) (queue p))"
  "streaming (snd (trim p)) = (streaming p \<and> readers p \<noteq> [])"
  by (auto simp: trim_def Let_def pop_front_iterate)

section \<open>The invariant of a producer\<close>

text \<open>
  \<open>xs\<close> lists what the producer has produced. A cancelled producer has dropped its queue; any other one holds
  what lies behind its base. \<open>holding\<close> is what every change of the readers keeps, and trimming restores
  the rest: the base is the slowest reader's position, and a reader waits only at the end.
\<close>

definition holding :: "limits \<Rightarrow> 'v producer \<Rightarrow> 'v shared_value list \<Rightarrow> bool" where
  "holding lim p xs \<longleftrightarrow>
     distinct (map fst (readers p))
     \<and> (\<forall>(r, pos) \<in> set (readers p). base p \<le> pos \<and> pos \<le> length xs)
     \<and> base p \<le> length xs
     \<and> (finished p \<and> failure p = Some Cancelled \<and> queue p = [] \<or> queue p = drop (base p) xs)
     \<and> (finished p \<longrightarrow> \<not> streaming p) \<and> (\<not> finished p \<and> readers p \<noteq> [] \<longrightarrow> streaming p)"

definition producer_ok :: "limits \<Rightarrow> 'v producer \<Rightarrow> 'v shared_value list \<Rightarrow> bool" where
  "producer_ok lim p xs \<longleftrightarrow>
     holding lim p xs \<and> length (queue p) \<le> max_buffered_batches lim
     \<and> (readers p \<noteq> [] \<longrightarrow> slowest p = base p)
     \<and> distinct (map fst (waiters p))
     \<and> (\<forall>(r, w) \<in> set (waiters p). \<not> finished p \<and> (r, length xs) \<in> set (readers p))"

lemma producer_okD:
  assumes "producer_ok lim p xs"
  shows "holding lim p xs" "length (queue p) \<le> max_buffered_batches lim"
    "readers p \<noteq> [] \<longrightarrow> slowest p = base p" "distinct (map fst (waiters p))"
    "(r, w) \<in> set (waiters p) \<Longrightarrow> \<not> finished p \<and> (r, length xs) \<in> set (readers p)"
  using assms by (auto simp: producer_ok_def)

lemma holdingD:
  assumes "holding lim p xs"
  shows "distinct (map fst (readers p))"
    "map_of (readers p) r = Some pos \<Longrightarrow> base p \<le> pos \<and> pos \<le> length xs"
    "base p \<le> length xs"
    "queue p \<noteq> [] \<or> \<not> finished p \<or> failure p \<noteq> Some Cancelled \<Longrightarrow> queue p = drop (base p) xs"
    "queue p = [] \<or> queue p = drop (base p) xs"
    "finished p \<Longrightarrow> \<not> streaming p" "\<not> finished p \<Longrightarrow> readers p \<noteq> [] \<Longrightarrow> streaming p"
  using assms map_of_SomeD [of "readers p" r pos] by (auto simp: holding_def)

lemma trim_ok:
  assumes ok: "holding lim p xs" and len: "length (queue p) \<le> max_buffered_batches lim"
  shows "producer_ok lim (snd (trim p)) xs"
proof (cases "readers p = []")
  case True
  then have s: "slowest p = base p + length (queue p)"
    by (simp add: slowest_def)
  show ?thesis
    using ok len True by (auto simp: producer_ok_def holding_def s)
next
  case False
  from slowest_in [OF this] obtain r where r: "(r, slowest p) \<in> set (readers p)"
    by auto
  then have slow: "base p \<le> slowest p" "slowest p \<le> length xs"
    using ok by (auto simp: holding_def)
  have "slowest (snd (trim p)) = slowest p"
    using False by (simp add: slowest_Min)
  then show ?thesis
    using ok len False slow slowest_le [of _ _ p] by (auto simp: producer_ok_def holding_def max_def)
qed

section \<open>Changes of the readers\<close>

lemma set_update_distinct:
  "distinct (map fst al) \<Longrightarrow> set (AList.update k v al) = insert (k, v) {x \<in> set al. fst x \<noteq> k}"
  by (induction al) (auto simp: image_iff)

lemma set_delete: "set (AList.delete k al) = {x \<in> set al. fst x \<noteq> k}"
  by (auto simp: AList.delete_eq)

lemma holding_advance:
  assumes "holding lim p xs" and "base p \<le> pos" and "pos < length xs" and "map_of (readers p) (reader i) \<noteq> None"
  shows "holding lim (advance i pos p) xs"
proof -
  have d: "distinct (map fst (readers p))"
    using assms by (simp add: holding_def)
  moreover have "AList.update (reader i) (pos + 1) (readers p) \<noteq> []"
    using set_update_distinct [OF d, of "reader i" "pos + 1"] by force
  ultimately show ?thesis
    using assms by (auto simp: holding_def advance_def set_update_distinct distinct_update)
qed

lemma holding_remove:
  assumes "holding lim p xs"
  shows "holding lim (p\<lparr>readers := AList.delete r (readers p)\<rparr>) xs"
proof -
  have "AList.delete r (readers p) \<noteq> [] \<Longrightarrow> readers p \<noteq> []"
    by auto
  then show ?thesis
    using assms by (auto simp: holding_def set_delete distinct_delete)
qed

lemma holding_grow:
  assumes "holding lim p xs" and "\<not> finished p"
  shows "holding lim (p\<lparr>queue := queue p @ [x]\<rparr>) (xs @ [x])"
  using assms by (auto simp: holding_def)

lemma holding_fields:
  "holding lim (p\<lparr>waiters := ws\<rparr>) xs = holding lim p xs"
  "holding lim (p\<lparr>batches_polled := k\<rparr>) xs = holding lim p xs"
  by (simp_all add: holding_def)

lemma producer_ok_stop:
  assumes "holding lim p xs"
  shows "holding lim (stop_if_cancelled c p) xs"
  using assms by (auto simp: holding_def stop_if_cancelled_def)

lemma stop_simps [simp]:
  "readers (stop_if_cancelled c p) = readers p" "base (stop_if_cancelled c p) = base p"
  "waiters (stop_if_cancelled c p) = waiters p" "batches_polled (stop_if_cancelled c p) = batches_polled p"
  "finished (stop_if_cancelled c p) = (finished p \<or> is_cancelled c)"
  by (simp_all add: stop_if_cancelled_def)

lemma length_stop: "length (queue (stop_if_cancelled c p)) \<le> length (queue p)"
  by (simp add: stop_if_cancelled_def)

section \<open>One poll\<close>

definition poll_ok ::
  "limits \<Rightarrow> nat \<Rightarrow> input \<Rightarrow> nat \<Rightarrow> 'v producer \<Rightarrow> 'v shared_value list \<Rightarrow> 'v poll_outcome \<Rightarrow> bool" where
  "poll_ok lim w i pos p xs out \<longleftrightarrow>
     (case outcome out of
        Ready (Some (Inr batch)) \<Rightarrow>
          (let ys = (if fresh p (reader i) then xs @ [batch] else xs) in
           producer_ok lim (outcome_producer out) ys \<and> pos < length ys \<and> ys ! pos = batch
           \<and> map_of (readers (outcome_producer out)) = (map_of (readers p))(reader i \<mapsto> pos + 1)
           \<and> outcome_input out = i)
      | Pending \<Rightarrow>
          producer_ok lim (outcome_producer out) xs \<and> readers (outcome_producer out) = readers p
          \<and> outcome_input out = i \<and> (reader i, w) \<in> set (waiters (outcome_producer out))
      | Ready ended \<Rightarrow>
          producer_ok lim (outcome_producer out) xs
          \<and> map_of (readers (outcome_producer out)) = (map_of (readers p))(reader i := None)
          \<and> outcome_input out = i\<lparr>input_done := True\<rparr> \<and> (ended = None \<longrightarrow> pos = length xs))
     \<and> (\<forall>(r, v) \<in> set (waiters p).
          r = reader i \<or> v \<in> woken out \<or> (r, v) \<in> set (waiters (outcome_producer out)))"

lemma finish_simps [simp]:
  "readers (snd (finish i e p)) = AList.delete (reader i) (readers p)"
  "waiters (snd (finish i e p)) = []"
  "fst (finish i e p) = set (map snd (waiters p))"
  by (simp_all add: finish_def)

lemma holding_finished:
  assumes "holding lim p xs"
  shows "queue p = drop (base p) xs \<Longrightarrow>
    holding lim (p\<lparr>failure := e, finished := True, streaming := False\<rparr>) xs"
  using assms by (auto simp: holding_def)

lemma finish_ok:
  assumes "holding lim p xs" and "queue p = drop (base p) xs" and "length (queue p) \<le> max_buffered_batches lim"
  shows "producer_ok lim (snd (finish i e p)) xs"
proof -
  have "holding lim (p\<lparr>failure := e, finished := True, streaming := False\<rparr>) xs"
    by (rule holding_finished [OF assms(1,2)])
  from trim_ok [OF holding_remove [OF this, of "reader i"]] show ?thesis
    using assms(3) by (simp add: finish_def)
qed

lemma poll_new_batch_ok:
  assumes hold: "holding lim p xs" and run: "\<not> finished p" and len: "length (queue p) < max_buffered_batches lim"
    and slow: "slowest p = base p"
    and at: "map_of (readers p) (reader i) = Some (length xs)"
    and waits: "distinct (map fst (waiters p))" "(reader i, w) \<in> set (waiters p)"
      "\<forall>(r, w) \<in> set (waiters p). (r, length xs) \<in> set (readers p)"
    and others: "\<forall>x \<in> set W. fst x = reader i \<or> x \<in> set (waiters p)" 
    and q: "readers q = readers p" "base q = base p" "length (queue q) = length (queue p)" "set (waiters q) = set W"
  shows "\<exists>out. poll_new_batch lim bytes poll_stream i (length xs) c p = Some out
    \<and> poll_ok lim w i (length xs) q xs out"
proof -
  have "readers p \<noteq> []"
    using at by auto
  then have queue: "queue p = drop (base p) xs" and stream: "streaming p"
    using hold run by (auto simp: holding_def)
  have fresh: "fresh q (reader i)"
    using at holdingD(3) [OF hold] queue q by (simp add: fresh_def)
  have dist: "distinct (map fst (readers p))"
    using hold by (simp add: holding_def)
  have woken: "\<forall>(r, v) \<in> set W. r = reader i \<or> v \<in> snd ` set (waiters p)"
    using others by force
  have ended: "producer_ok lim (snd (finish i e (p\<lparr>batches_polled := k\<rparr>))) xs" for e k
    using finish_ok [of lim "p\<lparr>batches_polled := k\<rparr>"] hold queue len by (simp add: holding_fields)
  have ended': "producer_ok lim (snd (finish i e p)) xs" for e
    using finish_ok [OF hold queue] len by simp
  obtain answer c' where answer: "poll_stream c = (answer, c')" by fastforce
  show ?thesis
  proof (cases answer)
    case Pending
    then show ?thesis
      using hold run len slow waits stream others q
      by (auto simp: poll_new_batch_def answer poll_ok_def producer_ok_def)
  next
    case (Ready r)
    show ?thesis
    proof (cases r)
      case None
      then show ?thesis
        using Ready stream ended' woken q dist
        by (auto simp: poll_new_batch_def answer poll_ok_def Let_def split_beta delete_conv' map_of_delete)
    next
      case (Some x)
      show ?thesis
      proof (cases x)
        case (Inl e)
        then show ?thesis
          using Ready Some stream ended' woken q dist
          by (auto simp: poll_new_batch_def answer poll_ok_def Let_def split_beta delete_conv')
      next
        case (Inr v)
        let ?p = "p\<lparr>batches_polled := batches_polled p + 1\<rparr>"
        let ?batch = "\<lparr>shared = v, reserved = bytes v\<rparr>"
        show ?thesis
        proof (cases "reserve lim (bytes v) c'")
          case (Inl e)
          then show ?thesis
            using Ready Some Inr stream ended woken q dist
            by (auto simp: poll_new_batch_def answer poll_ok_def Let_def split_beta delete_conv')
        next
          case reserved: (Inr d)
          have "holding lim (?p\<lparr>queue := queue ?p @ [?batch]\<rparr>) (xs @ [?batch])"
            using holding_grow [of lim ?p xs] hold run by (simp add: holding_fields)
          then have "holding lim (advance i (length xs) (?p\<lparr>queue := queue ?p @ [?batch]\<rparr>)) (xs @ [?batch])"
            by (rule holding_advance) (use at holdingD(3) [OF hold] in auto)
          from trim_ok [OF this] have
            "producer_ok lim (snd (trim (advance i (length xs) (?p\<lparr>queue := queue ?p @ [?batch]\<rparr>)))) (xs @ [?batch])"
            using len by (simp add: advance_def)
          then show ?thesis
            using Ready Some Inr reserved stream woken q fresh
            by (auto simp: poll_new_batch_def answer poll_ok_def Let_def split_beta advance_def update_conv')
        qed
      qed
    qed
  qed
qed

lemma in_update:
  "distinct (map fst al) \<Longrightarrow> x \<in> set (AList.update k v al) \<Longrightarrow> fst x = k \<or> x \<in> set al"
  by (auto simp: set_update_distinct)

lemma waiters_update:
  assumes "distinct (map fst ws)" and "\<forall>(r, w) \<in> set ws. (r, n) \<in> R" and "(k, n) \<in> R"
  shows "distinct (map fst (AList.update k v ws))" "(k, v) \<in> set (AList.update k v ws)"
    "\<forall>(r, w) \<in> set (AList.update k v ws). (r, n) \<in> R"
    "\<forall>x \<in> set ws. fst x = k \<or> x \<in> set (AList.update k v ws)"
  using assms by (auto simp: set_update_distinct distinct_update)

lemma poll_waiting_ok:
  assumes ok: "producer_ok lim p xs" and run: "\<not> finished p" and len: "length (queue p) < max_buffered_batches lim"
    and at: "map_of (readers p) (reader i) = Some (length xs)"
  shows "\<exists>out. poll_new_batch lim bytes poll_stream i (length xs) c
      (p\<lparr>waiters := AList.update (reader i) w (waiters p)\<rparr>) = Some out
    \<and> poll_ok lim w i (length xs) p xs out"
proof -
  note D = producer_okD [OF ok]
  have "(reader i, length xs) \<in> set (readers p)"
    using at by (rule map_of_SomeD)
  moreover from this have "slowest p = base p"
    using D(3) by auto
  moreover have "\<forall>(r, w) \<in> set (waiters p). (r, length xs) \<in> set (readers p)"
    using D(5) by auto
  ultimately show ?thesis
    by (intro poll_new_batch_ok [where W = "waiters p"])
      (use D(1,4) run len at waiters_update [of "waiters p" "length xs" "set (readers p)" "reader i" w] in
        \<open>auto simp: holding_fields\<close>)
qed

lemma poll_next_ok:
  assumes ok: "producer_ok lim p xs" and lim: "0 < max_buffered_batches lim"
    and live: "\<not> input_done i" and at: "map_of (readers p) (reader i) = Some pos"
  shows "\<exists>out. poll_next lim bytes w poll_stream i c p = Some out \<and> poll_ok lim w i pos p xs out"
proof -
  let ?p = "stop_if_cancelled (register w c) p"
  note D = producer_okD [OF ok]
  have hold: "holding lim ?p xs"
    by (rule producer_ok_stop [OF D(1)])
  have len: "length (queue ?p) \<le> max_buffered_batches lim"
    using length_stop [of "register w c" p] D(2) by simp
  have pos: "base p \<le> pos" "pos \<le> length xs"
    using holdingD(2) [OF D(1) at] by auto
  have dist: "distinct (map fst (readers p))"
    using D(1) by (simp add: holding_def)
  have woken: "(r, v) \<in> set (waiters p) \<Longrightarrow> v \<in> snd ` set (waiters p)" for r v
    by force
  show ?thesis
  proof (cases "get (queue ?p) (pos - base p)")
    case (Some batch)
    then have queue: "queue ?p = queue p" "queue ?p = drop (base p) xs" "pos - base p < length (queue ?p)"
      "queue ?p ! (pos - base p) = batch"
      using holdingD(5) [OF hold] by (auto simp: get_Some stop_if_cancelled_def split: if_splits)
    from queue(1,2) have drop: "queue p = drop (base p) xs"
      by simp
    have item: "pos < length xs" "xs ! pos = batch" "\<not> fresh p (reader i)"
      using queue(3,4) pos at by (auto simp: queue(1) drop fresh_def)
    have "holding lim (advance i pos ?p) xs"
      by (rule holding_advance [OF hold]) (use pos item at in auto)
    from trim_ok [OF this] have "producer_ok lim (snd (trim (advance i pos ?p))) xs"
      using len by (simp add: advance_def)
    then show ?thesis
      using live at pos item Some woken
      by (auto simp: poll_next_def poll_ok_def Let_def split_beta advance_def update_conv')
  next
    case None
    then have none: "length (queue ?p) \<le> pos - base p"
      by (simp add: get_def split: if_splits)
    show ?thesis
    proof (cases "finished ?p")
      case True
      have "producer_ok lim (snd (trim (?p\<lparr>readers := AList.delete (reader i) (readers ?p)\<rparr>))) xs"
        by (rule trim_ok [OF holding_remove [OF hold]]) (use len in simp)
      moreover have "failure ?p = None \<Longrightarrow> pos = length xs"
        using holdingD(4) [OF hold] none pos by auto
      ultimately show ?thesis
        using live at pos None True woken dist
        by (auto simp: poll_next_def poll_ok_def Let_def split_beta delete_conv' split: option.splits)
    next
      case False
      then have run: "\<not> finished p" and "\<not> is_cancelled (register w c)"
        by simp_all
      then have same: "?p = p"
        by (simp add: stop_if_cancelled_def)
      have "queue p = drop (base p) xs"
        using holdingD(4) [OF D(1)] run by blast
      with none pos same have last: "pos = length xs" by simp
      have at_end: "(reader i, length xs) \<in> set (readers p)"
        using at last by (simp add: map_of_SomeD)
      have waits: "\<forall>(r, w) \<in> set (waiters p). (r, length xs) \<in> set (readers p)"
        using D(5) by auto
      have waiting: "producer_ok lim (p\<lparr>waiters := AList.update (reader i) w (waiters p), batches_polled := k\<rparr>) xs" for k
        using ok run waiters_update [OF D(4) waits at_end, of w] by (auto simp: producer_ok_def holding_def)
      have "producer_ok lim (p\<lparr>waiters := AList.update (reader i) w (waiters p)\<rparr>) xs"
        using waiting [of "batches_polled p"] by simp
      then show ?thesis
        using live at pos None run same last waiting [of 0] waiters_update [OF D(4) waits at_end, of w]
          poll_waiting_ok [OF ok run _ at [unfolded last], of bytes poll_stream "register w c" w]
        by (auto simp: poll_next_def poll_ok_def Let_def not_le)
    qed
  qed
qed

end
