(* ===== verification/ProducerProps.thy ===== *)
theory ProducerProps
  imports ProducerLaws
begin

text \<open>
  The run of a shared producer: the invariant of its readers, and what follows for them: no panic, every
  batch once and in order, a bounded queue, no missed wake-up and no deadlock by backpressure.
\<close>

section \<open>The invariant of a run\<close>

definition hub_ok :: "limits \<Rightarrow> 'v hub \<Rightarrow> bool" where
  "hub_ok lim h \<longleftrightarrow>
     producer_ok lim (hub_producer h) (produced h)
     \<and> (\<forall>r i. hub_inputs h r = Some i \<longrightarrow>
          reader i = r \<and> (input_done i \<longleftrightarrow> map_of (readers (hub_producer h)) r = None))
     \<and> (\<forall>r pos. map_of (readers (hub_producer h)) r = Some pos \<longrightarrow>
          hub_inputs h r \<noteq> None \<and> delivered h r = take pos (produced h))
     \<and> (\<forall>r. prefix (delivered h r) (produced h))"

lemma hub_okD:
  assumes "hub_ok lim h"
  shows "producer_ok lim (hub_producer h) (produced h)"
    "hub_inputs h r = Some i \<Longrightarrow> reader i = r"
    "hub_inputs h r = Some i \<Longrightarrow> input_done i \<longleftrightarrow> map_of (readers (hub_producer h)) r = None"
    "map_of (readers (hub_producer h)) r = Some pos \<Longrightarrow> hub_inputs h r \<noteq> None"
    "map_of (readers (hub_producer h)) r = Some pos \<Longrightarrow> delivered h r = take pos (produced h)"
    "prefix (delivered h r) (produced h)"
  using assms by (auto simp: hub_ok_def)

text \<open>After building, every reader stands at the start.\<close>

lemma subscribed:
  "hub_producer ((hub_subscribe ^^ n) h0) =
     (hub_producer h0)\<lparr>next_reader := n, readers := map (\<lambda>r. (r, 0)) [0..<n]\<rparr>
   \<and> hub_inputs ((hub_subscribe ^^ n) h0) = (\<lambda>r. if r < n then Some \<lparr>reader = r, input_done = False\<rparr> else None)
   \<and> produced ((hub_subscribe ^^ n) h0) = [] \<and> delivered ((hub_subscribe ^^ n) h0) = (\<lambda>_. [])"
  if "h0 = \<lparr>hub_control = c, hub_producer = new_producer node kind, hub_inputs = Map.empty, produced = [],
        delivered = (\<lambda>_. [])\<rparr>"
proof (induction n)
  case 0
  then show ?case by (simp add: that new_producer_def)
next
  case (Suc n)
  have "AList.update n 0 (map (\<lambda>r. (r, 0 :: nat)) [0..<n]) = map (\<lambda>r. (r, 0)) [0..<n] @ [(n, 0)]"
  proof -
    have "n \<notin> fst ` set xs \<Longrightarrow> AList.update n v xs = xs @ [(n, v)]" for xs :: "(nat \<times> nat) list" and v
      by (induction xs) auto
    then show ?thesis by (force simp: image_iff)
  qed
  with Suc show ?case
    by (auto simp: hub_subscribe_def subscribe_def that new_producer_def fun_eq_iff less_Suc_eq)
qed

lemma hub_ok_start: "hub_ok lim (hub_start node kind n c)"
proof -
  note S = subscribed [OF refl, of n c node kind, folded hub_start_def]
  have "map_of (map (\<lambda>r. (r, 0)) [0..<n]) r = (if r < n then Some 0 else None)" for r
    by (induction n) (auto simp: map_add_def)
  moreover have "slowest (hub_producer (hub_start node kind n c)) = 0"
    if "n \<noteq> 0"
    using that by (subst slowest_Min) (auto simp: S image_image)
  ultimately show ?thesis
    by (auto simp: hub_ok_def producer_ok_def holding_def S new_producer_def comp_def image_iff split: if_splits)
qed

text \<open>The cases of a poll of a live input, and of one whose reader is done.\<close>

lemma hub_poll_live:
  assumes ok: "hub_ok lim h" and lim: "0 < max_buffered_batches lim"
    and i: "hub_inputs h r = Some i" "\<not> input_done i"
  obtains pos out where "map_of (readers (hub_producer h)) r = Some pos" and "reader i = r"
    and "hub_poll lim bytes r w poll_stream h = Some out"
    and "poll_ok lim w i pos (hub_producer h) (produced h) out"
proof -
  note D = hub_okD [OF ok]
  obtain pos where pos: "map_of (readers (hub_producer h)) r = Some pos"
    using D(3) [OF i(1)] i(2) by auto
  then obtain out where "poll_next lim bytes w poll_stream i (hub_control h) (hub_producer h) = Some out"
    "poll_ok lim w i pos (hub_producer h) (produced h) out"
    using poll_next_ok [OF D(1) lim i(2), where pos = pos and bytes = bytes and w = w
        and poll_stream = poll_stream and c = "hub_control h"] D(2) [OF i(1)] by auto
  with pos D(2) [OF i(1)] i show ?thesis
    by (intro that) (simp_all add: hub_poll_def)
qed

lemma hub_poll_done:
  assumes "hub_inputs h r = Some i" and "input_done i"
  shows "hub_poll lim bytes r w poll_stream h =
    Some \<lparr>outcome = Ready None, outcome_input = i, outcome_control = hub_control h,
      outcome_producer = hub_producer h, woken = {}\<rparr>"
  using assms by (simp add: hub_poll_def poll_next_def)

lemma take_Suc_snoc: "pos < length xs \<Longrightarrow> take pos xs @ [xs ! pos] = take (Suc pos) xs"
  by (simp add: take_Suc_conv_app_nth)

lemma hub_ok_poll:
  assumes ok: "hub_ok lim h" and lim: "0 < max_buffered_batches lim"
    and out: "hub_poll lim bytes r w poll_stream h = Some out"
  shows "hub_ok lim (after_poll r out h)"
proof -
  note D = hub_okD [OF ok]
  obtain i where i: "hub_inputs h r = Some i"
    using out by (auto simp: hub_poll_def bind_eq_Some_conv)
  show ?thesis
  proof (cases "input_done i")
    case True
    then have "after_poll r out h = h"
      using out i by (auto simp: hub_poll_done after_poll_def fun_upd_idem)
    with ok show ?thesis by simp
  next
    case False
    obtain pos where pos: "map_of (readers (hub_producer h)) r = Some pos" and r: "reader i = r"
      and poll: "poll_ok lim w i pos (hub_producer h) (produced h) out"
      using hub_poll_live [OF ok lim i False, of bytes w poll_stream] out by (metis option.inject)
    have hold: "holding lim (hub_producer h) (produced h)"
      by (rule producer_okD(1) [OF D(1)])
    have bound: "map_of (readers (hub_producer h)) q = Some at' \<Longrightarrow> at' \<le> length (produced h)" for q at'
      using holdingD(2) [OF hold] by blast
    show ?thesis
    proof (cases "outcome out")
      case Pending
      then show ?thesis
        using ok poll i by (auto simp: hub_ok_def after_poll_def poll_ok_def)
    next
      case (Ready x)
      show ?thesis
      proof (cases "\<exists>batch. x = Some (Inr batch)")
        case True
        then obtain batch where x: "x = Some (Inr batch)" ..
        define ys where "ys = (if fresh (hub_producer h) r then produced h @ [batch] else produced h)"
        have facts: "producer_ok lim (outcome_producer out) ys" "pos < length ys" "ys ! pos = batch"
          "map_of (readers (outcome_producer out)) = (map_of (readers (hub_producer h)))(r \<mapsto> pos + 1)"
          "outcome_input out = i"
          using poll r by (simp_all add: poll_ok_def Ready x ys_def Let_def)
        have longer: "take k ys = take k (produced h)" if "k \<le> length (produced h)" for k
          using that by (simp add: ys_def)
        have "delivered h r @ [batch] = take (pos + 1) ys"
          using take_Suc_snoc [OF facts(2)] facts(3) longer [of pos] bound [OF pos] D(5) [OF pos] by simp
        moreover have "prefix (delivered h q) ys" for q
          using D(6) [of q] by (auto simp: ys_def intro: prefix_order.trans)
        ultimately show ?thesis
          using facts i r pos D(2-5) bound longer
          by (auto simp: hub_ok_def after_poll_def Ready x ys_def [symmetric] take_is_prefix)
      next
        case False
        then have "x = None \<or> (\<exists>e. x = Some (Inl e))"
          by (metis option.exhaust sum.exhaust)
        then show ?thesis
          using ok poll i r by (auto simp: hub_ok_def after_poll_def poll_ok_def Ready)
      qed
    qed
  qed
qed

lemma hub_ok_drop:
  assumes ok: "hub_ok lim h" and i: "hub_inputs h r = Some i"
  shows "hub_ok lim (h\<lparr>hub_producer := snd (drop_input i (hub_producer h)),
    hub_inputs := (hub_inputs h)(r := None)\<rparr>)"
proof -
  note D = hub_okD [OF ok]
  have "holding lim ((hub_producer h)\<lparr>readers := AList.delete (reader i) (readers (hub_producer h)),
      waiters := AList.delete (reader i) (waiters (hub_producer h))\<rparr>) (produced h)"
    using holding_remove [OF producer_okD(1) [OF D(1)], of "reader i"] by (simp add: holding_def)
  from trim_ok [OF this] have "producer_ok lim (snd (drop_input i (hub_producer h))) (produced h)"
    using producer_okD(2) [OF D(1)] by (simp add: drop_input_def)
  then show ?thesis
    using ok D(2) [OF i] by (auto simp: hub_ok_def drop_input_def delete_conv' split: if_splits)
qed

lemma hub_reachable_ok:
  assumes "hub_reachable lim bytes n h" and lim: "0 < max_buffered_batches lim"
  shows "hub_ok lim h"
  using assms(1)
proof (induction rule: hub_reachable.induct)
  case (start node kind c)
  show ?case by (rule hub_ok_start)
next
  case (step h h')
  from step.hyps(2) show ?case
  proof (cases rule: hub_step.cases)
    case (poll r waker poll_stream out)
    then show ?thesis using hub_ok_poll [OF step.IH lim] by simp
  next
    case (drop r i)
    then show ?thesis using hub_ok_drop [OF step.IH] by simp
  qed (use step.IH in \<open>simp_all add: hub_ok_def\<close>)
qed

section \<open>A run of two readers\<close>

text \<open>One batch has been produced and given to the first of two readers; the producer may hold one batch.\<close>

definition one_batch :: limits where
  "one_batch = \<lparr>max_buffered_batches = 1, max_bytes = 100\<rparr>"

definition sample_start :: "nat hub" where
  "sample_start =
     hub_start 7 ''Source'' 2 \<lparr>is_cancelled = False, retained_bytes = 0, peak_bytes = 0, wakers = []\<rparr>"

definition sample_hub :: "nat hub" where
  "sample_hub =
     (case hub_poll one_batch (\<lambda>_. 8) 0 40 (\<lambda>c. (Ready (Some (Inr 5)), c)) sample_start of
        Some out \<Rightarrow> after_poll 0 out sample_start
      | None \<Rightarrow> sample_start)"

lemma sample_start_state:
  "hub_producer sample_start = (new_producer 7 ''Source'')\<lparr>next_reader := 2, readers := [(0, 0), (1, 0)]\<rparr>"
  "hub_inputs sample_start = (\<lambda>r. if r < 2 then Some \<lparr>reader = r, input_done = False\<rparr> else None)"
  "produced sample_start = []" "delivered sample_start = (\<lambda>_. [])"
  by (simp_all add: sample_start_def subscribed [OF refl, of 2 _ 7 "''Source''", folded hub_start_def] upt_rec)

lemma sample_start_control:
  "hub_control sample_start = \<lparr>is_cancelled = False, retained_bytes = 0, peak_bytes = 0, wakers = []\<rparr>"
  by (simp add: sample_start_def hub_start_def hub_subscribe_def subscribe_def eval_nat_numeral)

lemmas poll_defs =
  hub_poll_def poll_next_def poll_new_batch_def stop_if_cancelled_def register_def advance_def trim_def slowest_def
  reserve_def checked_add_u64_def u64_max_def get_def after_poll_def fresh_def pop_front_iterate new_producer_def

lemma sample_poll:
  "hub_poll one_batch (\<lambda>_. 8) 0 40 (\<lambda>c. (Ready (Some (Inr 5)), c)) sample_start = Some
     \<lparr>outcome = Ready (Some (Inr \<lparr>shared = 5, reserved = 8\<rparr>)),
      outcome_input = \<lparr>reader = 0, input_done = False\<rparr>,
      outcome_control = \<lparr>is_cancelled = False, retained_bytes = 8, peak_bytes = 8, wakers = [40]\<rparr>,
      outcome_producer =
        \<lparr>producer_node = 7, operation = ''Source'', streaming = True, queue = [\<lparr>shared = 5, reserved = 8\<rparr>],
         base = 0, next_reader = 2, batches_polled = 1, readers = [(0, 1), (1, 0)], waiters = [],
         finished = False, failure = None\<rparr>,
      woken = {40}\<rparr>"
  by (simp add: poll_defs Let_def sample_start_state sample_start_control one_batch_def)

lemma sample_hub_state:
  "hub_reachable one_batch (\<lambda>_. 8) 2 sample_hub"
  "produced sample_hub = [\<lparr>shared = 5, reserved = 8\<rparr>]"
  "delivered sample_hub = (\<lambda>_. [])(0 := [\<lparr>shared = 5, reserved = 8\<rparr>])"
  "hub_inputs sample_hub 1 = Some \<lparr>reader = 1, input_done = False\<rparr>"
  "queue (hub_producer sample_hub) = [\<lparr>shared = 5, reserved = 8\<rparr>]"
  "failure (hub_producer sample_hub) = None"
  "is_cancelled (hub_control sample_hub) = False"
  "hub_producer sample_hub =
    \<lparr>producer_node = 7, operation = ''Source'', streaming = True, queue = [\<lparr>shared = 5, reserved = 8\<rparr>],
     base = 0, next_reader = 2, batches_polled = 1, readers = [(0, 1), (1, 0)], waiters = [],
     finished = False, failure = None\<rparr>"
  "hub_inputs sample_hub 0 = Some \<lparr>reader = 0, input_done = False\<rparr>"
proof -
  have start: "hub_reachable one_batch (\<lambda>_. 8) 2 sample_start"
    unfolding sample_start_def by (rule hub_reachable.start)
  show "hub_reachable one_batch (\<lambda>_. 8) 2 sample_hub"
    using hub_reachable.step [OF start hub_step.poll [OF sample_poll]]
    by (simp add: sample_hub_def sample_poll)
qed (simp_all add: sample_hub_def sample_poll after_poll_def sample_start_state fresh_def new_producer_def)

text \<open>The first reader polls again: the queue is full, and it waits under the waker 42.\<close>

definition sample_waiting :: "nat hub" where
  "sample_waiting =
     (case hub_poll one_batch (\<lambda>_. 8) 0 42 (\<lambda>c. (Pending, c)) sample_hub of
        Some out \<Rightarrow> after_poll 0 out sample_hub
      | None \<Rightarrow> sample_hub)"

lemma sample_waiting_state:
  "hub_reachable one_batch (\<lambda>_. 8) 2 sample_waiting"
  "waiters (hub_producer sample_waiting) = [(0, 42)]"
  "hub_inputs sample_waiting 1 = Some \<lparr>reader = 1, input_done = False\<rparr>"
proof -
  have poll: "\<exists>out. hub_poll one_batch (\<lambda>_. 8) 0 42 (\<lambda>c. (Pending, c)) sample_hub = Some out
      \<and> outcome_producer out = (hub_producer sample_hub)\<lparr>waiters := [(0, 42)]\<rparr>"
    using sample_hub_state by (simp add: poll_defs Let_def one_batch_def)
  then show "waiters (hub_producer sample_waiting) = [(0, 42)]"
    "hub_inputs sample_waiting 1 = Some \<lparr>reader = 1, input_done = False\<rparr>"
    using sample_hub_state(4) by (auto simp: sample_waiting_def after_poll_def)
  show "hub_reachable one_batch (\<lambda>_. 8) 2 sample_waiting"
    using poll hub_reachable.step [OF sample_hub_state(1) hub_step.poll] by (auto simp: sample_waiting_def)
qed

section \<open>What the readers can rely on\<close>

text \<open>
  C34: in every reachable state of a shared producer, the batches a reader was given are a prefix of those
  produced, so each once and in order; the queue holds at most the run's limit; polling a live input never
  panics; and an input that ends without an error has been given every batch produced.
\<close>

theorem readers_see_one_stream:
  assumes "hub_reachable lim bytes n h" and "0 < max_buffered_batches lim"
  shows "(\<forall>r. prefix (delivered h r) (produced h))
    \<and> length (queue (hub_producer h)) \<le> max_buffered_batches lim
    \<and> (\<forall>r i w poll_stream. hub_inputs h r = Some i \<and> \<not> input_done i \<longrightarrow>
        (\<exists>out. hub_poll lim bytes r w poll_stream h = Some out
          \<and> (outcome out = Ready None \<longrightarrow> delivered h r = produced h)))"
proof -
  have ok: "hub_ok lim h"
    by (rule hub_reachable_ok [OF assms])
  note D = hub_okD [OF ok]
  have "\<exists>out. hub_poll lim bytes r w poll_stream h = Some out
      \<and> (outcome out = Ready None \<longrightarrow> delivered h r = produced h)"
    if live: "hub_inputs h r = Some i" "\<not> input_done i" for r i w poll_stream
  proof -
    obtain pos out where "map_of (readers (hub_producer h)) r = Some pos"
      and "hub_poll lim bytes r w poll_stream h = Some out"
      and "poll_ok lim w i pos (hub_producer h) (produced h) out"
      using hub_poll_live [OF ok assms(2) live, of bytes w poll_stream] by metis
    with D(5) show ?thesis
      by (auto simp: poll_ok_def)
  qed
  with D(6) producer_okD(2) [OF D(1)] show ?thesis by blast
qed

theorem readers_see_one_stream_witness:
  "prefix (delivered sample_hub 0) (produced sample_hub)
   \<and> (\<exists>out. hub_poll one_batch (\<lambda>_. 8) 1 41 (\<lambda>c. (Pending, c)) sample_hub = Some out
      \<and> (outcome out = Ready None \<longrightarrow> delivered sample_hub 1 = produced sample_hub))"
  using readers_see_one_stream [OF sample_hub_state(1)] sample_hub_state(4)
  by (simp add: one_batch_def)

text \<open>
  C35: backpressure stops no run. A reader that is behind is given the next batch at once, without asking
  the stream, while the run is not cancelled; and whenever the queue is not empty, some live reader is
  behind, so the reader that a full queue keeps waiting waits for another one that can go on.
\<close>

lemma reader_behind_served:
  assumes ok: "hub_ok lim h" and live: "hub_inputs h r = Some i" "\<not> input_done i"
    and behind: "delivered h r \<noteq> produced h"
    and running: "\<not> is_cancelled (hub_control h)" "failure (hub_producer h) \<noteq> Some Cancelled"
  shows "map_option outcome (hub_poll lim bytes r w poll_stream h)
    = Some (Ready (Some (Inr (produced h ! length (delivered h r)))))"
proof -
  note D = hub_okD [OF ok]
  obtain pos where pos: "map_of (readers (hub_producer h)) r = Some pos"
    using D(3) [OF live(1)] live(2) by auto
  have hold: "holding lim (hub_producer h) (produced h)"
    by (rule producer_okD(1) [OF D(1)])
  have bound: "base (hub_producer h) \<le> pos" "pos \<le> length (produced h)"
    using holdingD(2) [OF hold pos] by auto
  have given: "delivered h r = take pos (produced h)"
    by (rule D(5) [OF pos])
  with behind bound have "pos < length (produced h)"
    by (metis le_neq_implies_less take_all_iff)
  moreover have "queue (hub_producer h) = drop (base (hub_producer h)) (produced h)"
    using holdingD(4) [OF hold] running(2) by blast
  ultimately have "get (queue (hub_producer h)) (pos - base (hub_producer h)) = Some (produced h ! pos)"
    using bound by (simp add: get_Some)
  then show ?thesis
    using live pos bound running(1) D(2) [OF live(1)] given
    by (auto simp: hub_poll_def poll_next_def stop_if_cancelled_def register_def Let_def split_beta)
qed

lemma some_reader_behind:
  assumes ok: "hub_ok lim h" and queue: "queue (hub_producer h) \<noteq> []" and r: "readers (hub_producer h) \<noteq> []"
  shows "\<exists>q i. hub_inputs h q = Some i \<and> \<not> input_done i \<and> delivered h q \<noteq> produced h"
proof -
  note D = hub_okD [OF ok]
  let ?p = "hub_producer h"
  have hold: "holding lim ?p (produced h)"
    by (rule producer_okD(1) [OF D(1)])
  obtain q where "(q, base ?p) \<in> set (readers ?p)"
    using slowest_in [OF r] producer_okD(3) [OF D(1)] r by auto
  then have at: "map_of (readers ?p) q = Some (base ?p)"
    using holdingD(1) [OF hold] by simp
  moreover have "base ?p < length (produced h)"
    using holdingD(5) [OF hold] queue by (metis drop_eq_Nil not_le)
  ultimately have "length (delivered h q) < length (produced h)"
    using D(5) [OF at] by simp
  then have "delivered h q \<noteq> produced h" by auto
  moreover obtain i where "hub_inputs h q = Some i"
    using D(4) [OF at] by auto
  moreover from this have "\<not> input_done i"
    using D(3) at by auto
  ultimately show ?thesis by blast
qed

theorem backpressure_stops_no_run:
  assumes "hub_reachable lim bytes n h" and "0 < max_buffered_batches lim"
    and "hub_inputs h r = Some i" and "\<not> input_done i"
    and "\<not> is_cancelled (hub_control h)" and "failure (hub_producer h) \<noteq> Some Cancelled"
  shows "(delivered h r \<noteq> produced h \<longrightarrow>
      map_option outcome (hub_poll lim bytes r w poll_stream h)
        = Some (Ready (Some (Inr (produced h ! length (delivered h r))))))
    \<and> (queue (hub_producer h) \<noteq> [] \<longrightarrow>
      (\<exists>q j. hub_inputs h q = Some j \<and> \<not> input_done j \<and> delivered h q \<noteq> produced h))"
proof -
  have ok: "hub_ok lim h"
    by (rule hub_reachable_ok [OF assms(1,2)])
  have "readers (hub_producer h) \<noteq> []"
    using hub_okD(3) [OF ok assms(3)] assms(4) by auto
  then show ?thesis
    using reader_behind_served [OF ok assms(3,4) _ assms(5,6)] some_reader_behind [OF ok] by blast
qed

theorem backpressure_stops_no_run_witness:
  "map_option outcome (hub_poll one_batch (\<lambda>_. 8) 1 41 (\<lambda>c. (Pending, c)) sample_hub)
     = Some (Ready (Some (Inr \<lparr>shared = 5, reserved = 8\<rparr>)))"
  using backpressure_stops_no_run [OF sample_hub_state(1) _ sample_hub_state(4)]
  by (simp add: one_batch_def sample_hub_state)

text \<open>Why a poll is pending: it wakes itself, the queue is full, or the node's stream is pending.\<close>

lemma pending_reason:
  assumes "poll_next lim bytes w poll_stream i c p = Some out" and "outcome out = Pending"
  shows "outcome_control out = register w c \<and> (w \<in> woken out \<or> max_buffered_batches lim \<le> length (queue p))
    \<or> poll_stream (register w c) = (Pending, outcome_control out)"
  using assms
  by (auto simp: poll_next_def poll_new_batch_def Let_def stop_if_cancelled_def
      split: if_splits option.splits prod.splits poll.splits sum.splits)

lemma ready_wakes:
  assumes "poll_next lim bytes w poll_stream i c p = Some out" and "outcome out \<noteq> Pending" and "\<not> input_done i"
    and "distinct (map fst (waiters p))" and "(q, v) \<in> set (waiters p)" and "q \<noteq> reader i"
  shows "v \<in> woken out"
proof -
  have "(q, v) \<in> set (AList.update (reader i) w (waiters p))"
    using assms(4-6) by (simp add: set_update_distinct)
  define A where "A = snd ` set (AList.update (reader i) w (waiters p))"
  define B where "B = snd ` set (waiters p)"
  have "v \<in> A" "v \<in> B"
    using \<open>(q, v) \<in> set (AList.update (reader i) w (waiters p))\<close> assms(5) unfolding A_def B_def by force+
  with assms(1-3) show ?thesis
    by (auto simp: poll_next_def poll_new_batch_def Let_def advance_def split_beta A_def [symmetric] B_def [symmetric]
        split: if_splits option.splits prod.splits poll.splits sum.splits)
qed

lemma pending_keeps:
  assumes "poll_next lim bytes w poll_stream i c p = Some out" and "outcome out = Pending"
    and "distinct (map fst (waiters p))" and "(q, v) \<in> set (waiters p)" and "q \<noteq> reader i"
  shows "(q, v) \<in> set (waiters (outcome_producer out))"
proof -
  have "(q, v) \<in> set (AList.update (reader i) w (waiters p))"
    using assms(3-5) by (simp add: set_update_distinct)
  with assms(1,2) show ?thesis
    by (auto simp: poll_next_def poll_new_batch_def Let_def split_beta
        split: if_splits option.splits prod.splits poll.splits sum.splits)
qed

lemma cancelled_reported:
  assumes ok: "hub_ok lim h" and live: "hub_inputs h r = Some i" "\<not> input_done i" and stop: "is_cancelled (hub_control h)"
  shows "map_option outcome (hub_poll lim bytes r w poll_stream h) = Some (Ready (Some (Inl Cancelled)))"
proof -
  note D = hub_okD [OF ok]
  obtain pos where pos: "map_of (readers (hub_producer h)) r = Some pos"
    using D(3) [OF live(1)] live(2) by auto
  have "base (hub_producer h) \<le> pos"
    using holdingD(2) [OF producer_okD(1) [OF D(1)] pos] by simp
  then show ?thesis
    using live pos stop D(2) [OF live(1)]
    by (simp add: hub_poll_def poll_next_def stop_if_cancelled_def register_def get_def Let_def split_beta)
qed

lemma cancel_wakes:
  assumes out: "poll_next lim bytes w poll_stream i c p = Some out" "outcome out = Pending"
    and keeps: "\<forall>c. set (wakers c) \<subseteq> set (wakers (snd (poll_stream c)))"
  shows "w \<in> fst (cancel (outcome_control out))"
proof -
  have "w \<in> set (wakers (register w c))" by (simp add: register_def)
  with pending_reason [OF out] keeps show ?thesis by (force simp: cancel_def)
qed

text \<open>What a poll that is pending leaves: a reason that it will be woken, in the producer, its stream or the run.\<close>

lemma pending_poll:
  assumes ok: "hub_ok lim h" and lim: "0 < max_buffered_batches lim"
    and out: "hub_poll lim bytes r w poll_stream h = Some out" "outcome out = Pending"
  shows "(r, w) \<in> set (waiters (outcome_producer out))"
    and "w \<in> woken out
      \<or> max_buffered_batches lim \<le> length (queue (hub_producer h))
        \<and> (\<exists>q j. q \<noteq> r \<and> hub_inputs h q = Some j \<and> \<not> input_done j \<and> delivered h q \<noteq> produced h)
      \<or> fst (poll_stream (register w (hub_control h))) = Pending"
    and "\<forall>c. set (wakers c) \<subseteq> set (wakers (snd (poll_stream c))) \<Longrightarrow> w \<in> fst (cancel (outcome_control out))"
proof -
  note D = hub_okD [OF ok]
  obtain i where i: "hub_inputs h r = Some i" and poll: "poll_next lim bytes w poll_stream i (hub_control h) (hub_producer h) = Some out"
    using out(1) by (auto simp: hub_poll_def bind_eq_Some_conv)
  have live: "\<not> input_done i"
    using poll out(2) by (auto simp: poll_next_def)
  obtain pos where pos: "map_of (readers (hub_producer h)) r = Some pos"
    and good: "poll_ok lim w i pos (hub_producer h) (produced h) out" and r: "reader i = r"
    using hub_poll_live [OF ok lim i live, of bytes w poll_stream] out(1) by auto
  then show waits: "(r, w) \<in> set (waiters (outcome_producer out))"
    using out(2) by (simp add: poll_ok_def)
  have "map_of (readers (outcome_producer out)) r = Some (length (produced h))"
    using good out(2) waits r producer_okD(5) [of lim "outcome_producer out" "produced h" r w]
      holdingD(1) [OF producer_okD(1), of lim "outcome_producer out" "produced h"] by (simp add: poll_ok_def)
  then have "delivered h r = produced h"
    using good out(2) pos D(5) [OF pos] by (simp add: poll_ok_def)
  then show "w \<in> woken out
      \<or> max_buffered_batches lim \<le> length (queue (hub_producer h))
        \<and> (\<exists>q j. q \<noteq> r \<and> hub_inputs h q = Some j \<and> \<not> input_done j \<and> delivered h q \<noteq> produced h)
      \<or> fst (poll_stream (register w (hub_control h))) = Pending"
    using pending_reason [OF poll out(2)] some_reader_behind [OF ok] lim pos by fastforce
  show "\<forall>c. set (wakers c) \<subseteq> set (wakers (snd (poll_stream c))) \<Longrightarrow> w \<in> fst (cancel (outcome_control out))"
    by (rule cancel_wakes [OF poll out(2)])
qed

text \<open>What a reader that waits can rely on.\<close>

lemma waiting_reader:
  assumes ok: "hub_ok lim h" and waits: "(q, v) \<in> set (waiters (hub_producer h))"
  shows "delivered h q = produced h" and "\<not> finished (hub_producer h)"
    and "hub_inputs h r = Some i \<Longrightarrow> r \<noteq> q \<Longrightarrow> v \<in> fst (drop_input i (hub_producer h))"
    and "hub_inputs h r = Some i \<Longrightarrow> r \<noteq> q \<Longrightarrow> hub_poll lim bytes r w poll_stream h = Some out \<Longrightarrow>
      (if outcome out = Pending \<or> input_done i then (q, v) \<in> set (waiters (outcome_producer out)) else v \<in> woken out)"
proof -
  note D = hub_okD [OF ok]
  note W = producer_okD(5) [OF D(1) waits] and dist = producer_okD(4) [OF D(1)]
  show "delivered h q = produced h" "\<not> finished (hub_producer h)"
    using W D(5) [of q "length (produced h)"] holdingD(1) [OF producer_okD(1) [OF D(1)]] by simp_all
  assume r: "hub_inputs h r = Some i" "r \<noteq> q"
  from r D(2) [OF r(1)] waits show "v \<in> fst (drop_input i (hub_producer h))"
    by (force simp: drop_input_def set_delete)
  assume "hub_poll lim bytes r w poll_stream h = Some out"
  then have poll: "poll_next lim bytes w poll_stream i (hub_control h) (hub_producer h) = Some out"
    by (simp add: hub_poll_def r(1))
  have q: "q \<noteq> reader i" using r D(2) [OF r(1)] by simp
  show "if outcome out = Pending \<or> input_done i then (q, v) \<in> set (waiters (outcome_producer out)) else v \<in> woken out"
    using ready_wakes [OF poll _ _ dist waits q] pending_keeps [OF poll _ dist waits q] poll waits
    by (auto simp: poll_next_def)
qed

text \<open>
  C36: no wake-up is lost. A reader whose poll is \<open>Pending\<close> waits in the producer under its waker, and it waits for
  something that comes: it has woken itself (after 32 batches polled, so that other roots get a turn), or
  the queue is full and another live reader is behind, or the node's stream is pending. Cancelling the run wakes it,
  if the node's stream does not unregister wakers, and the next poll of any reader then reports the
  cancellation. A reader that waits has been given every batch and the producer has not ended; a poll of another
  reader that takes or produces a batch, ends or fails wakes it, one that is itself pending leaves it waiting, and
  the drop of another input wakes it.
\<close>

theorem no_wake_up_is_lost:
  assumes "hub_reachable lim bytes n h" and "0 < max_buffered_batches lim"
  shows "(\<forall>r w poll_stream out. hub_poll lim bytes r w poll_stream h = Some out \<and> outcome out = Pending \<longrightarrow>
        (r, w) \<in> set (waiters (outcome_producer out))
        \<and> (w \<in> woken out
           \<or> max_buffered_batches lim \<le> length (queue (hub_producer h))
             \<and> (\<exists>q j. q \<noteq> r \<and> hub_inputs h q = Some j \<and> \<not> input_done j \<and> delivered h q \<noteq> produced h)
           \<or> fst (poll_stream (register w (hub_control h))) = Pending)
        \<and> ((\<forall>c. set (wakers c) \<subseteq> set (wakers (snd (poll_stream c)))) \<longrightarrow>
            w \<in> fst (cancel (outcome_control out))))
    \<and> (\<forall>r i w poll_stream. hub_inputs h r = Some i \<and> \<not> input_done i \<and> is_cancelled (hub_control h) \<longrightarrow>
        map_option outcome (hub_poll lim bytes r w poll_stream h) = Some (Ready (Some (Inl Cancelled))))
    \<and> (\<forall>(q, v) \<in> set (waiters (hub_producer h)).
        delivered h q = produced h \<and> \<not> finished (hub_producer h)
        \<and> (\<forall>r i w poll_stream out.
            hub_inputs h r = Some i \<and> r \<noteq> q \<and> hub_poll lim bytes r w poll_stream h = Some out \<longrightarrow>
            (if outcome out = Pending \<or> input_done i then (q, v) \<in> set (waiters (outcome_producer out))
             else v \<in> woken out))
        \<and> (\<forall>r i. hub_inputs h r = Some i \<and> r \<noteq> q \<longrightarrow> v \<in> fst (drop_input i (hub_producer h))))"
proof -
  have ok: "hub_ok lim h"
    by (rule hub_reachable_ok [OF assms])
  show ?thesis
  proof (intro conjI, goal_cases)
    case 1
    show ?case
      by (intro allI impI conjI; (elim conjE)?; rule pending_poll [OF ok assms(2)]; assumption)
  next
    case 2
    show ?case
      by (intro allI impI; elim conjE; rule cancelled_reported [OF ok]; assumption)
  next
    case 3
    show ?case
      by (clarify, intro conjI allI impI; (elim conjE)?; rule waiting_reader [OF ok]; assumption)
  qed
qed

text \<open>The waiting reader of the sample, whose queue is full, is woken by a cancellation and reports it.\<close>

theorem no_wake_up_is_lost_witness:
  "delivered sample_waiting 0 = produced sample_waiting
   \<and> 42 \<in> fst (drop_input \<lparr>reader = 1, input_done = False\<rparr> (hub_producer sample_waiting))
   \<and> (\<exists>out. hub_poll one_batch (\<lambda>_. 8) 0 42 (\<lambda>c. (Pending, c)) sample_hub = Some out \<and> outcome out = Pending
        \<and> 42 \<in> fst (cancel (outcome_control out)))"
proof (intro conjI)
  have lim: "0 < max_buffered_batches one_batch" and waiter: "(0, 42) \<in> set (waiters (hub_producer sample_waiting))"
    by (simp_all add: one_batch_def sample_waiting_state(2))
  note waits = conjunct2 [OF conjunct2 [OF no_wake_up_is_lost [OF sample_waiting_state(1) lim]], rule_format, OF waiter]
  from waits show "delivered sample_waiting 0 = produced sample_waiting" by simp
  from waits have "\<forall>r i. hub_inputs sample_waiting r = Some i \<and> r \<noteq> 0 \<longrightarrow> 42 \<in> fst (drop_input i (hub_producer sample_waiting))"
    by (simp only: prod.case, elim conjE)
  from this [rule_format, of 1] sample_waiting_state(3)
  show "42 \<in> fst (drop_input \<lparr>reader = 1, input_done = False\<rparr> (hub_producer sample_waiting))"
    by simp
  have "\<exists>out. hub_poll one_batch (\<lambda>_. 8) 0 42 (\<lambda>c. (Pending, c)) sample_hub = Some out \<and> outcome out = Pending"
    using sample_hub_state by (simp add: poll_defs Let_def one_batch_def)
  then obtain out where out: "hub_poll one_batch (\<lambda>_. 8) 0 42 (\<lambda>c. (Pending, c)) sample_hub = Some out" "outcome out = Pending"
    by blast
  then have "42 \<in> fst (cancel (outcome_control out))"
    using conjunct1 [OF no_wake_up_is_lost [OF sample_hub_state(1) lim]] by fastforce
  with out show "\<exists>out. hub_poll one_batch (\<lambda>_. 8) 0 42 (\<lambda>c. (Pending, c)) sample_hub = Some out \<and> outcome out = Pending
      \<and> 42 \<in> fst (cancel (outcome_control out))" by blast
qed

end
