(* ===== verification/ExecOrder.thy ===== *)
theory ExecOrder
  imports ExecValue
begin

text \<open>
  The orders the executor sorts by. \<open>ordering_on\<close> is the contract of a comparison function on a set
  of values (\<^verbatim>\<open>slice::sort_by\<close> asks for it: a total preorder); it is closed under the combinators of
  \<^verbatim>\<open>std::cmp\<close> the code composes, and \<open>Value::compare\<close> meets it on the values of every type a sort
  key may have.
\<close>

section \<open>The contract of a comparison\<close>

locale ordering_on =
  fixes A :: "'a set" and c :: "'a \<Rightarrow> 'a \<Rightarrow> ordering"
  assumes refl: "a \<in> A \<Longrightarrow> c a a = Equal"
    and flip: "a \<in> A \<Longrightarrow> b \<in> A \<Longrightarrow> c b a = reverse_ordering (c a b)"
    and trans: "a \<in> A \<Longrightarrow> b \<in> A \<Longrightarrow> d \<in> A \<Longrightarrow> c a b \<noteq> Greater \<Longrightarrow> c b d \<noteq> Greater \<Longrightarrow> c a d \<noteq> Greater"
begin

lemma flip_simps:
  assumes "a \<in> A" and "b \<in> A"
  shows "c a b = Greater \<longleftrightarrow> c b a = Less" and "c a b = Less \<longleftrightarrow> c b a = Greater"
    and "c a b = Equal \<longleftrightarrow> c b a = Equal"
  using flip [OF assms] by (cases "c a b"; simp)+

lemma less_trans:
  assumes A: "a \<in> A" "b \<in> A" "d \<in> A" and "c a b = Less" and "c b d \<noteq> Greater"
  shows "c a d = Less"
proof (rule ccontr)
  assume "c a d \<noteq> Less"
  then have "c d a \<noteq> Greater"
    using flip_simps [OF A(1,3)] by auto
  then have "c b a \<noteq> Greater"
    using trans [OF A(2,3,1) assms(5)] by blast
  with assms(4) flip_simps [OF A(1,2)] show False by simp
qed

lemma less_trans':
  assumes A: "a \<in> A" "b \<in> A" "d \<in> A" and "c a b \<noteq> Greater" and "c b d = Less"
  shows "c a d = Less"
proof (rule ccontr)
  assume "c a d \<noteq> Less"
  then have "c d a \<noteq> Greater"
    using flip_simps [OF A(1,3)] by auto
  then have "c d b \<noteq> Greater"
    using trans [OF A(3,1,2) _ assms(4)] by blast
  with assms(5) flip_simps [OF A(2,3)] show False by simp
qed

lemma equal_trans:
  assumes A: "a \<in> A" "b \<in> A" "d \<in> A" and "c a b = Equal"
  shows "c a d = c b d"
proof (cases "c b d")
  case Less
  with less_trans' [OF A] assms(4) show ?thesis by simp
next
  case Greater
  then have "c d b = Less"
    using flip_simps [OF A(2,3)] by simp
  then have "c d a = Less"
    using less_trans [OF A(3,2,1)] flip_simps [OF A(1,2)] assms(4) by simp
  with Greater show ?thesis
    using flip_simps [OF A(1,3)] by simp
next
  case Equal
  then have "c a d \<noteq> Greater"
    using trans [OF A] assms(4) by simp
  moreover have "c d a \<noteq> Greater"
    using trans [OF A(3,2,1)] flip_simps [OF A(1,2)] flip_simps [OF A(2,3)] assms(4) Equal by simp
  ultimately show ?thesis
    using Equal flip_simps [OF A(1,3)] by (cases "c a d") auto
qed

end

lemma ordering_on_subset: "ordering_on A c \<Longrightarrow> B \<subseteq> A \<Longrightarrow> ordering_on B c"
  by (unfold ordering_on_def) (meson subsetD)

lemma ordering_on_cong:
  assumes "ordering_on A c" and "\<And>a b. a \<in> A \<Longrightarrow> b \<in> A \<Longrightarrow> d a b = c a b"
  shows "ordering_on A d"
proof (rule ordering_on.intro)
  fix a b e assume A: "a \<in> A" "b \<in> A" "e \<in> A"
  from ordering_on.trans [OF assms(1) A]
  show "d a b \<noteq> Greater \<Longrightarrow> d b e \<noteq> Greater \<Longrightarrow> d a e \<noteq> Greater"
    unfolding assms(2) [OF A(1,2)] assms(2) [OF A(2,3)] assms(2) [OF A(1,3)] .
next
  fix a b assume A: "a \<in> A" "b \<in> A"
  from ordering_on.flip [OF assms(1) A] show "d b a = reverse_ordering (d a b)"
    by (simp only: assms(2) A)
next
  fix a assume A: "a \<in> A"
  from ordering_on.refl [OF assms(1) A] show "d a a = Equal"
    by (simp only: assms(2) A)
qed

lemma reverse_reverse [simp]: "reverse_ordering (reverse_ordering x) = x"
  by (cases x) simp_all

lemma reverse_ordering_iff [simp]:
  "reverse_ordering x = Equal \<longleftrightarrow> x = Equal" "Equal = reverse_ordering x \<longleftrightarrow> x = Equal"
  "reverse_ordering x = Less \<longleftrightarrow> x = Greater" "reverse_ordering x = Greater \<longleftrightarrow> x = Less"
  by (cases x; simp)+

lemma cmp_iff [simp]:
  "cmp a b = Equal \<longleftrightarrow> a = b" "cmp a b = Less \<longleftrightarrow> a < b" "cmp a b = Greater \<longleftrightarrow> b < a"
  by (auto simp: cmp_def)

lemma cmp_flip: "cmp b a = reverse_ordering (cmp a b)"
  by (auto simp: cmp_def)

lemma ordering_on_cmp: "ordering_on A (\<lambda>a b. cmp (f a) (f b :: 'k::linorder))"
  by unfold_locales (auto intro: cmp_flip)

lemma ordering_on_image:
  assumes "ordering_on B c" and "\<And>a. a \<in> A \<Longrightarrow> f a \<in> B"
  shows "ordering_on A (\<lambda>a b. c (f a) (f b))"
  using assms unfolding ordering_on_def by meson

lemma ordering_on_reverse:
  assumes "ordering_on A c"
  shows "ordering_on A (\<lambda>a b. reverse_ordering (c a b))"
proof (rule ordering_on.intro)
  fix a b d assume A: "a \<in> A" "b \<in> A" "d \<in> A"
  assume "reverse_ordering (c a b) \<noteq> Greater" "reverse_ordering (c b d) \<noteq> Greater"
  then have "c b a \<noteq> Greater" "c d b \<noteq> Greater"
    using ordering_on.flip_simps(1) [OF assms] A by auto
  then have "c d a \<noteq> Greater"
    by (rule ordering_on.trans [OF assms A(3,2,1), rotated])
  then show "reverse_ordering (c a d) \<noteq> Greater"
    using ordering_on.flip_simps(1) [OF assms] A by auto
next
  fix a b assume "a \<in> A" "b \<in> A"
  then show "reverse_ordering (c b a) = reverse_ordering (reverse_ordering (c a b))"
    by (simp only: ordering_on.flip [OF assms, of a b])
qed (simp add: ordering_on.refl [OF assms])

section \<open>Combinators\<close>

lemma then_ordering_simps [simp]:
  "then_ordering Equal b = b" "then_ordering Less b = Less" "then_ordering Greater b = Greater"
  by (simp_all add: then_ordering_def)

lemma ordering_on_then:
  assumes c: "ordering_on A c" and d: "ordering_on A d"
  shows "ordering_on A (\<lambda>a b. then_ordering (c a b) (d a b))"
proof (rule ordering_on.intro)
  fix a b assume A: "a \<in> A" "b \<in> A"
  show "then_ordering (c b a) (d b a) = reverse_ordering (then_ordering (c a b) (d a b))"
    using ordering_on.flip [OF c A] ordering_on.flip [OF d A] by (cases "c a b") simp_all
next
  fix a b e assume A: "a \<in> A" "b \<in> A" "e \<in> A"
  assume ab: "then_ordering (c a b) (d a b) \<noteq> Greater" and be: "then_ordering (c b e) (d b e) \<noteq> Greater"
  then have c_ab: "c a b \<noteq> Greater" and c_be: "c b e \<noteq> Greater"
    by (auto simp: then_ordering_def split: if_splits)
  show "then_ordering (c a e) (d a e) \<noteq> Greater"
  proof (cases "c a b = Less \<or> c b e = Less")
    case True
    then have "c a e = Less"
      using ordering_on.less_trans [OF c A] ordering_on.less_trans' [OF c A] c_ab c_be by blast
    then show ?thesis by simp
  next
    case False
    then have equal: "c a b = Equal" "c b e = Equal"
      using c_ab c_be ordering.exhaust by blast+
    then have "c a e = Equal"
      using ordering_on.equal_trans [OF c A] by simp
    with equal ab be ordering_on.trans [OF d A] show ?thesis by simp
  qed
qed (simp add: ordering_on.refl [OF c] ordering_on.refl [OF d])

text \<open>\<^verbatim>\<open>iter.find(|order| order.is_ne()).unwrap_or(Equal)\<close>.\<close>

definition first_difference :: "ordering list \<Rightarrow> ordering" where
  "first_difference os = (case find (\<lambda>order. order \<noteq> Equal) os of Some order \<Rightarrow> order | None \<Rightarrow> Equal)"

lemma first_difference_simps [simp]:
  "first_difference [] = Equal"
  "first_difference (order # os) = then_ordering order (first_difference os)"
  by (simp_all add: first_difference_def then_ordering_def)

lemma ordering_on_Equal: "ordering_on A (\<lambda>a b. Equal)"
  by unfold_locales simp_all

lemma ordering_on_first_difference:
  "(\<And>k. k \<in> set ks \<Longrightarrow> ordering_on A (c k)) \<Longrightarrow>
    ordering_on A (\<lambda>a b. first_difference (map (\<lambda>k. c k a b) ks))"
  by (induction ks) (auto intro: ordering_on_Equal ordering_on_then)

text \<open>The lexicographic order of two lists, a proper prefix first.\<close>

fun lex_order :: "('a \<Rightarrow> 'a \<Rightarrow> ordering) \<Rightarrow> 'a list \<Rightarrow> 'a list \<Rightarrow> ordering" where
  "lex_order c [] [] = Equal"
| "lex_order c [] (_ # _) = Less"
| "lex_order c (_ # _) [] = Greater"
| "lex_order c (x # xs) (y # ys) = then_ordering (c x y) (lex_order c xs ys)"

lemma ordering_on_lex_order:
  assumes "ordering_on A c"
  shows "ordering_on (lists A) (lex_order c)"
proof (rule ordering_on.intro)
  fix xs assume "xs \<in> lists A"
  then show "lex_order c xs xs = Equal"
    by (induction xs) (simp_all add: ordering_on.refl [OF assms])
next
  fix xs ys assume "xs \<in> lists A" "ys \<in> lists A"
  then show "lex_order c ys xs = reverse_ordering (lex_order c xs ys)"
  proof (induction xs arbitrary: ys)
    case Nil
    then show ?case by (cases ys) simp_all
  next
    case step: (Cons x xs)
    show ?case
    proof (cases ys)
      case (Cons y ys')
      with step have "x \<in> A" "y \<in> A" "xs \<in> lists A" "ys' \<in> lists A"
        by auto
      then show ?thesis
        using ordering_on.flip [OF assms, of x y] step.IH [of ys'] Cons
        by (cases "c x y") auto
    qed simp
  qed
next
  fix xs ys zs assume "xs \<in> lists A" "ys \<in> lists A" "zs \<in> lists A"
    and "lex_order c xs ys \<noteq> Greater" "lex_order c ys zs \<noteq> Greater"
  then show "lex_order c xs zs \<noteq> Greater"
  proof (induction xs arbitrary: ys zs)
    case Nil
    then show ?case by (cases zs) simp_all
  next
    case (Cons x xs)
    from Cons.prems obtain y ys' z zs' where yz: "ys = y # ys'" "zs = z # zs'"
      by (cases ys; cases zs) auto
    have A: "x \<in> A" "y \<in> A" "z \<in> A"
      using Cons.hyps Cons.prems yz by simp_all
    show ?case
    proof (cases "c x y = Equal \<and> c y z = Equal")
      case True
      then have "c x z = Equal"
        using ordering_on.equal_trans [OF assms A] by simp
      moreover have "lex_order c xs zs' \<noteq> Greater"
        by (rule Cons.IH [of ys' zs']) (use True Cons.prems yz in simp_all)
      ultimately show ?thesis using yz by simp
    next
      case False
      with Cons.prems yz have "c x y \<noteq> Greater" "c y z \<noteq> Greater" "c x y = Less \<or> c y z = Less"
        by (auto simp: then_ordering_def split: if_splits) (meson ordering.exhaust)+
      then have "c x z = Less"
        using ordering_on.less_trans [OF assms A] ordering_on.less_trans' [OF assms A] by blast
      with yz show ?thesis by simp
    qed
  qed
qed

section \<open>The order of values\<close>

text \<open>NULL after every other value.\<close>

definition nulls_last :: "('s exec_value \<Rightarrow> 's exec_value \<Rightarrow> ordering) \<Rightarrow> 's exec_value \<Rightarrow> 's exec_value \<Rightarrow> ordering" where
  "nulls_last c a b =
     (if a = VNull \<and> b = VNull then Equal
      else if a = VNull then Greater
      else if b = VNull then Less
      else c a b)"

lemma ordering_on_nulls_last:
  assumes "ordering_on A c"
  shows "ordering_on (insert VNull A) (nulls_last c)"
proof (rule ordering_on.intro)
  fix a b assume "a \<in> insert VNull A" "b \<in> insert VNull A"
  then show "nulls_last c b a = reverse_ordering (nulls_last c a b)"
  proof (cases "a \<noteq> VNull \<and> b \<noteq> VNull")
    case True
    then have "nulls_last c b a = c b a" "nulls_last c a b = c a b"
      by (simp_all add: nulls_last_def)
    moreover have "c b a = reverse_ordering (c a b)"
      by (rule ordering_on.flip [OF assms]) (use True \<open>a \<in> _\<close> \<open>b \<in> _\<close> in simp_all)
    ultimately show ?thesis by simp
  next
    case False
    then show ?thesis by (auto simp: nulls_last_def)
  qed
next
  fix a b d assume "a \<in> insert VNull A" "b \<in> insert VNull A" "d \<in> insert VNull A"
    and "nulls_last c a b \<noteq> Greater" "nulls_last c b d \<noteq> Greater"
  then show "nulls_last c a d \<noteq> Greater"
    using ordering_on.trans [OF assms, of a b d] by (auto simp: nulls_last_def split: if_splits)
qed (auto simp: nulls_last_def ordering_on.refl [OF assms])

text \<open>The order of two values that have one (\<^verbatim>\<open>compare(..).unwrap()\<close>).\<close>

definition value_order :: "'s exec_value \<Rightarrow> 's exec_value \<Rightarrow> ordering" where
  "value_order a b = (case value_compare a b of Inr order \<Rightarrow> order | Inl _ \<Rightarrow> Equal)"

definition typed_values :: "data_type \<Rightarrow> 's exec_value set" where
  "typed_values t = {v. value_matches v t False}"

lemma value_matches_nullable:
  "value_matches v t n \<longleftrightarrow> (v = VNull \<and> n) \<or> value_matches v t False"
  by (cases v) auto

text \<open>Floats are compared by the place of their bits, the two zeros put together.\<close>

definition f64_order_key :: "f64 \<Rightarrow> int" where
  "f64_order_key x = (if is_zero_f64 x then 0 else f64_total_key x)"

lemma f64_order:
  "(if f64_eq a b then Equal else f64_total_cmp a b) = cmp (f64_order_key a) (f64_order_key b)"
  by (auto simp: f64_eq_iff f64_total_cmp_def cmp_def f64_order_key_def f64_total_key_inj f64_total_key_def
      is_zero_f64_def is_nan_def split: if_splits)

definition entry_order :: "('s exec_value \<times> 's exec_value) \<Rightarrow> ('s exec_value \<times> 's exec_value) \<Rightarrow> ordering" where
  "entry_order p q =
     then_ordering (value_order (fst p) (fst q)) (nulls_last value_order (snd p) (snd q))"

lemma compare_entries_Ok:
  assumes "\<And>k v l w. (k, v) \<in> set xs \<Longrightarrow> (l, w) \<in> set ys \<Longrightarrow> value_compare k l = Inr (value_order k l)"
    and "\<And>k v l w. (k, v) \<in> set xs \<Longrightarrow> (l, w) \<in> set ys \<Longrightarrow> v \<noteq> VNull \<Longrightarrow> w \<noteq> VNull \<Longrightarrow>
      value_compare v w = Inr (value_order v w)"
  shows "bind_result (compare_entries is_null value_compare xs ys)
      (\<lambda>result. Inr (if result = Equal then cmp (length xs) (length ys) else result))
    = Inr (lex_order entry_order xs ys)"
  using assms
proof (induction xs arbitrary: ys)
  case Nil
  then show ?case by (cases ys) (simp_all add: cmp_def)
next
  case step: (Cons x xs)
  show ?case
  proof (cases ys)
    case Nil
    then show ?thesis by (simp add: cmp_def)
  next
    case (Cons y zs)
    obtain k v l w where xy: "x = (k, v)" "y = (l, w)" by fastforce
    have key: "value_compare k l = Inr (value_order k l)"
      using step.prems(1) xy Cons by auto
    have val: "v \<noteq> VNull \<Longrightarrow> w \<noteq> VNull \<Longrightarrow> value_compare v w = Inr (value_order v w)"
      using step.prems(2) xy Cons by auto
    have "bind_result (compare_entries is_null value_compare xs zs)
        (\<lambda>result. Inr (if result = Equal then cmp (length xs) (length zs) else result))
      = Inr (lex_order entry_order xs zs)"
    proof (rule step.IH)
      fix k v l w assume mem: "(k, v) \<in> set xs" "(l, w) \<in> set zs"
      with step.prems(1) [of k v l w] Cons show "value_compare k l = Inr (value_order k l)"
        by simp
      assume "v \<noteq> VNull" "w \<noteq> VNull"
      with mem step.prems(2) [of k v l w] Cons show "value_compare v w = Inr (value_order v w)"
        by simp
    qed
    moreover have "cmp (Suc (length xs)) (Suc (length zs)) = cmp (length xs) (length zs)"
      by (simp add: cmp_def)
    ultimately have rest: "bind_result (compare_entries is_null value_compare xs zs)
        (\<lambda>result. Inr (if result = Equal then cmp (length (x # xs)) (length (y # zs)) else result))
      = Inr (lex_order entry_order xs zs)"
      by (simp del: bind_result_eq_Inr cong: if_cong)
    show ?thesis
    proof (cases "value_order k l = Equal")
      case False
      then show ?thesis
        by (simp add: Cons xy key entry_order_def then_ordering_def)
    next
      case equal: True
      define o' where "o' = nulls_last value_order v w"
      have val': "(case (is_null v, is_null w) of
            (True, True) \<Rightarrow> Inr Equal | (True, False) \<Rightarrow> Inr Greater
          | (False, True) \<Rightarrow> Inr Less | (False, False) \<Rightarrow> value_compare v w) = Inr o'"
        using val by (simp add: o'_def nulls_last_def)
      have "entry_order x y = o'"
        by (simp add: xy entry_order_def equal o'_def)
      moreover have "compare_entries is_null value_compare (x # xs) (y # zs)
          = (if o' \<noteq> Equal then Inr o' else compare_entries is_null value_compare xs zs)"
        using val' by (simp add: xy key equal)
      ultimately show ?thesis
        using rest
        by (cases "o' = Equal") (simp_all add: Cons then_ordering_def del: bind_result_eq_Inr compare_entries.simps is_null_iff cong: if_cong)
    qed
  qed
qed

lemma value_order_Ok: "value_compare a b = Inr order \<Longrightarrow> value_compare a b = Inr (value_order a b)"
  by (simp add: value_order_def)

lemma typed_values_iff:
  "v \<in> typed_values NullType \<longleftrightarrow> v = VNull"
  "v \<in> typed_values Int64Type \<longleftrightarrow> (\<exists>x. v = VInt64 x)"
  "v \<in> typed_values TimestampType \<longleftrightarrow> (\<exists>x. v = VTimestamp x)"
  "v \<in> typed_values DateType \<longleftrightarrow> (\<exists>x. v = VDate x)"
  "v \<in> typed_values Float64Type \<longleftrightarrow> (\<exists>x. v = VFloat64 x)"
  "v \<in> typed_values Utf8Type \<longleftrightarrow> (\<exists>x. v = VUtf8 x)"
  "v \<in> typed_values BoolType \<longleftrightarrow> (\<exists>x. v = VBool x)"
  by (cases v; simp add: typed_values_def)+

lemma typed_ordered_key:
  fixes f :: "'s exec_value \<Rightarrow> 'k::linorder"
  assumes "\<And>a b. a \<in> typed_values t \<Longrightarrow> b \<in> typed_values t \<Longrightarrow> value_compare a b = Inr (cmp (f a) (f b))"
  shows "(\<forall>a \<in> (typed_values t :: 's exec_value set). \<forall>b \<in> typed_values t. value_compare a b = Inr (value_order a b))
    \<and> ordering_on (typed_values t :: 's exec_value set) value_order"
proof (intro conjI ballI)
  show "ordering_on (typed_values t :: 's exec_value set) value_order"
    by (rule ordering_on_cong [OF ordering_on_cmp [where f = f]]) (simp add: value_order_def assms)
qed (rule value_order_Ok [OF assms])

lemma typed_ordered:
  fixes t :: data_type
  assumes "ordered t"
  shows "(\<forall>a \<in> (typed_values t :: 's exec_value set). \<forall>b \<in> typed_values t. value_compare a b = Inr (value_order a b))
    \<and> ordering_on (typed_values t :: 's exec_value set) value_order"
  using assms
proof (induction t)
  case (MapType key val n)
  let ?K = "typed_values key :: 's exec_value set" and ?V = "typed_values val :: 's exec_value set"
  let ?E = "?K \<times> insert VNull ?V"
  have K: "\<forall>a \<in> ?K. \<forall>b \<in> ?K. value_compare a b = Inr (value_order a b)" "ordering_on ?K value_order"
    and V: "\<forall>a \<in> ?V. \<forall>b \<in> ?V. value_compare a b = Inr (value_order a b)" "ordering_on ?V value_order"
    using MapType by simp_all
  have shape: "\<exists>kvs. v = VMap kvs \<and> kvs \<in> lists ?E" if "v \<in> typed_values (MapType key val n)" for v
    using that by (cases v) (auto simp: typed_values_def list_all_iff value_matches_nullable [of _ val n])
  have compare: "value_compare (VMap xs) (VMap ys) = Inr (lex_order entry_order xs ys)"
    if "xs \<in> lists ?E" "ys \<in> lists ?E" for xs ys
  proof -
    have "value_compare k l = Inr (value_order k l)" "v \<noteq> VNull \<Longrightarrow> w \<noteq> VNull \<Longrightarrow> value_compare v w = Inr (value_order v w)"
      if "(k, v) \<in> set xs" "(l, w) \<in> set ys" for k v l w
    proof -
      have "(k, v) \<in> ?E" "(l, w) \<in> ?E"
        using that \<open>xs \<in> lists ?E\<close> \<open>ys \<in> lists ?E\<close> by (simp_all only: in_lists_conv_set)
      then show "value_compare k l = Inr (value_order k l)"
        "v \<noteq> VNull \<Longrightarrow> w \<noteq> VNull \<Longrightarrow> value_compare v w = Inr (value_order v w)"
        using K(1) V(1) by simp_all
    qed
    then show ?thesis
      using compare_entries_Ok [of xs ys] by (simp del: bind_result_eq_Inr)
  qed
  have "ordering_on ?E (entry_order)"
    unfolding entry_order_def
    by (rule ordering_on_then; rule ordering_on_image [OF K(2)] ordering_on_image [OF ordering_on_nulls_last [OF V(2)]]; auto)
  then have lex: "ordering_on (lists ?E) (lex_order entry_order)"
    by (rule ordering_on_lex_order)
  let ?kvs = "\<lambda>v :: 's exec_value. (case v of VMap kvs \<Rightarrow> kvs | _ \<Rightarrow> [])"
  have order: "value_compare a b = Inr (lex_order entry_order (?kvs a) (?kvs b))"
    if "a \<in> typed_values (MapType key val n)" "b \<in> typed_values (MapType key val n)" for a b
  proof -
    from shape [OF that(1)] shape [OF that(2)]
    obtain xs ys where "a = VMap xs" "xs \<in> lists ?E" "b = VMap ys" "ys \<in> lists ?E"
      by blast
    then show ?thesis
      using compare by (simp del: value_compare.simps)
  qed
  then have "value_order a b = lex_order entry_order (?kvs a) (?kvs b)"
    if "a \<in> typed_values (MapType key val n)" "b \<in> typed_values (MapType key val n)" for a b
    using that by (simp add: value_order_def)
  moreover have "ordering_on (typed_values (MapType key val n))
      (\<lambda>a b. lex_order entry_order (?kvs a) (?kvs b))"
    by (rule ordering_on_image [OF lex]) (use shape in force)
  ultimately have "ordering_on (typed_values (MapType key val n) :: 's exec_value set) value_order"
    by (rule ordering_on_cong [rotated])
  moreover have "value_compare a b = Inr (value_order a b)"
    if "a \<in> typed_values (MapType key val n)" "b \<in> typed_values (MapType key val n)" for a b :: "'s exec_value"
    by (rule value_order_Ok [OF order [OF that]])
  ultimately show ?case by blast
next
  case NullType
  show ?case
    by (rule typed_ordered_key [where f = "\<lambda>v. 0 :: nat"]) (auto simp: typed_values_iff cmp_def)
next
  case Int64Type
  show ?case
    by (rule typed_ordered_key [where f = "\<lambda>v. case v of VInt64 x \<Rightarrow> sint x | _ \<Rightarrow> undefined"])
      (auto simp only: typed_values_iff value_compare.simps exec_value.case f64_order)
next
  case TimestampType
  show ?case
    by (rule typed_ordered_key [where f = "\<lambda>v. case v of VTimestamp x \<Rightarrow> sint x | _ \<Rightarrow> undefined"])
      (auto simp only: typed_values_iff value_compare.simps exec_value.case f64_order)
next
  case DateType
  show ?case
    by (rule typed_ordered_key [where f = "\<lambda>v. case v of VDate x \<Rightarrow> sint x | _ \<Rightarrow> undefined"])
      (auto simp only: typed_values_iff value_compare.simps exec_value.case f64_order)
next
  case Float64Type
  show ?case
    by (rule typed_ordered_key [where f = "\<lambda>v. case v of VFloat64 x \<Rightarrow> f64_order_key x | _ \<Rightarrow> undefined"])
      (auto simp only: typed_values_iff value_compare.simps exec_value.case f64_order)
next
  case Utf8Type
  show ?case
    by (rule typed_ordered_key [where f = "\<lambda>v. case v of VUtf8 x \<Rightarrow> x | _ \<Rightarrow> undefined"])
      (auto simp only: typed_values_iff value_compare.simps exec_value.case f64_order)
next
  case BoolType
  show ?case
    by (rule typed_ordered_key [where f = "\<lambda>v. case v of VBool x \<Rightarrow> x | _ \<Rightarrow> undefined"])
      (auto simp only: typed_values_iff value_compare.simps exec_value.case f64_order)
qed simp_all

end
