(* ===== verification/ExecSort.thy ===== *)
theory ExecSort
  imports ExecOrder "HOL-Library.Multiset"
begin

text \<open>
  The row order of the \<^verbatim>\<open>Sort\<close> operator (\<^verbatim>\<open>executor/src/operators/sort.rs\<close>): the comparison of one sort
  key, and the cooperative merge sort, which sorts chunks of 256 rows and merges adjacent runs in
  rounds.
\<close>

section \<open>One sort key\<close>

record sort_key =
  key_column :: nat
  descending :: bool
  nulls_first :: bool

text \<open>
  \<^verbatim>\<open>compare_key\<close>; \<open>None\<close> is the panic of \<^verbatim>\<open>expect("bound ordered types")\<close>.
\<close>

definition compare_key :: "'s exec_value \<Rightarrow> 's exec_value \<Rightarrow> sort_key \<Rightarrow> ordering option" where
  "compare_key a b key =
     (case (a, b) of
        (VNull, VNull) \<Rightarrow> Some Equal
      | (VNull, _) \<Rightarrow> Some (if nulls_first key then Less else Greater)
      | (_, VNull) \<Rightarrow> Some (if nulls_first key then Greater else Less)
      | _ \<Rightarrow>
        (case (a, b) of
           (VFloat64 x, VFloat64 y) \<Rightarrow>
             if is_nan x \<or> is_nan y then
               Some (case (is_nan x, is_nan y) of
                   (True, True) \<Rightarrow> Equal
                 | (True, False) \<Rightarrow> Greater
                 | _ \<Rightarrow> Less)
             else map_option (\<lambda>order. if descending key then reverse_ordering order else order)
               (case value_compare a b of Inr order \<Rightarrow> Some order | Inl _ \<Rightarrow> None)
         | _ \<Rightarrow>
             map_option (\<lambda>order. if descending key then reverse_ordering order else order)
               (case value_compare a b of Inr order \<Rightarrow> Some order | Inl _ \<Rightarrow> None)))"

text \<open>\<^verbatim>\<open>nested_nan\<close>.\<close>

fun nested_nan :: "'s exec_value \<Rightarrow> bool" where
  "nested_nan (VFloat64 x) = is_nan x"
| "nested_nan (VMap kvs) = list_ex (\<lambda>(k, v). nested_nan k \<or> nested_nan v) kvs"
| "nested_nan (VList vs) = list_ex nested_nan vs"
| "nested_nan (VStruct vs) = list_ex nested_nan vs"
| "nested_nan _ = False"

text \<open>
  The order \<open>compare_key\<close> gives the values of an ordered type: by NULL, then by NaN, then by the
  direction of the key.
\<close>

definition canonical_nan :: "'s exec_value \<Rightarrow> 's exec_value" where
  "canonical_nan v = (case v of VFloat64 x \<Rightarrow> VFloat64 (if is_nan x then f64_nan else x) | _ \<Rightarrow> v)"

definition is_nan_value :: "'s exec_value \<Rightarrow> bool" where
  "is_nan_value v \<longleftrightarrow> (case v of VFloat64 x \<Rightarrow> is_nan x | _ \<Rightarrow> False)"

definition key_order :: "sort_key \<Rightarrow> 's exec_value \<Rightarrow> 's exec_value \<Rightarrow> ordering" where
  "key_order key a b =
     then_ordering (cmp (is_null a \<noteq> nulls_first key) (is_null b \<noteq> nulls_first key))
       (then_ordering (cmp (is_nan_value a) (is_nan_value b))
         (if descending key then reverse_ordering (nulls_last value_order (canonical_nan a) (canonical_nan b))
          else nulls_last value_order (canonical_nan a) (canonical_nan b)))"

lemma canonical_nan_typed: "value_matches (canonical_nan v) t n = value_matches v t n"
  by (cases v) (simp_all add: canonical_nan_def)

lemma ordering_on_key_order:
  assumes "ordered t"
  shows "ordering_on {v. value_matches v t n} (key_order key :: 's exec_value \<Rightarrow> _)"
proof -
  have order: "ordering_on (typed_values t :: 's exec_value set) value_order"
    using typed_ordered [OF assms] by blast
  have "ordering_on {v. value_matches v t n}
      (\<lambda>a b. nulls_last value_order (canonical_nan a) (canonical_nan b :: 's exec_value))"
  proof (rule ordering_on_image [OF ordering_on_nulls_last [OF order]])
    fix a :: "'s exec_value"
    assume "a \<in> {v. value_matches v t n}"
    then have "value_matches (canonical_nan a) t n"
      by (simp add: canonical_nan_typed)
    then show "canonical_nan a \<in> insert VNull (typed_values t)"
      by (simp add: typed_values_def value_matches_nullable [of _ t n]) blast
  qed
  then show ?thesis
    unfolding key_order_def
    by (cases "descending key") (auto intro!: ordering_on_then ordering_on_cmp ordering_on_reverse)
qed

text \<open>The order meets the contract on the values of every type a sort key may have.\<close>

interpretation key_laws: ordering_on "{v. ordered t \<and> value_matches v t n}" "key_order key" for t n key
proof (cases "ordered t")
  case True
  then show "ordering_on {v. ordered t \<and> value_matches v t n} (key_order key)"
    using ordering_on_key_order [OF True, of n key] by simp
qed (simp add: ordering_on_def)

lemma not_float:
  "\<nexists>x. v = VFloat64 x \<Longrightarrow> is_nan_value v = False"
  "\<nexists>x. v = VFloat64 x \<Longrightarrow> canonical_nan v = v"
  by (cases v; simp add: is_nan_value_def canonical_nan_def)+

lemma compare_key_not_float:
  "a \<noteq> VNull \<Longrightarrow> b \<noteq> VNull \<Longrightarrow> \<nexists>x. a = VFloat64 x \<Longrightarrow>
    compare_key a b key = map_option (\<lambda>order. if descending key then reverse_ordering order else order)
      (case value_compare a b of Inr order \<Rightarrow> Some order | Inl _ \<Rightarrow> None)"
  by (cases a; cases b) (simp_all add: compare_key_def del: value_compare.simps)

lemma compare_key_order:
  fixes a b :: "'s exec_value"
  assumes "ordered t" and "value_matches a t n" and "value_matches b t n"
  shows "compare_key a b key = Some (key_order key a b)"
proof (cases "a = VNull \<or> b = VNull")
  case True
  have [simp]: "is_nan_value VNull = False" "canonical_nan VNull = VNull"
    by (simp_all add: is_nan_value_def canonical_nan_def)
  from True show ?thesis
    by (cases a; cases b; cases "nulls_first key")
      (simp_all add: compare_key_def key_order_def nulls_last_def cmp_def then_ordering_def)
next
  case False
  then have "a \<in> typed_values t" "b \<in> typed_values t"
    using assms(2,3) by (simp_all add: typed_values_def value_matches_nullable [of _ t n])
  then have order: "value_compare a b = Inr (value_order a b)"
    using typed_ordered [OF assms(1)] by blast
  show ?thesis
  proof (cases "\<exists>x. a = VFloat64 x")
    case True
    then obtain x y where floats: "a = VFloat64 x" "b = VFloat64 y"
      using assms False by (cases t; cases b) auto
    have "\<not> f64_eq f64_nan f64_nan"
      by (simp add: f64_eq_def)
    then have nan: "value_order (VFloat64 f64_nan) (VFloat64 f64_nan :: 's exec_value) = Equal"
      by (simp add: value_order_def f64_total_cmp_Equal)
    show ?thesis
      using order nan
      by (simp add: floats compare_key_def key_order_def is_nan_value_def canonical_nan_def
          nulls_last_def cmp_def del: value_compare.simps split: bool.splits)
  next
    case other: False
    have "\<nexists>y. b = VFloat64 y"
    proof
      assume "\<exists>y. b = VFloat64 y"
      then have "t = Float64Type"
        using assms(3) by auto
      with assms(2) False other show False
        by (cases a) simp_all
    qed
    with other False order show ?thesis
      by (simp add: compare_key_not_float not_float key_order_def nulls_last_def cmp_def)
  qed
qed

text \<open>
  C29: on the values of a column whose type a sort key may have, the comparison of a sort key never
  panics, and it is a total preorder, which is what a sort needs of it: for NULLs, NaN, both zeros
  and maps alike.
\<close>

theorem compare_key_total:
  assumes "ordered t"
  shows "(\<forall>a b :: 's exec_value. value_matches a t n \<longrightarrow> value_matches b t n \<longrightarrow> compare_key a b key \<noteq> None)
    \<and> ordering_on {v :: 's exec_value. value_matches v t n} (\<lambda>a b. the (compare_key a b key))"
proof
  show "ordering_on {v :: 's exec_value. value_matches v t n} (\<lambda>a b. the (compare_key a b key))"
    by (rule ordering_on_cong [OF ordering_on_key_order [OF assms, where key = key]])
      (simp add: compare_key_order [OF assms])
qed (simp add: compare_key_order [OF assms])

theorem compare_key_total_witness:
  "compare_key (VMap [(VUtf8 ''a'', VFloat64 f64_one)]) (VMap [(VUtf8 ''a'', VNull :: unit exec_value)])
     \<lparr>key_column = 0, descending = True, nulls_first = False\<rparr> \<noteq> None"
proof -
  have "ordered (MapType Utf8Type Float64Type True)"
    by simp
  from compare_key_total [OF this, where n = False and ?'s = unit] show ?thesis
    by simp
qed

section \<open>The cooperative merge sort\<close>

text \<open>
  \<^verbatim>\<open>slice::sort_by\<close> of the standard library, a stable sort: each row goes before the first row it
  does not come after.
\<close>

fun insert_stable :: "('a \<Rightarrow> 'a \<Rightarrow> ordering) \<Rightarrow> 'a \<Rightarrow> 'a list \<Rightarrow> 'a list" where
  "insert_stable c x [] = [x]"
| "insert_stable c x (y # ys) =
     (if c x y = Greater then y # insert_stable c x ys else x # y # ys)"

definition stable_sort :: "('a \<Rightarrow> 'a \<Rightarrow> ordering) \<Rightarrow> 'a list \<Rightarrow> 'a list" where
  "stable_sort c xs = foldr (insert_stable c) xs []"

text \<open>The first loop: chunks of at most \<open>n\<close> rows.\<close>

function chunks :: "nat \<Rightarrow> 'a list \<Rightarrow> 'a list list" where
  "chunks n xs = (if xs = [] \<or> n = 0 then [] else take n xs # chunks n (drop n xs))"
  by pat_completeness auto
termination by (relation "measure (\<lambda>(n, xs). length xs)") auto

declare chunks.simps [simp del]

text \<open>The merge of two runs: the left row unless it comes after the right one.\<close>

fun merge_runs :: "('a \<Rightarrow> 'a \<Rightarrow> ordering) \<Rightarrow> 'a list \<Rightarrow> 'a list \<Rightarrow> 'a list" where
  "merge_runs c (x # xs) (y # ys) =
     (if c x y \<noteq> Greater then x # merge_runs c xs (y # ys) else y # merge_runs c (x # xs) ys)"
| "merge_runs c xs [] = xs"
| "merge_runs c [] ys = ys"

text \<open>One round merges adjacent runs; a last odd run is kept.\<close>

fun merge_round :: "('a \<Rightarrow> 'a \<Rightarrow> ordering) \<Rightarrow> 'a list list \<Rightarrow> 'a list list" where
  "merge_round c (left # right # runs) = merge_runs c left right # merge_round c runs"
| "merge_round c runs = runs"

lemma length_merge_round [simp]: "length (merge_round c runs) = (length runs + 1) div 2"
  by (induction c runs rule: merge_round.induct) simp_all

function merge_rounds :: "('a \<Rightarrow> 'a \<Rightarrow> ordering) \<Rightarrow> 'a list list \<Rightarrow> 'a list list" where
  "merge_rounds c runs = (if 1 < length runs then merge_rounds c (merge_round c runs) else runs)"
  by pat_completeness auto
termination by (relation "measure (\<lambda>(c, runs). length runs)") auto

declare merge_rounds.simps [simp del]

text \<open>
  \<^verbatim>\<open>cooperative_sort\<close>. The run's answers are arguments: \<open>reserve n\<close> is whether a reservation of \<open>n\<close>
  bytes is granted, \<open>cancelled\<close> whether the run is cancelled (read at every checkpoint). \<open>row_size\<close>
  and \<open>deque_size\<close> are the \<^verbatim>\<open>size_of\<close> of a row and of a \<^verbatim>\<open>VecDeque\<close>.
\<close>

definition cooperative_sort ::
  "(nat \<Rightarrow> bool) \<Rightarrow> bool \<Rightarrow> nat \<Rightarrow> nat \<Rightarrow> 'a list \<Rightarrow> ('a \<Rightarrow> 'a \<Rightarrow> ordering) \<Rightarrow> 'a list exec_result" where
  "cooperative_sort reserve cancelled row_size deque_size rows c =
     (case Option.bind (checked_mul_u64 (length rows) (row_size + deque_size))
             (\<lambda>n. checked_mul_u64 n 3) of
        None \<Rightarrow> Err MemoryLimit
      | Some bytes \<Rightarrow>
          if \<not> reserve bytes then Err MemoryLimit
          else if cancelled then Err Cancelled
          else Ok (case merge_rounds c (map (stable_sort c) (chunks 256 rows)) of
                     [] \<Rightarrow> []
                   | run # _ \<Rightarrow> run))"

section \<open>The merge sort is the stable sort\<close>

lemma chunks_simps:
  "chunks n [] = []"
  "0 < n \<Longrightarrow> xs \<noteq> [] \<Longrightarrow> chunks n xs = take n xs # chunks n (drop n xs)"
  by (simp_all add: chunks.simps)

lemma concat_chunks: "0 < n \<Longrightarrow> concat (chunks n xs) = xs"
  by (induction n xs rule: chunks.induct) (subst chunks.simps, simp)

lemma set_stable_sort [simp]: "set (stable_sort c xs) = set xs"
proof -
  have "set (insert_stable c x ys) = insert x (set ys)" for x ys
    by (induction ys) auto
  then have "set (foldr (insert_stable c) xs ys) = set xs \<union> set ys" for ys
    by (induction xs) auto
  then show ?thesis by (simp add: stable_sort_def)
qed

text \<open>Every row goes before, or level with, the rows behind it.\<close>

abbreviation in_order :: "('a \<Rightarrow> 'a \<Rightarrow> ordering) \<Rightarrow> 'a list \<Rightarrow> bool" where
  "in_order c \<equiv> sorted_wrt (\<lambda>a b. c a b \<noteq> Greater)"

context ordering_on
begin

lemma insert_stable_in_order:
  "in_order c ys \<Longrightarrow> x \<in> A \<Longrightarrow> set ys \<subseteq> A \<Longrightarrow> in_order c (insert_stable c x ys) \<and> set (insert_stable c x ys) = insert x (set ys)"
proof (induction ys)
  case Nil
  then show ?case by simp
next
  case (Cons y ys)
  show ?case
  proof (cases "c x y = Greater")
    case True
    then have "c y x \<noteq> Greater"
      using flip_simps(1) [of x y] Cons.prems by auto
    with True Cons show ?thesis by auto
  next
    case False
    have "c x z \<noteq> Greater" if "z \<in> set ys" for z
      using trans [of x y z] that False Cons.prems by auto
    with False Cons.prems show ?thesis by auto
  qed
qed

lemma stable_sort_in_order: "set xs \<subseteq> A \<Longrightarrow> in_order c (stable_sort c xs)"
proof (induction xs)
  case (Cons x xs)
  then have "in_order c (insert_stable c x (stable_sort c xs))"
    using insert_stable_in_order [of "stable_sort c xs" x] by simp
  then show ?case by (simp add: stable_sort_def)
qed (simp add: stable_sort_def)

text \<open>Inserting into the left run and merging is merging and inserting.\<close>

lemma merge_singleton: "merge_runs c [x] ys = insert_stable c x ys"
  by (induction ys) (auto split: list.splits)

lemma merge_insert_stable:
  assumes "in_order c xs" and "in_order c ys" and "x \<in> A" "set xs \<subseteq> A" "set ys \<subseteq> A"
  shows "merge_runs c (insert_stable c x xs) ys = insert_stable c x (merge_runs c xs ys)"
  using assms
proof (induction d \<equiv> c xs ys rule: merge_runs.induct)
  case (1 l ls r rs)
  have A: "l \<in> A" "r \<in> A" "x \<in> A"
    using "1.prems" by auto
  show ?case
  proof (cases "c x l = Greater")
    case x_l: True
    show ?thesis
    proof (cases "c l r = Greater")
      case True
      then have "c x r = Greater"
        using less_trans [OF A(2,1,3)] flip_simps [OF A(1,2)] flip_simps [OF A(3,1)] flip_simps [OF A(3,2)] x_l
        by simp
      with True x_l 1 show ?thesis by simp
    next
      case False
      with x_l 1 show ?thesis by simp
    qed
  next
    case x_l: False
    show ?thesis
    proof (cases "c x r = Greater")
      case True
      then have "c l r = Greater"
        using less_trans [OF A(2,3,1)] flip_simps [OF A(1,2)] flip_simps [OF A(3,2)] x_l by simp
      with True x_l 1 show ?thesis by simp
    next
      case False
      with x_l show ?thesis by simp
    qed
  qed
next
  case (2 xs)
  then show ?case by simp
next
  case (3 r rs)
  then show ?case by (simp add: merge_singleton)
qed

lemma merge_stable_sort:
  assumes "set xs \<subseteq> A" and "set ys \<subseteq> A"
  shows "merge_runs c (stable_sort c xs) (stable_sort c ys) = stable_sort c (xs @ ys)"
  using assms(1)
proof (induction xs)
  case Nil
  show ?case by (cases "stable_sort c ys") (simp_all add: stable_sort_def)
next
  case (Cons x xs)
  then have "merge_runs c (insert_stable c x (stable_sort c xs)) (stable_sort c ys)
      = insert_stable c x (stable_sort c (xs @ ys))"
    using merge_insert_stable [of "stable_sort c xs" "stable_sort c ys" x] stable_sort_in_order assms(2)
    by simp
  then show ?case by (simp add: stable_sort_def)
qed

text \<open>A round keeps the runs sorted chunks of the input.\<close>

lemma merge_round_stable_sort:
  "set (concat xss) \<subseteq> A \<Longrightarrow>
    \<exists>yss. merge_round c (map (stable_sort c) xss) = map (stable_sort c) yss \<and> concat yss = concat xss"
proof (induction d \<equiv> c xss rule: merge_round.induct)
  case (1 left right runs)
  then obtain yss where "merge_round c (map (stable_sort c) runs) = map (stable_sort c) yss"
    "concat yss = concat runs"
    by auto
  with 1 show ?case
    by (intro exI [of _ "(left @ right) # yss"]) (simp add: merge_stable_sort)
qed (simp, rule exI [of _ "[run]" for run], simp)

lemma merge_rounds_stable_sort:
  "set (concat xss) \<subseteq> A \<Longrightarrow>
    \<exists>yss. merge_rounds c (map (stable_sort c) xss) = map (stable_sort c) yss \<and> concat yss = concat xss
      \<and> length yss \<le> 1"
proof (induction "length xss" arbitrary: xss rule: less_induct)
  case less
  show ?case
  proof (cases "1 < length xss")
    case True
    obtain yss where yss: "merge_round c (map (stable_sort c) xss) = map (stable_sort c) yss"
      "concat yss = concat xss"
      using merge_round_stable_sort less.prems by blast
    have "length yss < length xss"
      using arg_cong [OF yss(1), of length] True by simp
    from less.hyps [OF this] yss less.prems True show ?thesis
      by (subst merge_rounds.simps) simp
  next
    case False
    then show ?thesis
      by (intro exI [of _ xss]) (subst merge_rounds.simps, simp)
  qed
qed

lemma stable_sort_filter:
  assumes "x \<in> A" and "set xs \<subseteq> A"
  shows "filter (\<lambda>y. c x y = Equal) (stable_sort c xs) = filter (\<lambda>y. c x y = Equal) xs"
  using assms(2)
proof (induction xs)
  case (Cons z xs)
  have insert: "filter (\<lambda>y. c x y = Equal) (insert_stable c z ys)
      = (if c x z = Equal then z # filter (\<lambda>y. c x y = Equal) ys else filter (\<lambda>y. c x y = Equal) ys)"
    if "set ys \<subseteq> A" for ys
    using that
  proof (induction ys)
    case (Cons y ys)
    have "c z y = Equal" if "c x z = Equal" "c x y = Equal"
      using that Cons.prems \<open>set (z # xs) \<subseteq> A\<close> assms(1) equal_trans [of x z y] by simp
    with Cons show ?case by auto
  qed simp
  show ?case
    using Cons insert [of "stable_sort c xs"] by (simp add: stable_sort_def [of c "z # xs"] flip: stable_sort_def)
qed (simp add: stable_sort_def)

end

lemma mset_stable_sort: "mset (stable_sort c xs) = mset xs"
proof -
  have "mset (insert_stable c x ys) = add_mset x (mset ys)" for x ys
    by (induction ys) auto
  then show ?thesis
    by (induction xs) (simp_all add: stable_sort_def)
qed

lemma merge_rounds_chunks:
  assumes "ordering_on (set rows) c"
  shows "(case merge_rounds c (map (stable_sort c) (chunks 256 rows)) of [] \<Rightarrow> [] | run # _ \<Rightarrow> run)
    = stable_sort c rows"
proof -
  have "set (concat (chunks 256 rows)) \<subseteq> set rows"
    by (simp add: concat_chunks)
  from ordering_on.merge_rounds_stable_sort [OF assms this]
  obtain yss where yss: "merge_rounds c (map (stable_sort c) (chunks 256 rows)) = map (stable_sort c) yss"
    "concat yss = rows" "length yss \<le> 1"
    by (auto simp: concat_chunks)
  then show ?thesis
    by (cases yss) (auto simp: stable_sort_def)
qed

text \<open>
  C30: the cooperative sort, on rows whose comparison is a total preorder, is the stable sort,
  whatever the number of runs and rounds: a permutation of the rows, in order, ties in the order
  they came in; it fails only when its scratch memory overflows or is refused, or when the run is
  cancelled.
\<close>

theorem cooperative_sort_stable:
  assumes "ordering_on (set rows) c"
  shows "cooperative_sort reserve cancelled row_size deque_size rows c =
      (if u64_max < length rows * (row_size + deque_size) * 3
          \<or> \<not> reserve (length rows * (row_size + deque_size) * 3) then Err MemoryLimit
       else if cancelled then Err Cancelled
       else Ok (stable_sort c rows))
    \<and> mset (stable_sort c rows) = mset rows
    \<and> in_order c (stable_sort c rows)
    \<and> (\<forall>x \<in> set rows. filter (\<lambda>y. c x y = Equal) (stable_sort c rows) = filter (\<lambda>y. c x y = Equal) rows)"
proof -
  let ?n = "length rows * (row_size + deque_size)"
  have "cooperative_sort reserve cancelled row_size deque_size rows c =
      (if u64_max < ?n * 3 \<or> \<not> reserve (?n * 3) then Err MemoryLimit
       else if cancelled then Err Cancelled else Ok (stable_sort c rows))"
    unfolding cooperative_sort_def merge_rounds_chunks [OF assms]
    by (auto simp: checked_mul_u64_def)
  then show ?thesis
    using ordering_on.stable_sort_in_order [OF assms] ordering_on.stable_sort_filter [OF assms]
    by (simp add: mset_stable_sort)
qed

theorem cooperative_sort_stable_witness:
  "cooperative_sort (\<lambda>_. True) False 4 32 [5, 3, 4, 3 :: int] (\<lambda>a b. cmp (a div 2) (b div 2))
    = Ok [3, 3, 5, 4]"
proof -
  have "stable_sort (\<lambda>a b. cmp (a div 2) (b div 2)) [5, 3, 4, 3 :: int] = [3, 3, 5, 4]"
    by (simp add: stable_sort_def cmp_def)
  with cooperative_sort_stable [OF ordering_on_cmp [of "set [5, 3, 4, 3 :: int]" "\<lambda>a. a div 2"],
      of "\<lambda>_. True" False 4 32] show ?thesis
    by (simp add: u64_max_def)
qed

end
