(* ===== verification/GroupTable.thy ===== *)
theory GroupTable
  imports ExecSort
begin

text \<open>
  Batches as the executor reads them, and the group numbers of grouped operators
  (\<^verbatim>\<open>executor/src/operators/group_table.rs\<close>). Arrow arrays are the lists of their cells; the state
  columns of a batch are shared untouched by the operators modelled here and have no field.
\<close>

section \<open>Traversals that can fail and thread a state\<close>

fun try_map :: "('a \<Rightarrow> 's \<Rightarrow> ('b \<times> 's) exec_result) \<Rightarrow> 'a list \<Rightarrow> 's \<Rightarrow> ('b list \<times> 's) exec_result" where
  "try_map f [] s = Ok ([], s)"
| "try_map f (x # xs) s =
     bind_result (f x s) (\<lambda>(y, s1). bind_result (try_map f xs s1) (\<lambda>(ys, s2). Ok (y # ys, s2)))"

section \<open>Batches\<close>

text \<open>
  The Arrow arrays of batch columns: text is one key per row into distinct texts; the arrays of the
  types whose cells are read through \<^verbatim>\<open>decode\<close> (Null, Date, Interval and the nested types) are given
  by the values it returns.
\<close>

datatype 's array =
    DictionaryArray "nat option list" "string list"
  | Int64Array "64 word option list"
  | TimestampArray "64 word option list"
  | Float64Array "f64 option list"
  | BooleanArray "bool option list"
  | DecodedArray "'s exec_value list"

definition cell_value :: "('a \<Rightarrow> 's exec_value) \<Rightarrow> 'a option \<Rightarrow> 's exec_value" where
  "cell_value value cell = (case cell of None \<Rightarrow> VNull | Some v \<Rightarrow> value v)"

text \<open>\<^verbatim>\<open>arrow_columns::decode\<close> of a batch column.\<close>

fun decode :: "'s array \<Rightarrow> 's exec_value list" where
  "decode (DictionaryArray keys texts) = map (cell_value (\<lambda>entry. VUtf8 (texts ! entry))) keys"
| "decode (Int64Array cells) = map (cell_value VInt64) cells"
| "decode (TimestampArray cells) = map (cell_value VTimestamp) cells"
| "decode (Float64Array cells) = map (cell_value VFloat64) cells"
| "decode (BooleanArray cells) = map (cell_value VBool) cells"
| "decode (DecodedArray values) = values"

text \<open>\<^verbatim>\<open>arrow_type\<close>: the layout of a batch column of a type.\<close>

definition has_layout :: "'s array \<Rightarrow> data_type \<Rightarrow> bool" where
  "has_layout array t =
     (case (t, array) of
        (Utf8Type, DictionaryArray keys texts) \<Rightarrow>
          list_all (\<lambda>key. case key of None \<Rightarrow> True | Some entry \<Rightarrow> entry < length texts) keys
      | (Int64Type, Int64Array _) \<Rightarrow> True
      | (TimestampType, TimestampArray _) \<Rightarrow> True
      | (Float64Type, Float64Array _) \<Rightarrow> True
      | (BoolType, BooleanArray _) \<Rightarrow> True
      | (Utf8Type, _) \<Rightarrow> False
      | (Int64Type, _) \<Rightarrow> False
      | (TimestampType, _) \<Rightarrow> False
      | (Float64Type, _) \<Rightarrow> False
      | (BoolType, _) \<Rightarrow> False
      | (_, DecodedArray values) \<Rightarrow> list_all (\<lambda>v. value_matches v t True) values
      | _ \<Rightarrow> False)"

text \<open>\<^verbatim>\<open>array.slice(offset, length)\<close>: a dictionary slice keeps the whole dictionary.\<close>

fun array_slice :: "nat \<Rightarrow> nat \<Rightarrow> 's array \<Rightarrow> 's array" where
  "array_slice offset len (DictionaryArray keys texts) = DictionaryArray (take len (drop offset keys)) texts"
| "array_slice offset len (Int64Array cells) = Int64Array (take len (drop offset cells))"
| "array_slice offset len (TimestampArray cells) = TimestampArray (take len (drop offset cells))"
| "array_slice offset len (Float64Array cells) = Float64Array (take len (drop offset cells))"
| "array_slice offset len (BooleanArray cells) = BooleanArray (take len (drop offset cells))"
| "array_slice offset len (DecodedArray values) = DecodedArray (take len (drop offset values))"

record 's batch =
  batch_schema :: schema
  batch_columns :: "'s array list"
  num_rows :: nat

definition batch_slice :: "nat \<Rightarrow> nat \<Rightarrow> 's batch \<Rightarrow> 's batch" where
  "batch_slice offset len b =
     (if offset = 0 \<and> len = num_rows b then b
      else b\<lparr>batch_columns := map (array_slice offset len) (batch_columns b), num_rows := len\<rparr>)"

text \<open>\<^verbatim>\<open>value_at\<close>: one cell; a dictionary reads its one entry.\<close>

definition value_at :: "'s batch \<Rightarrow> nat \<Rightarrow> nat \<Rightarrow> 's exec_value" where
  "value_at b column row =
     (case batch_columns b ! column of
        DictionaryArray keys texts \<Rightarrow>
          (case keys ! row of None \<Rightarrow> VNull | Some entry \<Rightarrow> VUtf8 (texts ! entry))
      | array \<Rightarrow> decode (array_slice row 1 array) ! 0)"

section \<open>The distinct values of one group column\<close>

text \<open>The hash map is an association list, whose order is that of no iteration the code relies on.\<close>

record 's column_parts =
  part_of_key :: "(byte list \<times> nat) list"
  first_values :: "'s exec_value list"
  parts_memory :: nat

definition no_parts :: "'s column_parts" where
  "no_parts = \<lparr>part_of_key = [], first_values = [], parts_memory = 0\<rparr>"

definition map_entry_bytes :: nat where "map_entry_bytes = 32"

definition too_many :: "string \<Rightarrow> 'a exec_result" where
  "too_many what = Err (Invalid (''more than u32::MAX '' @ what))"

text \<open>\<^verbatim>\<open>ColumnParts::part\<close>; \<open>bytes\<close> is \<^verbatim>\<open>Value::bytes\<close> on the target.\<close>

definition part ::
  "('s exec_value \<Rightarrow> nat) \<Rightarrow> byte list \<Rightarrow> 's exec_value \<Rightarrow> 's column_parts
   \<Rightarrow> (nat \<times> 's column_parts) exec_result" where
  "part bytes key v parts =
     (case map_of (part_of_key parts) key of
        Some id' \<Rightarrow> Ok (id', parts)
      | None \<Rightarrow>
          let id' = length (first_values parts) in
          if u32_max < id' then too_many ''group values''
          else Ok (id', \<lparr>part_of_key = (key, id') # part_of_key parts,
                         first_values = first_values parts @ [v],
                         parts_memory = parts_memory parts + (length key + map_entry_bytes + bytes v)\<rparr>))"

text \<open>\<^verbatim>\<open>ColumnParts::ranks\<close>: each part's position in key order.\<close>

definition ranks :: "'s column_parts \<Rightarrow> nat list" where
  "ranks parts =
     (let by_key = sort_key fst (part_of_key parts) in
      fold (\<lambda>(position, (_, p)) rank. rank[p := position]) (enumerate 0 by_key) (replicate (length by_key) 0))"

section \<open>The parts of a column's rows\<close>

definition dense_dictionary :: "nat \<Rightarrow> nat \<Rightarrow> bool" where
  "dense_dictionary entries rows \<longleftrightarrow> entries \<le> 4 * rows + 64"

text \<open>
  What the closure of the dictionary path keeps for one batch: the parts of the entries seen, in a
  slot per entry or a map, and the part of NULL.
\<close>

record entry_cache =
  slot_of_entry :: "nat option list"
  map_of_entry :: "nat \<rightharpoonup> nat"
  null_part :: "nat option"

definition lookup_entry ::
  "('s exec_value \<Rightarrow> nat) \<Rightarrow> string list \<Rightarrow> bool \<Rightarrow> nat \<Rightarrow> entry_cache \<times> 's column_parts
   \<Rightarrow> (nat \<times> (entry_cache \<times> 's column_parts)) exec_result" where
  "lookup_entry bytes texts dense entry = (\<lambda>(cache, parts).
     case (if dense then slot_of_entry cache ! entry else map_of_entry cache entry) of
       Some p \<Rightarrow> Ok (p, (cache, parts))
     | None \<Rightarrow>
         bind_result (part bytes (4 # text_bytes (texts ! entry)) (VUtf8 (texts ! entry)) parts)
           (\<lambda>(p, parts).
              Ok (p, (if dense then cache\<lparr>slot_of_entry := (slot_of_entry cache)[entry := Some p]\<rparr>
                      else cache\<lparr>map_of_entry := (map_of_entry cache)(entry \<mapsto> p)\<rparr>, parts))))"

definition dictionary_parts ::
  "('s exec_value \<Rightarrow> nat) \<Rightarrow> nat option list \<Rightarrow> string list \<Rightarrow> 's column_parts
   \<Rightarrow> (nat list \<times> 's column_parts) exec_result" where
  "dictionary_parts bytes keys texts parts =
     (let dense = dense_dictionary (length texts) (length keys);
          cache = \<lparr>slot_of_entry = (if dense then replicate (length texts) None else []),
                   map_of_entry = Map.empty, null_part = None\<rparr> in
      bind_result
        (try_map (\<lambda>key (cache, parts).
           case key of
             None \<Rightarrow>
               (case null_part cache of
                  Some p \<Rightarrow> Ok (p, (cache, parts))
                | None \<Rightarrow>
                    bind_result (part bytes [0] VNull parts)
                      (\<lambda>(p, parts). Ok (p, (cache\<lparr>null_part := Some p\<rparr>, parts))))
           | Some entry \<Rightarrow> lookup_entry bytes texts dense entry (cache, parts))
          keys (cache, parts))
        (\<lambda>(ids, (_, parts)). Ok (ids, parts)))"

text \<open>The \<^verbatim>\<open>primitive!\<close> macro: the key bytes are written without making the value.\<close>

definition primitive_parts ::
  "('s exec_value \<Rightarrow> nat) \<Rightarrow> ('a \<Rightarrow> byte list) \<Rightarrow> ('a \<Rightarrow> 's exec_value) \<Rightarrow> 'a option list \<Rightarrow> 's column_parts
   \<Rightarrow> (nat list \<times> 's column_parts) exec_result" where
  "primitive_parts bytes key_bytes value cells parts =
     try_map (\<lambda>cell parts.
        case cell of
          None \<Rightarrow> part bytes [0] VNull parts
        | Some v \<Rightarrow> part bytes (key_bytes v) (value v) parts) cells parts"

definition decoded_parts ::
  "('s exec_value \<Rightarrow> nat) \<Rightarrow> 's exec_value list \<Rightarrow> 's column_parts \<Rightarrow> (nat list \<times> 's column_parts) exec_result" where
  "decoded_parts bytes values parts =
     try_map (\<lambda>v parts. bind_result (value_key v) (\<lambda>key. part bytes key v parts)) values parts"

text \<open>\<^verbatim>\<open>float_key\<close>.\<close>

definition float_key :: "f64 \<Rightarrow> byte list" where
  "float_key v = 3 # le_bytes (canonical_bits v)"

text \<open>
  \<^verbatim>\<open>GroupTable::column_parts\<close>. A column whose array is not in its type's layout ends the code with a
  panic; a batch cannot be built with one.
\<close>

definition wrong_layout :: "'a exec_result" where
  "wrong_layout = Err (Invalid ''declared column layout'')"

definition column_part_ids ::
  "('s exec_value \<Rightarrow> nat) \<Rightarrow> 's batch \<Rightarrow> nat \<Rightarrow> 's column_parts \<Rightarrow> (nat list \<times> 's column_parts) exec_result" where
  "column_part_ids bytes b column parts =
     (case batch_columns b ! column of
        DictionaryArray keys texts \<Rightarrow> dictionary_parts bytes keys texts parts
      | array \<Rightarrow>
          (case dtype (schema_fields (batch_schema b) ! column) of
             Plain t \<Rightarrow>
               (case t of
                  Int64Type \<Rightarrow>
                    (case array of
                       Int64Array cells \<Rightarrow> primitive_parts bytes (\<lambda>v. 2 # le_bytes v) VInt64 cells parts
                     | _ \<Rightarrow> wrong_layout)
                | TimestampType \<Rightarrow>
                    (case array of
                       TimestampArray cells \<Rightarrow> primitive_parts bytes (\<lambda>v. 5 # le_bytes v) VTimestamp cells parts
                     | _ \<Rightarrow> wrong_layout)
                | Float64Type \<Rightarrow>
                    (case array of
                       Float64Array cells \<Rightarrow> primitive_parts bytes float_key VFloat64 cells parts
                     | _ \<Rightarrow> wrong_layout)
                | BoolType \<Rightarrow>
                    (case array of
                       BooleanArray cells \<Rightarrow>
                         primitive_parts bytes (\<lambda>v. [1, if v then 1 else 0]) VBool cells parts
                     | _ \<Rightarrow> wrong_layout)
                | _ \<Rightarrow> decoded_parts bytes (decode array) parts)
           | _ \<Rightarrow> Err (Invalid ''summary states cannot be grouping keys'')))"

section \<open>The table\<close>

text \<open>
  The group of a tuple of part ids is kept by part id with one group column
  (\<open>group_of_part\<close>), by tuple with several (\<open>group_of_part_tuple\<close>); \<open>labels_of_group\<close> is filled only
  when some column's equal values can differ.
\<close>

record 's group_table =
  group_columns :: "nat list"
  table_parts :: "'s column_parts list"
  group_of_part :: "nat option list"
  group_of_part_tuple :: "nat list \<rightharpoonup> nat"
  parts_of_group :: "nat list list"
  labels_of_group :: "'s exec_value option list list"
  group_memory :: nat

text \<open>\<^verbatim>\<open>GroupTable::new\<close>, \<^verbatim>\<open>len\<close> and \<^verbatim>\<open>memory_bytes\<close>.\<close>

definition group_table_new :: "nat list \<Rightarrow> 's group_table" where
  "group_table_new columns =
     \<lparr>group_columns = columns, table_parts = map (\<lambda>_. no_parts) columns, group_of_part = [],
      group_of_part_tuple = Map.empty, parts_of_group = [], labels_of_group = [], group_memory = 0\<rparr>"

definition group_count :: "'s group_table \<Rightarrow> nat" where
  "group_count tab = length (parts_of_group tab)"

definition memory_bytes :: "'s group_table \<Rightarrow> nat" where
  "memory_bytes tab = group_memory tab + sum_list (map parts_memory (table_parts tab))"

definition set_group_of_part :: "nat \<Rightarrow> nat \<Rightarrow> nat option list \<Rightarrow> nat option list" where
  "set_group_of_part p g slots =
     (slots @ replicate (p + 1 - length slots) None)[p := Some g]"

text \<open>\<^verbatim>\<open>GroupTable::new_group\<close>.\<close>

definition new_group ::
  "('s exec_value \<Rightarrow> nat) \<Rightarrow> nat list \<Rightarrow> 's exec_value option list option \<Rightarrow> 's group_table
   \<Rightarrow> (nat \<times> 's group_table) exec_result" where
  "new_group bytes parts labels tab =
     (let g = length (parts_of_group tab) in
      if u32_max < g then too_many ''groups''
      else
        Ok (g, tab\<lparr>
          group_memory := group_memory tab
            + (length parts * 4 * 2 + map_entry_bytes
               + (case labels of None \<Rightarrow> 0
                  | Some ls \<Rightarrow> sum_list (map (\<lambda>l. case l of None \<Rightarrow> 0 | Some v \<Rightarrow> bytes v) ls))),
          group_of_part :=
            (if length (group_columns tab) = 1 then set_group_of_part (hd parts) g (group_of_part tab)
             else group_of_part tab),
          group_of_part_tuple :=
            (if length (group_columns tab) = 1 then group_of_part_tuple tab
             else (group_of_part_tuple tab)(parts \<mapsto> g)),
          labels_of_group :=
            (case labels of None \<Rightarrow> labels_of_group tab | Some ls \<Rightarrow> labels_of_group tab @ [ls]),
          parts_of_group := parts_of_group tab @ [parts]\<rparr>))"

text \<open>The types whose values are the same when their keys are.\<close>

definition own_label :: "field_data_type \<Rightarrow> bool" where
  "own_label t \<longleftrightarrow>
     (case t of
        Plain d \<Rightarrow>
          d \<notin> {Utf8Type, Int64Type, BoolType, TimestampType, DateType, IntervalType, NullType}
      | _ \<Rightarrow> True)"

text \<open>The part ids of every group column, the parts of each column updated in turn.\<close>

definition columns_part_ids ::
  "('s exec_value \<Rightarrow> nat) \<Rightarrow> 's batch \<Rightarrow> 's group_table \<Rightarrow> (nat list list \<times> 's group_table) exec_result" where
  "columns_part_ids bytes b tab =
     try_map (\<lambda>i tab.
        bind_result (column_part_ids bytes b (group_columns tab ! i) (table_parts tab ! i))
          (\<lambda>(ids, parts). Ok (ids, tab\<lparr>table_parts := (table_parts tab)[i := parts]\<rparr>)))
       [0..<length (group_columns tab)] tab"

text \<open>
  The closures of \<open>group_ids\<close>: the group of a row by its one part, and by its tuple of parts, a new
  group keeping the row's own values in the columns \<open>own\<close> marks.
\<close>

definition single_group ::
  "('s exec_value \<Rightarrow> nat) \<Rightarrow> nat \<Rightarrow> 's group_table \<Rightarrow> (nat \<times> 's group_table) exec_result" where
  "single_group bytes p tab =
     (case Option.bind (get (group_of_part tab) p) id of
        Some g \<Rightarrow> Ok (g, tab)
      | None \<Rightarrow> new_group bytes [p] None tab)"

definition tuple_group ::
  "('s exec_value \<Rightarrow> nat) \<Rightarrow> 's batch \<Rightarrow> bool list \<Rightarrow> nat list list \<Rightarrow> nat \<Rightarrow> 's group_table
   \<Rightarrow> (nat \<times> 's group_table) exec_result" where
  "tuple_group bytes b own columns row tab =
     (let key = map (\<lambda>ids. ids ! row) columns in
      case group_of_part_tuple tab key of
        Some g \<Rightarrow> Ok (g, tab)
      | None \<Rightarrow>
          new_group bytes key
            (if list_ex id own then
               Some (map (\<lambda>(c, keeps). if keeps then Some (value_at b c row) else None)
                      (zip (group_columns tab) own))
             else None) tab)"

text \<open>\<^verbatim>\<open>GroupTable::group_ids\<close>: one global group, one group column, or several.\<close>

definition group_ids ::
  "('s exec_value \<Rightarrow> nat) \<Rightarrow> 's batch \<Rightarrow> 's group_table \<Rightarrow> (nat list \<times> 's group_table) exec_result" where
  "group_ids bytes b tab =
     (case group_columns tab of
        [] \<Rightarrow>
          if 0 < num_rows b \<and> parts_of_group tab = [] then
            bind_result (new_group bytes [] None tab) (\<lambda>(_, tab). Ok (replicate (num_rows b) 0, tab))
          else Ok (replicate (num_rows b) 0, tab)
      | [_] \<Rightarrow>
          bind_result (columns_part_ids bytes b tab) (\<lambda>(columns, tab).
            try_map (single_group bytes) (hd columns) tab)
      | _ \<Rightarrow>
          bind_result (columns_part_ids bytes b tab) (\<lambda>(columns, tab).
            let own = map (\<lambda>c. own_label (dtype (schema_fields (batch_schema b) ! c))) (group_columns tab) in
            try_map (tuple_group bytes b own columns) [0..<num_rows b] tab))"

text \<open>\<^verbatim>\<open>GroupTable::label\<close>.\<close>

definition group_label :: "'s group_table \<Rightarrow> nat \<Rightarrow> nat \<Rightarrow> 's exec_value" where
  "group_label tab g i =
     (case Option.bind (get (labels_of_group tab) g) (\<lambda>labels. labels ! i) of
        Some label \<Rightarrow> label
      | None \<Rightarrow> first_values (table_parts tab ! i) ! (parts_of_group tab ! g ! i))"

text \<open>\<^verbatim>\<open>GroupTable::groups_in_key_order\<close>.\<close>

definition groups_in_key_order :: "'s group_table \<Rightarrow> nat list" where
  "groups_in_key_order tab =
     (let rank = map ranks (table_parts tab) in
      stable_sort
        (\<lambda>g h. first_difference
           (map (\<lambda>((a, b), rank). cmp (rank ! a) (rank ! b))
             (zip (zip (parts_of_group tab ! g) (parts_of_group tab ! h)) rank)))
        [0..<group_count tab])"

section \<open>Chunks of rows\<close>

definition rows_per_chunk :: nat where "rows_per_chunk = 1024"

text \<open>\<^verbatim>\<open>row_chunks\<close>: the slices of a batch at every \<open>rows_per_chunk\<close>-th row.\<close>

definition row_chunks :: "'s batch \<Rightarrow> 's batch list" where
  "row_chunks b =
     map (\<lambda>i. batch_slice (i * rows_per_chunk) (min rows_per_chunk (num_rows b - i * rows_per_chunk)) b)
       [0..<(num_rows b + rows_per_chunk - 1) div rows_per_chunk]"

text \<open>
  \<^verbatim>\<open>chunked_group_ids\<close>: after each chunk the workspace is charged; \<open>granted n\<close> is whether the run
  grants a workspace of \<open>n\<close> bytes, \<open>cancelled\<close> what the checkpoint behind the chunk reads.
\<close>

definition chunked_group_ids ::
  "('s exec_value \<Rightarrow> nat) \<Rightarrow> (nat \<Rightarrow> bool) \<Rightarrow> bool \<Rightarrow> nat \<Rightarrow> 's batch \<Rightarrow> 's group_table
   \<Rightarrow> (nat list \<times> 's group_table) exec_result" where
  "chunked_group_ids bytes granted cancelled held b tab =
     bind_result
       (try_map (\<lambda>chunk tab.
          bind_result (group_ids bytes chunk tab) (\<lambda>(ids, tab).
            if \<not> granted (held + memory_bytes tab + 4 * num_rows b) then Err MemoryLimit
            else if cancelled then Err Cancelled
            else Ok (ids, tab)))
         (row_chunks b) tab)
       (\<lambda>(chunks, tab). Ok (concat chunks, tab))"

end
