(* ===== verification/GroupLaws.thy ===== *)
theory GroupLaws
  imports GroupTable ExecKeys
begin

text \<open>
  The laws of the group numbers. Part ids, dictionary lookups and group numbers share one contract,
  the locale \<open>numbering\<close>: the state stands for the list of the distinct items met so far, in the order
  they were met, and a step returns the place of its item there.
\<close>

section \<open>Items in order of first appearance\<close>

definition remember :: "('k \<times> 'v) list \<Rightarrow> 'k \<times> 'v \<Rightarrow> ('k \<times> 'v) list" where
  "remember seen x = (if fst x \<in> fst ` set seen then seen else seen @ [x])"

definition remember_all :: "('k \<times> 'v) list \<Rightarrow> ('k \<times> 'v) list \<Rightarrow> ('k \<times> 'v) list" where
  "remember_all seen xs = fold (\<lambda>x seen. remember seen x) xs seen"

definition number :: "('k \<times> 'v) list \<Rightarrow> 'k \<Rightarrow> nat" where
  "number seen k = the (position (\<lambda>x. fst x = k) seen)"

lemma remember_all_simps [simp]:
  "remember_all seen [] = seen"
  "remember_all seen (x # xs) = remember_all (remember seen x) xs"
  by (simp_all add: remember_all_def)

lemma remember_all_append: "remember_all seen (xs @ ys) = remember_all (remember_all seen xs) ys"
  by (simp add: remember_all_def)

lemma keys_remember [simp]: "fst ` set (remember seen x) = insert (fst x) (fst ` set seen)"
  by (auto simp: remember_def)

lemma keys_remember_all: "fst ` set (remember_all seen xs) = fst ` set seen \<union> fst ` set xs"
  by (induction xs arbitrary: seen) auto

lemma distinct_remember_all:
  "distinct (map fst seen) \<Longrightarrow> distinct (map fst (remember_all seen xs))"
  by (induction xs arbitrary: seen) (auto simp: remember_def)

lemma remember_all_extends: "\<exists>zs. remember_all seen xs = seen @ zs"
proof (induction xs arbitrary: seen)
  case (Cons x xs)
  from Cons [of "remember seen x"] show ?case
    by (auto simp: remember_def split: if_splits)
qed simp

lemma length_remember_all:
  "length seen \<le> length (remember_all seen xs)"
  using remember_all_extends [of seen xs] by auto

lemma length_remember_all_card:
  assumes "distinct (map fst seen)"
  shows "length (remember_all seen xs) = card (fst ` set seen \<union> fst ` set xs)"
  using distinct_card [OF distinct_remember_all [OF assms, of xs]] keys_remember_all [of seen xs] by simp

lemma position_exists: "(\<exists>x \<in> set xs. p x) \<Longrightarrow> \<exists>i. position p xs = Some i"
  by (induction xs) auto

lemma number_spec:
  assumes "k \<in> fst ` set seen"
  shows "number seen k < length seen" and "fst (seen ! number seen k) = k"
proof -
  from assms obtain i where "position (\<lambda>x. fst x = k) seen = Some i"
    using position_exists [of seen "\<lambda>x. fst x = k"] by auto
  with position_Some [THEN iffD1, OF this]
  show "number seen k < length seen" "fst (seen ! number seen k) = k"
    by (simp_all add: number_def)
qed

lemma number_eqI:
  assumes "distinct (map fst seen)" and "i < length seen" and "fst (seen ! i) = k"
  shows "number seen k = i"
proof -
  have k: "k \<in> fst ` set seen"
    using assms(2,3) by auto
  have "map fst seen ! number seen k = map fst seen ! i"
    using number_spec [OF k] assms by simp
  then show ?thesis
    using nth_eq_iff_index_eq [OF assms(1)] number_spec(1) [OF k] assms(2) by simp
qed

lemma number_append: "k \<in> fst ` set seen \<Longrightarrow> number (seen @ zs) k = number seen k"
proof -
  have "position p xs = Some i \<Longrightarrow> position p (xs @ ys) = Some i" for p and xs ys :: "('a \<times> 'b) list" and i
    by (induction xs arbitrary: i) auto
  moreover assume "k \<in> fst ` set seen"
  then obtain i where "position (\<lambda>x. fst x = k) seen = Some i"
    using position_exists [of seen "\<lambda>x. fst x = k"] by auto
  ultimately show ?thesis by (simp add: number_def)
qed

lemma number_remember_all: "k \<in> fst ` set seen \<Longrightarrow> number (remember_all seen xs) k = number seen k"
  using remember_all_extends [of seen xs] number_append by metis

lemma number_new: "k \<notin> fst ` set seen \<Longrightarrow> number (seen @ [(k, v)]) k = length seen"
proof -
  assume "k \<notin> fst ` set seen"
  then have "position (\<lambda>x. fst x = k) (seen @ [(k, v)]) = Some (length seen)"
    by (induction seen) auto
  then show ?thesis by (simp add: number_def)
qed

lemma number_remember_all_step:
  "number (remember_all (remember seen x) xs) (fst x) = number (remember seen x) (fst x)"
  by (rule number_remember_all) simp

section \<open>The contract of a numbering\<close>

locale numbering =
  fixes inv :: "'s \<Rightarrow> bool" and entries :: "'s \<Rightarrow> ('k \<times> 'v) list"
    and step :: "'x \<Rightarrow> 's \<Rightarrow> (nat \<times> 's) exec_result" and item :: "'x \<Rightarrow> 'k \<times> 'v" and ok :: "'x \<Rightarrow> bool"
  assumes step_Ok: "inv s \<Longrightarrow> ok x \<Longrightarrow> length (remember (entries s) (item x)) \<le> Suc u32_max \<Longrightarrow>
      \<exists>s'. step x s = Inr (number (remember (entries s) (item x)) (fst (item x)), s')
        \<and> inv s' \<and> entries s' = remember (entries s) (item x)"
begin

lemma try_map_step:
  assumes "inv s" and "\<And>x. x \<in> set xs \<Longrightarrow> ok x"
    and "length (remember_all (entries s) (map item xs)) \<le> Suc u32_max"
  shows "\<exists>s'. try_map step xs s
      = Inr (map (\<lambda>x. number (remember_all (entries s) (map item xs)) (fst (item x))) xs, s')
    \<and> inv s' \<and> entries s' = remember_all (entries s) (map item xs)"
  using assms
proof (induction xs arbitrary: s)
  case (Cons x xs)
  let ?seen = "remember (entries s) (item x)"
  have "length ?seen \<le> Suc u32_max"
    using Cons.prems(3) length_remember_all [of ?seen "map item xs"] by simp
  then obtain s1 where s1: "step x s = Inr (number ?seen (fst (item x)), s1)" "inv s1" "entries s1 = ?seen"
    using step_Ok Cons.prems(1,2) by (metis list.set_intros(1))
  obtain s' where "try_map step xs s1
      = Inr (map (\<lambda>x. number (remember_all ?seen (map item xs)) (fst (item x))) xs, s')"
    "inv s'" "entries s' = remember_all ?seen (map item xs)"
    using Cons.IH [OF s1(2)] Cons.prems s1(3) by auto
  then show ?case
    by (simp add: s1(1) number_remember_all_step)
qed simp

end

section \<open>Parts\<close>

text \<open>The parts of a column stand for the keys and first values, by part id.\<close>

definition part_entries :: "'s column_parts \<Rightarrow> (byte list \<times> 's exec_value) list" where
  "part_entries parts = zip (rev (map fst (part_of_key parts))) (first_values parts)"

definition parts_inv :: "'s column_parts \<Rightarrow> bool" where
  "parts_inv parts \<longleftrightarrow>
     distinct (map fst (part_of_key parts))
     \<and> map snd (part_of_key parts) = rev [0..<length (part_of_key parts)]
     \<and> length (first_values parts) = length (part_of_key parts)"

lemma part_entries_keys:
  assumes "parts_inv parts"
  shows "map fst (part_entries parts) = rev (map fst (part_of_key parts))"
    and "length (part_entries parts) = length (part_of_key parts)"
    and "distinct (map fst (part_entries parts))"
    and "map snd (part_entries parts) = first_values parts"
  using assms by (auto simp: part_entries_def parts_inv_def)

lemma part_of_key_nth:
  assumes "parts_inv parts" and "i < length (part_of_key parts)"
  shows "part_of_key parts ! i = (fst (part_of_key parts ! i), length (part_of_key parts) - 1 - i)"
proof -
  have "snd (part_of_key parts ! i) = rev [0..<length (part_of_key parts)] ! i"
    using assms unfolding parts_inv_def by (metis nth_map)
  then show ?thesis
    using assms(2) by (simp add: rev_nth prod_eq_iff)
qed

lemma map_of_part_of_key:
  assumes "parts_inv parts"
  shows "map_of (part_of_key parts) key =
    (if key \<in> fst ` set (part_entries parts) then Some (number (part_entries parts) key) else None)"
proof (cases "key \<in> fst ` set (part_of_key parts)")
  case True
  have keys: "fst ` set (part_entries parts) = fst ` set (part_of_key parts)"
    using arg_cong [OF part_entries_keys(1) [OF assms], of set] by simp
  from True obtain i where i: "i < length (part_of_key parts)" "fst (part_of_key parts ! i) = key"
    by (auto simp: in_set_conv_nth)
  let ?p = "length (part_of_key parts) - 1 - i"
  have "map_of (part_of_key parts) key = Some ?p"
    using i part_of_key_nth [OF assms i(1)] assms nth_mem [OF i(1)]
    by (intro map_of_is_SomeI) (auto simp: parts_inv_def)
  moreover have "number (part_entries parts) key = ?p"
  proof (rule number_eqI [OF part_entries_keys(3) [OF assms]])
    show p: "?p < length (part_entries parts)"
      using i part_entries_keys(2) [OF assms] by simp
    have "fst (part_entries parts ! ?p) = map fst (part_entries parts) ! ?p"
      using p by simp
    also have "\<dots> = key"
      using i by (simp add: part_entries_keys(1) [OF assms] rev_nth)
    finally show "fst (part_entries parts ! ?p) = key" .
  qed
  ultimately show ?thesis
    using True keys by simp
next
  case False
  moreover have "fst ` set (part_entries parts) = fst ` set (part_of_key parts)"
    using arg_cong [OF part_entries_keys(1) [OF assms], of set] by simp
  ultimately show ?thesis
    by (simp add: map_of_eq_None_iff)
qed

lemma parts_inv_no_parts [simp]: "parts_inv no_parts" "part_entries no_parts = []"
  by (simp_all add: parts_inv_def part_entries_def no_parts_def)

lemma part_step:
  assumes inv: "parts_inv parts" and bound: "length (remember (part_entries parts) (key, v)) \<le> Suc u32_max"
  shows "\<exists>parts'. part bytes key v parts = Inr (number (remember (part_entries parts) (key, v)) key, parts')
    \<and> parts_inv parts' \<and> part_entries parts' = remember (part_entries parts) (key, v)"
proof (cases "key \<in> fst ` set (part_entries parts)")
  case True
  then show ?thesis
    using inv by (simp add: part_def map_of_part_of_key remember_def)
next
  case False
  let ?n = "length (part_of_key parts)"
  have n: "length (first_values parts) = ?n" "length (part_entries parts) = ?n"
    using inv part_entries_keys(2) [OF inv] by (simp_all add: parts_inv_def)
  then have "?n \<le> u32_max"
    using bound False by (simp add: remember_def)
  moreover have "key \<notin> fst ` set (part_of_key parts)"
    using False arg_cong [OF part_entries_keys(1) [OF inv], of set] by simp
  ultimately show ?thesis
    using inv False n
    by (auto simp: part_def map_of_part_of_key remember_def number_new Let_def not_less
        part_entries_def parts_inv_def image_iff)
qed

interpretation part: numbering parts_inv part_entries "\<lambda>(key, v). part bytes key v" "\<lambda>x. x" "\<lambda>_. True"
  for bytes
  by unfold_locales (clarsimp simp: part_step)

section \<open>Every path through a column is the decoded one\<close>

lemma try_map_map: "try_map f (map g xs) s = try_map (\<lambda>x. f (g x)) xs s"
  by (induction xs arbitrary: s) simp_all

lemma try_map_cong [fundef_cong]:
  assumes "xs = ys" and "s = t" and "\<And>x s. x \<in> set ys \<Longrightarrow> f x s = g x s"
  shows "try_map f xs s = try_map g ys t"
proof -
  have "(\<And>x s. x \<in> set ys \<Longrightarrow> f x s = g x s) \<Longrightarrow> try_map f ys t = try_map g ys t" for ys t
    by (induction ys arbitrary: t) simp_all
  with assms show ?thesis by blast
qed

text \<open>A traversal whose extra state is forgotten, step by step the same as one without it.\<close>

lemma try_map_simulation:
  assumes "R c s"
    and step: "\<And>x c s. x \<in> set xs \<Longrightarrow> R c s \<Longrightarrow>
      \<exists>c'. f x (c, s) = bind_result (g x s) (\<lambda>(y, s'). Inr (y, (c' y s', s')))
        \<and> (\<forall>y s'. g x s = Inr (y, s') \<longrightarrow> R (c' y s') s')"
  shows "bind_result (try_map f xs (c, s)) (\<lambda>(ys, (_, s)). Inr (ys, s)) = try_map g xs s"
  using assms
proof (induction xs arbitrary: c s)
  case (Cons x xs)
  from Cons.prems(2) [of x, OF _ Cons.prems(1)] obtain c' where
    c': "f x (c, s) = bind_result (g x s) (\<lambda>(y, s'). Inr (y, (c' y s', s')))"
    "\<forall>y s'. g x s = Inr (y, s') \<longrightarrow> R (c' y s') s'"
    by auto
  show ?case
  proof (cases "g x s")
    case (Inl e)
    then show ?thesis by (simp add: c'(1))
  next
    case (Inr r)
    obtain y s' where r: "r = (y, s')" by (cases r)
    have "bind_result (try_map f xs (c' y s', s')) (\<lambda>(ys, (_, s)). Inr (ys, s)) = try_map g xs s'"
      by (rule Cons.IH) (use c'(2) Inr r Cons.prems(2) in auto)
    then show ?thesis
      by (cases "try_map f xs (c' y s', s')")
        (auto simp: c'(1) Inr r simp del: bind_result_eq_Inr dest: sym)
  qed
qed simp

lemma part_map_of:
  assumes "part bytes key v parts = Inr (p, parts')"
  shows "map_of (part_of_key parts') key = Some p"
    and "map_of (part_of_key parts) key' = Some q \<Longrightarrow> map_of (part_of_key parts') key' = Some q"
  using assms
  by (auto simp: part_def too_many_def Let_def split: option.splits if_splits)

lemma part_known:
  "map_of (part_of_key parts) key = Some p \<Longrightarrow> part bytes key v parts = Inr (p, parts)"
  by (simp add: part_def)

definition cache_ok :: "string list \<Rightarrow> bool \<Rightarrow> entry_cache \<Rightarrow> 's column_parts \<Rightarrow> bool" where
  "cache_ok texts dense cache parts \<longleftrightarrow>
     (dense \<longrightarrow> length (slot_of_entry cache) = length texts)
     \<and> (\<forall>entry < length texts. \<forall>p.
          (if dense then slot_of_entry cache ! entry else map_of_entry cache entry) = Some p
          \<longrightarrow> map_of (part_of_key parts) (4 # text_bytes (texts ! entry)) = Some p)
     \<and> (\<forall>p. null_part cache = Some p \<longrightarrow> map_of (part_of_key parts) [0] = Some p)"

lemma cache_ok_null:
  assumes ok: "cache_ok texts dense cache parts" and part: "part bytes [0] v parts = Inr (p, parts')"
  shows "cache_ok texts dense (cache\<lparr>null_part := Some p\<rparr>) parts'"
  using ok part_map_of(1) [OF part] part_map_of(2) [OF part] unfolding cache_ok_def by simp

lemma cache_ok_entry:
  assumes ok: "cache_ok texts dense cache parts" and "entry < length texts"
    and part: "part bytes (4 # text_bytes (texts ! entry)) v parts = Inr (p, parts')"
  shows "cache_ok texts dense
    (if dense then cache\<lparr>slot_of_entry := (slot_of_entry cache)[entry := Some p]\<rparr>
     else cache\<lparr>map_of_entry := (map_of_entry cache)(entry \<mapsto> p)\<rparr>) parts'"
  using ok assms(2) part_map_of(1) [OF part] part_map_of(2) [OF part]
  unfolding cache_ok_def by (auto simp: nth_list_update)

lemma dictionary_parts_decoded:
  assumes "has_layout (DictionaryArray keys texts) Utf8Type"
  shows "dictionary_parts bytes keys texts parts
    = decoded_parts bytes (decode (DictionaryArray keys texts)) parts"
proof -
  let ?dense = "dense_dictionary (length texts) (length keys)"
  have valid: "entry < length texts" if "Some entry \<in> set keys" for entry
    using assms that by (auto simp: has_layout_def list_all_iff)
  show ?thesis
    unfolding dictionary_parts_def decoded_parts_def Let_def decode.simps try_map_map
  proof (rule try_map_simulation [where R = "cache_ok texts ?dense"], goal_cases)
    case 1
    then show ?case by (simp add: cache_ok_def)
  next
    case (2 key cache parts)
    show ?case
    proof (cases key)
      case None
      show ?thesis
      proof (cases "null_part cache")
        case null: None
        have "\<forall>y s'. part bytes [0] VNull parts = Inr (y, s') \<longrightarrow>
            cache_ok texts ?dense (cache\<lparr>null_part := Some y\<rparr>) s'"
          using cache_ok_null [OF 2(2)] by blast
        then show ?thesis
          by (intro exI [of _ "\<lambda>p _. cache\<lparr>null_part := Some p\<rparr>"]) (simp add: None null cell_value_def)
      next
        case (Some p)
        then have "part bytes [0] VNull parts = Inr (p, parts)"
          using 2(2) by (auto simp: cache_ok_def intro: part_known)
        then show ?thesis
          using 2(2) by (intro exI [of _ "\<lambda>_ _. cache"]) (simp add: None Some cell_value_def)
      qed
    next
      case (Some entry)
      let ?text = "texts ! entry"
      have entry: "entry < length texts"
        using valid 2(1) Some by simp
      show ?thesis
      proof (cases "if ?dense then slot_of_entry cache ! entry else map_of_entry cache entry")
        case none: None
        have "\<forall>y s'. part bytes (4 # text_bytes ?text) (VUtf8 ?text) parts = Inr (y, s') \<longrightarrow>
            cache_ok texts ?dense
              (if ?dense then cache\<lparr>slot_of_entry := (slot_of_entry cache)[entry := Some y]\<rparr>
               else cache\<lparr>map_of_entry := (map_of_entry cache)(entry \<mapsto> y)\<rparr>) s'"
          using cache_ok_entry [OF 2(2) entry] by blast
        then show ?thesis
          using none
          by (intro exI [of _ "\<lambda>p _. if ?dense then cache\<lparr>slot_of_entry := (slot_of_entry cache)[entry := Some p]\<rparr>
               else cache\<lparr>map_of_entry := (map_of_entry cache)(entry \<mapsto> p)\<rparr>"])
            (simp add: Some cell_value_def lookup_entry_def)
      next
        case some: (Some p)
        then have "part bytes (4 # text_bytes ?text) (VUtf8 ?text) parts = Inr (p, parts)"
          using 2(2) entry by (intro part_known) (auto simp: cache_ok_def split: if_splits)
        then show ?thesis
          using 2(2) some
          by (intro exI [of _ "\<lambda>_ _. cache"]) (simp add: Some cell_value_def lookup_entry_def)
      qed
    qed
  qed
qed

lemma primitive_parts_decoded:
  assumes "\<And>v. value_key (value v) = Inr (key_bytes v)"
  shows "primitive_parts bytes key_bytes value cells parts
    = decoded_parts bytes (map (cell_value value) cells) parts"
  unfolding primitive_parts_def decoded_parts_def try_map_map
  by (rule try_map_cong) (auto simp: cell_value_def assms split: option.splits)

lemma column_part_ids_decoded_eq:
  assumes "dtype (schema_fields (batch_schema b) ! column) = Plain t"
    and "has_layout (batch_columns b ! column) t"
  shows "column_part_ids bytes b column parts = decoded_parts bytes (decode (batch_columns b ! column)) parts"
proof (cases "batch_columns b ! column")
  case (DictionaryArray keys texts)
  with assms(2) have "t = Utf8Type"
    by (cases t) (simp_all add: has_layout_def)
  with assms(2) show ?thesis
    by (simp add: column_part_ids_def DictionaryArray dictionary_parts_decoded)
next
  case (Int64Array cells)
  with assms show ?thesis
    by (cases t) (simp_all add: column_part_ids_def has_layout_def primitive_parts_decoded)
next
  case (TimestampArray cells)
  with assms show ?thesis
    by (cases t) (simp_all add: column_part_ids_def has_layout_def primitive_parts_decoded)
next
  case (Float64Array cells)
  with assms show ?thesis
    by (cases t) (simp_all add: column_part_ids_def has_layout_def primitive_parts_decoded float_key_def)
next
  case (BooleanArray cells)
  with assms show ?thesis
    by (cases t) (simp_all add: column_part_ids_def has_layout_def primitive_parts_decoded)
next
  case (DecodedArray vs)
  with assms show ?thesis
    by (cases t) (simp_all add: column_part_ids_def has_layout_def)
qed

text \<open>
  C31: the part ids of a column, through the dictionary with its per-entry cache or through keys
  written straight from the cells, are those of looking up the key of every decoded value, with the
  same parts left behind and the same error when they overflow.
\<close>

theorem column_part_ids_decoded:
  assumes "dtype (schema_fields (batch_schema b) ! column) = Plain t"
    and "has_layout (batch_columns b ! column) t"
  shows "column_part_ids bytes b column parts = decoded_parts bytes (decode (batch_columns b ! column)) parts"
  by (rule column_part_ids_decoded_eq [OF assms])

definition grouping_example :: "unit batch" where
  "grouping_example =
     \<lparr>batch_schema = schema_new [Field ''host'' (Plain Utf8Type) True None, Field ''value'' (Plain Float64Type) True None],
      batch_columns = [DictionaryArray [Some 1, None, Some 1, Some 0] [''a'', ''b''],
                       Float64Array [Some f64_zero, Some f64_one, Some f64_neg_zero, None]],
      num_rows = 4\<rparr>"

theorem column_part_ids_decoded_witness:
  "column_part_ids (\<lambda>_. 0) grouping_example 0 no_parts
    = Inr ([0, 1, 0, 2],
        \<lparr>part_of_key = [([4, 97], 2), ([0], 1), ([4, 98], 0)],
         first_values = [VUtf8 ''b'', VNull, VUtf8 ''a''], parts_memory = 101\<rparr>)"
proof -
  have "column_part_ids (\<lambda>_. 0) grouping_example 0 no_parts
    = decoded_parts (\<lambda>_. 0) (decode (batch_columns grouping_example ! 0)) no_parts"
    by (rule column_part_ids_decoded [where t = Utf8Type])
      (simp_all add: grouping_example_def schema_new_def has_layout_def)
  then show ?thesis
    by (simp add: grouping_example_def decoded_parts_def cell_value_def part_def no_parts_def Let_def
        u32_max_def map_entry_bytes_def text_bytes_def)
qed

end
