(* ===== verification/GroupNumbers.thy ===== *)
theory GroupNumbers
  imports GroupLaws
begin

text \<open>
  What \<open>group_ids\<close> computes: over any sequence of batches, the number of a row's group is the place
  of its tuple of keys in the list of the distinct tuples, in the order the rows bring them, and a
  group is labelled with the values of its own first row.
\<close>

section \<open>Rows and their keys\<close>

definition cell :: "'s batch \<Rightarrow> nat \<Rightarrow> nat \<Rightarrow> 's exec_value" where
  "cell b column row = decode (batch_columns b ! column) ! row"

definition cell_key :: "'s exec_value \<Rightarrow> byte list" where
  "cell_key v = (case value_key v of Inr key \<Rightarrow> key | Inl _ \<Rightarrow> [])"

text \<open>A row as grouping sees it: the keys of its group columns, and their values.\<close>

definition row_item :: "nat list \<Rightarrow> 's batch \<Rightarrow> nat \<Rightarrow> byte list list \<times> 's exec_value list" where
  "row_item columns b row = (map (\<lambda>c. cell_key (cell b c row)) columns, map (\<lambda>c. cell b c row) columns)"

definition row_items :: "nat list \<Rightarrow> 's batch \<Rightarrow> (byte list list \<times> 's exec_value list) list" where
  "row_items columns b = map (row_item columns b) [0..<num_rows b]"

text \<open>A batch whose group columns are plain columns of the types \<open>types\<close>, in the types' layouts.\<close>

definition grouping_batch :: "nat list \<Rightarrow> (nat \<Rightarrow> data_type) \<Rightarrow> 's batch \<Rightarrow> bool" where
  "grouping_batch columns types b \<longleftrightarrow>
     list_all (\<lambda>c.
       dtype (schema_fields (batch_schema b) ! c) = Plain (types c)
       \<and> has_layout (batch_columns b ! c) (types c)
       \<and> length (decode (batch_columns b ! c)) = num_rows b) columns"

lemma collect_result_exists: "(\<And>x. x \<in> set xs \<Longrightarrow> \<exists>y. f x = Inr y) \<Longrightarrow> \<exists>ys. collect_result f xs = Inr ys"
proof (induction xs)
  case (Cons x xs)
  from Cons.prems obtain y where "f x = Inr y" by auto
  moreover from Cons obtain ys where "collect_result f xs = Inr ys" by auto
  ultimately show ?case by simp
qed simp

lemma value_has_key: "value_matches v t n \<Longrightarrow> \<exists>key. value_key v = Inr key"
proof (induction v t n rule: value_matches.induct)
  case (9 vs t n)
  then have "\<exists>ks. collect_result value_key vs = Inr ks"
    by (intro collect_result_exists) (auto simp: list_all_iff split: data_type.splits)
  then show ?case by auto
next
  case (10 vs t n)
  have "\<exists>ks. collect_result value_key vs = Inr ks"
  proof (rule collect_result_exists)
    fix v assume "v \<in> set vs"
    from "10.prems" obtain fs where fs: "t = StructType fs"
      "list_all2 (\<lambda>v f. value_matches v (dtype f) (nullable f)) vs fs"
      by (auto split: data_type.splits)
    from \<open>v \<in> set vs\<close> obtain i where i: "i < length vs" "v = vs ! i"
      by (auto simp: in_set_conv_nth)
    have "value_matches v (dtype (fs ! i)) (nullable (fs ! i))" "fs ! i \<in> set fs"
      using fs(2) i by (simp_all add: list_all2_conv_all_nth)
    then show "\<exists>key. value_key v = Inr key"
      using "10.IH" [OF fs(1) \<open>v \<in> set vs\<close>] by blast
  qed
  then show ?case by auto
next
  case (11 kvs t n)
  have "\<exists>ks. collect_result (\<lambda>(k, v). bind_result (value_key k) (\<lambda>kk. bind_result (value_key v) (\<lambda>kv. Inr (kk, kv)))) kvs
    = Inr ks"
  proof (rule collect_result_exists)
    fix x assume x: "x \<in> set kvs"
    obtain k v where kv: "x = (k, v)" by fastforce
    from x kv "11.prems" obtain key val n' where t: "t = MapType key val n'"
      and km: "value_matches k key False" and vm: "value_matches v val n'"
      by (auto simp: list_all_iff split: data_type.splits)
    from "11.IH"(1) [OF t x kv [symmetric] km] "11.IH"(2) [OF t x kv [symmetric] vm]
    have "\<exists>kk. value_key k = Inr kk" "\<exists>kv. value_key v = Inr kv" .
    then show "\<exists>y. (case x of (k, v) \<Rightarrow>
        bind_result (value_key k) (\<lambda>kk. bind_result (value_key v) (\<lambda>kv. Inr (kk, kv)))) = Inr y"
      by (auto simp: kv)
  qed
  then show ?case by auto
qed simp_all

lemma decode_typed:
  "has_layout array t \<Longrightarrow> v \<in> set (decode array) \<Longrightarrow> value_matches v t True"
  by (cases array; cases t)
    (auto simp: has_layout_def cell_value_def list_all_iff split: option.splits)

lemma cell_key_Ok: "value_matches v t n \<Longrightarrow> value_key v = Inr (cell_key v)"
  using value_has_key [of v t n] by (auto simp: cell_key_def)

text \<open>The values the same key leaves no doubt about.\<close>

lemma own_label_sound:
  assumes "\<not> own_label (Plain t)" and "value_matches v t True" and "value_matches w t True"
    and "cell_key v = cell_key w"
  shows "v = w"
  using assms
  by (cases v; cases w; cases t)
    (auto simp: own_label_def cell_key_def split: if_splits)

lemma grouping_batchD:
  assumes "grouping_batch columns types b" and "c \<in> set columns"
  shows "dtype (schema_fields (batch_schema b) ! c) = Plain (types c)"
    and "has_layout (batch_columns b ! c) (types c)"
    and "length (decode (batch_columns b ! c)) = num_rows b"
    and "row < num_rows b \<Longrightarrow> value_matches (cell b c row) (types c) True"
  using assms by (auto simp: grouping_batch_def list_all_iff cell_def intro: decode_typed)

lemma value_at_cell:
  assumes "grouping_batch columns types b" and "c \<in> set columns" and "row < num_rows b"
  shows "value_at b c row = cell b c row"
proof -
  have len: "length (decode (batch_columns b ! c)) = num_rows b"
    using grouping_batchD [OF assms(1,2)] by simp
  have slice: "take 1 (drop row xs) ! 0 = xs ! row" if "row < length xs" for xs :: "'z list"
    using that by simp
  show ?thesis
    using assms(3) len
    by (cases "batch_columns b ! c") (auto simp: value_at_def cell_def cell_value_def split: option.splits)
qed

section \<open>The parts of one column\<close>

definition column_items :: "'s batch \<Rightarrow> nat \<Rightarrow> (byte list \<times> 's exec_value) list" where
  "column_items b c = map (\<lambda>row. (cell_key (cell b c row), cell b c row)) [0..<num_rows b]"

lemma column_part_ids_numbers:
  assumes b: "grouping_batch columns types b" and c: "c \<in> set columns" and inv: "parts_inv parts"
    and bound: "length (remember_all (part_entries parts) (column_items b c)) \<le> Suc u32_max"
  shows "\<exists>parts'. column_part_ids bytes b c parts
      = Inr (map (\<lambda>row. number (part_entries parts') (cell_key (cell b c row))) [0..<num_rows b], parts')
    \<and> parts_inv parts' \<and> part_entries parts' = remember_all (part_entries parts) (column_items b c)"
proof -
  let ?vs = "decode (batch_columns b ! c)"
  note b' = grouping_batchD [OF b c]
  have vs: "?vs = map (cell b c) [0..<num_rows b]"
    using b'(3) by (simp add: list_eq_iff_nth_eq cell_def)
  have items: "map (\<lambda>v. (cell_key v, v)) ?vs = column_items b c"
    by (simp add: vs column_items_def)
  have "decoded_parts bytes ?vs parts = try_map (\<lambda>(k, v). part bytes k v) (column_items b c) parts"
    unfolding decoded_parts_def items [symmetric] try_map_map
    by (rule try_map_cong) (auto simp: cell_key_Ok [OF decode_typed [OF b'(2)]])
  moreover obtain parts' where "try_map (\<lambda>(k, v). part bytes k v) (column_items b c) parts
      = Inr (map (\<lambda>x. number (remember_all (part_entries parts) (map (\<lambda>x. x) (column_items b c))) (fst x)) (column_items b c), parts')"
    "parts_inv parts'" "part_entries parts' = remember_all (part_entries parts) (map (\<lambda>x. x) (column_items b c))"
    using part.try_map_step [OF inv, of "column_items b c" bytes] bound by auto
  ultimately show ?thesis
    unfolding column_part_ids_decoded_eq [OF b'(1,2)]
    by (simp add: column_items_def)
qed

lemma columns_part_ids_each:
  assumes tab: "group_columns tab = columns" "table_parts tab = Ps" "length Ps = length columns"
    and each: "\<And>i. i < length columns \<Longrightarrow> column_part_ids bytes b (columns ! i) (Ps ! i) = Inr (ids i, ps' i)"
  shows "columns_part_ids bytes b tab
    = Inr (map ids [0..<length columns], tab\<lparr>table_parts := map ps' [0..<length columns]\<rparr>)"
proof -
  let ?w = "length columns"
  let ?step = "\<lambda>i tab. bind_result (column_part_ids bytes b (group_columns tab ! i) (table_parts tab ! i))
      (\<lambda>(ids, parts). Inr (ids, tab\<lparr>table_parts := (table_parts tab)[i := parts]\<rparr>))"
  have step: "try_map ?step [k..<?w] (tab\<lparr>table_parts := map ps' [0..<k] @ drop k Ps\<rparr>)
      = Inr (map ids [k..<?w], tab\<lparr>table_parts := map ps' [0..<?w]\<rparr>)" if "k \<le> ?w" for k
    using that
  proof (induction k rule: inc_induct)
    case base
    then show ?case by (simp add: tab(3))
  next
    case (step k)
    have "(map ps' [0..<k] @ drop k Ps) ! k = Ps ! k"
      using step.hyps tab(3) by (simp add: nth_append)
    moreover have "(map ps' [0..<k] @ drop k Ps)[k := ps' k] = map ps' [0..<Suc k] @ drop (Suc k) Ps"
      using step.hyps tab(3) by (simp add: list_update_append Cons_nth_drop_Suc [symmetric])
    moreover have "[k..<?w] = k # [Suc k..<?w]"
      using step.hyps by (simp add: upt_conv_Cons)
    ultimately show ?case
      using step.IH by (simp add: each step.hyps tab(1) del: upt_Suc)
  qed
  have "tab\<lparr>table_parts := Ps\<rparr> = tab"
    by (simp add: tab(2) [symmetric])
  with step [of 0] show ?thesis
    by (simp add: columns_part_ids_def tab(1))
qed

section \<open>The groups of a table\<close>

text \<open>A group as its key tuple and its labels, by group number.\<close>

definition group_key :: "'s column_parts list \<Rightarrow> nat list \<Rightarrow> byte list list" where
  "group_key Ps ps = map2 (\<lambda>P p. fst (part_entries P ! p)) Ps ps"

definition group_entries :: "'s group_table \<Rightarrow> (byte list list \<times> 's exec_value list) list" where
  "group_entries tab =
     map (\<lambda>g. (group_key (table_parts tab) (parts_of_group tab ! g),
               map (group_label tab g) [0..<length (group_columns tab)])) [0..<group_count tab]"

lemma length_group_entries [simp]: "length (group_entries tab) = length (parts_of_group tab)"
  by (simp add: group_entries_def group_count_def)

text \<open>Tuples of part ids that exist.\<close>

definition tuple_in :: "'s column_parts list \<Rightarrow> nat list \<Rightarrow> bool" where
  "tuple_in Ps ps \<longleftrightarrow> list_all2 (\<lambda>P p. p < length (part_entries P)) Ps ps"

lemma group_key_inj:
  assumes "\<forall>P \<in> set Ps. parts_inv P" and "tuple_in Ps ps" and "tuple_in Ps qs"
    and "group_key Ps ps = group_key Ps qs"
  shows "ps = qs"
  using assms(2,1,3,4) unfolding tuple_in_def group_key_def
proof (induction arbitrary: qs rule: list_all2_induct)
  case (Cons P Ps p ps)
  obtain q qs' where qs: "qs = q # qs'"
    using Cons.prems(2) by (cases qs) simp_all
  have q: "q < length (part_entries P)" and qs': "list_all2 (\<lambda>P p. p < length (part_entries P)) Ps qs'"
    using Cons.prems(2) by (simp_all add: qs)
  have P: "parts_inv P"
    using Cons.prems(1) by simp
  have "map fst (part_entries P) ! p = map fst (part_entries P) ! q"
    using Cons.prems(3) Cons.hyps(1) q by (simp add: qs)
  then have "p = q"
    using nth_eq_iff_index_eq [OF part_entries_keys(3) [OF P]] Cons.hyps(1) q by simp
  moreover have "ps = qs'"
    by (rule Cons.IH) (use Cons.prems qs' in \<open>simp_all add: qs\<close>)
  ultimately show ?case by (simp add: qs)
qed simp

text \<open>The lookups of a table with one group column, whose groups are its parts.\<close>

definition single_inv :: "nat \<Rightarrow> 's group_table \<Rightarrow> bool" where
  "single_inv n tab \<longleftrightarrow>
     parts_of_group tab = map (\<lambda>i. [i]) [0..<n] \<and> group_of_part tab = map Some [0..<n]
     \<and> labels_of_group tab = []"

lemma single_groups:
  assumes "length (group_columns tab) = 1" and "single_inv (length seen) tab"
    and "length (remember_all seen xs) \<le> Suc u32_max"
  shows "\<exists>tab'. try_map (single_group bytes) (map (\<lambda>x. number (remember_all seen xs) (fst x)) xs) tab
      = Inr (map (\<lambda>x. number (remember_all seen xs) (fst x)) xs, tab')
    \<and> group_columns tab' = group_columns tab \<and> table_parts tab' = table_parts tab
    \<and> single_inv (length (remember_all seen xs)) tab'"
  using assms
proof (induction xs arbitrary: seen tab)
  case (Cons x xs)
  let ?seen = "remember seen x"
  have bound: "length ?seen \<le> Suc u32_max"
    using Cons.prems(3) length_remember_all [of ?seen xs] by simp
  have "\<exists>tab1. single_group bytes (number ?seen (fst x)) tab = Inr (number ?seen (fst x), tab1)
    \<and> group_columns tab1 = group_columns tab \<and> table_parts tab1 = table_parts tab
    \<and> single_inv (length ?seen) tab1"
  proof (cases "fst x \<in> fst ` set seen")
    case True
    then show ?thesis
      using Cons.prems(2) number_spec(1) [OF True]
      by (simp add: single_group_def single_inv_def get_def remember_def)
  next
    case False
    then have "number ?seen (fst x) = length seen" "length ?seen = Suc (length seen)"
      using number_new [of "fst x" seen "snd x"] by (simp_all add: remember_def)
    then show ?thesis
      using Cons.prems(1,2) bound
      by (simp add: single_group_def single_inv_def get_def new_group_def Let_def set_group_of_part_def
          list_update_append)
  qed
  then obtain tab1 where tab1: "single_group bytes (number ?seen (fst x)) tab = Inr (number ?seen (fst x), tab1)"
    "group_columns tab1 = group_columns tab" "table_parts tab1 = table_parts tab" "single_inv (length ?seen) tab1"
    by blast
  with Cons.IH [of tab1 ?seen] Cons.prems show ?case
    by (auto simp: number_remember_all_step)
qed simp

text \<open>The lookups of a table with no or several group columns.\<close>

definition tuple_inv :: "bool \<Rightarrow> 's group_table \<Rightarrow> bool" where
  "tuple_inv any_own tab \<longleftrightarrow>
     (\<forall>g < group_count tab. tuple_in (table_parts tab) (parts_of_group tab ! g))
     \<and> (\<forall>ps g. group_of_part_tuple tab ps = Some g \<longleftrightarrow> g < group_count tab \<and> parts_of_group tab ! g = ps)
     \<and> length (labels_of_group tab) = (if any_own then group_count tab else 0)"

lemma group_entries_nth:
  "g < group_count tab \<Longrightarrow> group_entries tab ! g
    = (group_key (table_parts tab) (parts_of_group tab ! g), map (group_label tab g) [0..<length (group_columns tab)])"
  by (simp add: group_entries_def)

lemma tuple_entries_distinct:
  assumes Ps: "\<forall>P \<in> set (table_parts tab). parts_inv P" and inv: "tuple_inv any_own tab"
  shows "distinct (map fst (group_entries tab))"
proof -
  have "g = h" if g: "g < group_count tab" "h < group_count tab"
    and eq: "group_key (table_parts tab) (parts_of_group tab ! g) = group_key (table_parts tab) (parts_of_group tab ! h)" for g h
  proof -
    have "parts_of_group tab ! g = parts_of_group tab ! h"
      using group_key_inj [OF Ps _ _ eq] inv g by (simp add: tuple_inv_def)
    then have "group_of_part_tuple tab (parts_of_group tab ! g) = Some g"
      "group_of_part_tuple tab (parts_of_group tab ! g) = Some h"
      using inv g by (simp_all add: tuple_inv_def)
    then show ?thesis by simp
  qed
  then show ?thesis
    by (auto simp: distinct_conv_nth group_entries_nth group_count_def)
qed

text \<open>A row whose part ids stand for its keys, and whose labels its parts or its own cells give.\<close>

definition row_ok :: "nat list \<Rightarrow> bool list \<Rightarrow> 's column_parts list \<Rightarrow> nat list list \<Rightarrow> 's batch \<Rightarrow> nat \<Rightarrow> bool" where
  "row_ok columns own Ps ids b row \<longleftrightarrow>
     (\<forall>i < length columns.
        ids ! i ! row < length (part_entries (Ps ! i))
        \<and> fst (part_entries (Ps ! i) ! (ids ! i ! row)) = cell_key (cell b (columns ! i) row)
        \<and> (if own ! i then value_at b (columns ! i) row = cell b (columns ! i) row
           else snd (part_entries (Ps ! i) ! (ids ! i ! row)) = cell b (columns ! i) row))"

lemma row_ok_key:
  assumes "row_ok columns own Ps ids b row" and "length Ps = length columns" and "length ids = length columns"
  shows "tuple_in Ps (map (\<lambda>xs. xs ! row) ids)"
    and "group_key Ps (map (\<lambda>xs. xs ! row) ids) = fst (row_item columns b row)"
  using assms
  by (auto simp: row_ok_def tuple_in_def list_all2_conv_all_nth group_key_def row_item_def intro!: nth_equalityI)

lemma first_values_nth:
  assumes "parts_inv P" and "p < length (part_entries P)"
  shows "first_values P ! p = snd (part_entries P ! p)"
  using part_entries_keys(4) [OF assms(1)] assms(2) by (metis nth_map)

text \<open>The labels of a group just made are the values of its row.\<close>

lemma new_tuple_labels:
  assumes Ps: "table_parts tab = Ps" "length Ps = length columns" "\<forall>P \<in> set Ps. parts_inv P"
    and own: "length own = length columns" and ids: "length ids = length columns"
    and row: "row_ok columns own Ps ids b row" and i: "i < length columns"
    and parts: "parts_of_group tab ! g = map (\<lambda>xs. xs ! row) ids"
    and labels: "get (labels_of_group tab) g
      = (if list_ex id own then
           Some (map (\<lambda>(c, keeps). if keeps then Some (value_at b c row) else None) (zip columns own))
         else None)"
  shows "group_label tab g i = cell b (columns ! i) row"
proof (cases "own ! i")
  case True
  have "own ! i \<in> set own"
    using i own by simp
  with True have "list_ex id own"
    by (auto simp only: list_ex_iff id_apply)
  then show ?thesis
    using row i own True by (simp add: group_label_def labels row_ok_def)
next
  case False
  have P: "parts_inv (Ps ! i)"
    using Ps i by simp
  from row i False have row_i: "ids ! i ! row < length (part_entries (Ps ! i))"
    "snd (part_entries (Ps ! i) ! (ids ! i ! row)) = cell b (columns ! i) row"
    by (simp_all add: row_ok_def)
  show ?thesis
    using False i own ids row_i first_values_nth [OF P row_i(1)]
    by (simp add: group_label_def labels Ps(1) parts)
qed

lemma new_tuple_group:
  assumes cols: "group_columns tab = columns" "length columns \<noteq> 1" "length own = length columns"
    and Ps: "table_parts tab = Ps" "length Ps = length columns" "\<forall>P \<in> set Ps. parts_inv P"
    and ids: "length ids = length columns" and row: "row_ok columns own Ps ids b row"
    and inv: "tuple_inv (list_ex id own) tab" and bound: "group_count tab \<le> u32_max"
    and new: "group_of_part_tuple tab (map (\<lambda>xs. xs ! row) ids) = None"
  shows "\<exists>tab'. tuple_group bytes b own ids row tab = Inr (group_count tab, tab')
    \<and> group_columns tab' = columns \<and> table_parts tab' = Ps \<and> tuple_inv (list_ex id own) tab'
    \<and> group_entries tab' = group_entries tab @ [row_item columns b row]"
proof -
  let ?key = "map (\<lambda>xs. xs ! row) ids"
  let ?n = "group_count tab"
  let ?labels = "map (\<lambda>(c, keeps). if keeps then Some (value_at b c row) else None) (zip columns own)"
  obtain tab' where tab': "tuple_group bytes b own ids row tab = Inr (?n, tab')"
    "group_columns tab' = columns" "table_parts tab' = Ps"
    "parts_of_group tab' = parts_of_group tab @ [?key]"
    "group_of_part_tuple tab' = (group_of_part_tuple tab)(?key \<mapsto> ?n)"
    "labels_of_group tab' = labels_of_group tab @ (if list_ex id own then [?labels] else [])"
    using new bound cols(1,2) Ps(1)
    by (simp add: tuple_group_def new_group_def Let_def group_count_def)
  have n': "group_count tab' = Suc ?n"
    by (simp add: group_count_def tab'(4))
  have fresh: "parts_of_group tab ! g \<noteq> ?key" if "g < ?n" for g
    using inv new that by (metis option.distinct(1) tuple_inv_def)
  have old: "group_label tab' g = group_label tab g" if "g < ?n" for g
    using inv that
    by (auto simp: group_label_def tab' Ps(1) fun_eq_iff get_def nth_append group_count_def tuple_inv_def
        split: option.split)
  have "map (group_label tab' ?n) [0..<length columns] = snd (row_item columns b row)"
  proof (rule nth_equalityI)
    have "length (labels_of_group tab) = (if list_ex id own then ?n else 0)"
      using inv by (simp add: tuple_inv_def)
    then have "get (labels_of_group tab') ?n = (if list_ex id own then Some ?labels else None)"
      by (simp add: tab'(6) get_def nth_append)
    moreover have "parts_of_group tab' ! ?n = ?key"
      by (simp add: tab'(4) group_count_def)
    ultimately have "group_label tab' ?n i = cell b (columns ! i) row" if "i < length columns" for i
      using new_tuple_labels [OF tab'(3) Ps(2,3) cols(3) ids row that] by blast
    then show "i < length (map (group_label tab' ?n) [0..<length columns]) \<Longrightarrow>
        map (group_label tab' ?n) [0..<length columns] ! i = snd (row_item columns b row) ! i" for i
      by (simp add: row_item_def)
  qed (simp add: row_item_def)
  then have entries: "group_entries tab' = group_entries tab @ [row_item columns b row]"
    using old row_ok_key(2) [OF row Ps(2) ids]
    by (simp add: group_entries_def n' tab' Ps(1) cols(1) nth_append prod_eq_iff)
      (simp add: group_count_def nth_append)
  have "tuple_inv (list_ex id own) tab'"
    unfolding tuple_inv_def
  proof (intro conjI allI impI)
    fix g assume "g < group_count tab'"
    then show "tuple_in (table_parts tab') (parts_of_group tab' ! g)"
      using inv row_ok_key(1) [OF row Ps(2) ids]
      by (auto simp: n' tab' Ps(1) nth_append group_count_def tuple_inv_def less_Suc_eq)
  next
    fix ps g
    show "(group_of_part_tuple tab' ps = Some g) = (g < group_count tab' \<and> parts_of_group tab' ! g = ps)"
      using inv fresh
      by (auto simp: n' tab' nth_append group_count_def tuple_inv_def less_Suc_eq)
  next
    show "length (labels_of_group tab') = (if list_ex id own then group_count tab' else 0)"
      using inv by (simp add: n' tab' tuple_inv_def)
  qed
  with tab' entries show ?thesis by blast
qed

definition tuple_state :: "nat list \<Rightarrow> bool list \<Rightarrow> 's column_parts list \<Rightarrow> nat list list \<Rightarrow> 's group_table \<Rightarrow> bool" where
  "tuple_state columns own Ps ids tab \<longleftrightarrow>
     length columns \<noteq> 1 \<and> length own = length columns \<and> length Ps = length columns
     \<and> length ids = length columns \<and> (\<forall>P \<in> set Ps. parts_inv P)
     \<and> group_columns tab = columns \<and> table_parts tab = Ps \<and> tuple_inv (list_ex id own) tab"

lemma tuple_step:
  assumes state: "tuple_state columns own Ps ids tab" and row: "row_ok columns own Ps ids b row"
    and bound: "length (remember (group_entries tab) (row_item columns b row)) \<le> Suc u32_max"
  shows "\<exists>tab'. tuple_group bytes b own ids row tab
      = Inr (number (remember (group_entries tab) (row_item columns b row)) (fst (row_item columns b row)), tab')
    \<and> tuple_state columns own Ps ids tab'
    \<and> group_entries tab' = remember (group_entries tab) (row_item columns b row)"
proof -
  let ?key = "map (\<lambda>xs. xs ! row) ids" and ?item = "row_item columns b row"
  note st = state [unfolded tuple_state_def]
  have inv: "tuple_inv (list_ex id own) tab" and Ps: "table_parts tab = Ps" "\<forall>P \<in> set Ps. parts_inv P"
    using st by simp_all
  have key: "tuple_in Ps ?key" "group_key Ps ?key = fst ?item"
    using row_ok_key [OF row] st by simp_all
  show ?thesis
  proof (cases "group_of_part_tuple tab ?key")
    case (Some g)
    then have g: "g < group_count tab" "parts_of_group tab ! g = ?key"
      using inv by (simp_all add: tuple_inv_def)
    then have item: "fst (group_entries tab ! g) = fst ?item"
      using key(2) by (simp add: group_entries_nth Ps(1))
    have g': "g < length (group_entries tab)"
      using g(1) by (simp add: group_count_def)
    have "distinct (map fst (group_entries tab))"
      using tuple_entries_distinct [OF _ inv] Ps by simp
    then have "number (group_entries tab) (fst ?item) = g"
      by (rule number_eqI [OF _ g' item])
    moreover have "fst ?item \<in> fst ` set (group_entries tab)"
      unfolding item [symmetric] by (rule imageI [OF nth_mem [OF g']])
    ultimately have "number (group_entries tab) (fst ?item) = g" "remember (group_entries tab) ?item = group_entries tab"
      by (simp_all add: remember_def)
    with Some state show ?thesis
      by (simp add: tuple_group_def)
  next
    case None
    have "fst ?item \<noteq> fst (group_entries tab ! g)" if g: "g < group_count tab" for g
    proof
      assume "fst ?item = fst (group_entries tab ! g)"
      then have "?key = parts_of_group tab ! g"
        using group_key_inj [OF Ps(2) key(1)] key(2) inv g Ps(1)
        by (simp add: group_entries_nth tuple_inv_def)
      then have "group_of_part_tuple tab ?key = Some g"
        using inv g by (simp add: tuple_inv_def)
      with None show False by simp
    qed
    then have new: "fst ?item \<notin> fst ` set (group_entries tab)"
      by (metis (no_types, lifting) group_count_def image_iff in_set_conv_nth length_group_entries)
    then have "group_count tab \<le> u32_max"
      using bound by (simp add: remember_def group_count_def)
    from new_tuple_group [OF _ _ _ _ _ _ _ row inv this None] st
    obtain tab' where tab': "tuple_group bytes b own ids row tab = Inr (group_count tab, tab')"
      "group_columns tab' = columns" "table_parts tab' = Ps" "tuple_inv (list_ex id own) tab'"
      "group_entries tab' = group_entries tab @ [?item]"
      by blast
    have seen: "remember (group_entries tab) ?item = group_entries tab @ [?item]"
      using new by (simp add: remember_def)
    have "number (group_entries tab @ [?item]) (fst ?item) = group_count tab"
      using number_new [OF new, of "snd ?item"] by (simp add: group_count_def)
    with tab' state show ?thesis
      unfolding seen by (intro exI [of _ tab']) (simp add: tuple_state_def)
  qed
qed

interpretation tuple: numbering "tuple_state columns own Ps ids" group_entries "tuple_group bytes b own ids"
    "row_item columns b" "row_ok columns own Ps ids b"
  for columns own Ps ids bytes b
  by unfold_locales (rule tuple_step)

section \<open>One batch\<close>

abbreviation own_labels :: "nat list \<Rightarrow> (nat \<Rightarrow> data_type) \<Rightarrow> bool list" where
  "own_labels columns types \<equiv> map (\<lambda>c. own_label (Plain (types c))) columns"

text \<open>A table between two batches: every part belongs to a group, and to its column's type.\<close>

definition column_inv :: "nat list \<Rightarrow> (nat \<Rightarrow> data_type) \<Rightarrow> (byte list list \<times> 's exec_value list) list \<Rightarrow> 's column_parts \<Rightarrow> nat \<Rightarrow> bool" where
  "column_inv columns types entries P i \<longleftrightarrow>
     parts_inv P
     \<and> (\<forall>x \<in> set (part_entries P). value_matches (snd x) (types (columns ! i)) True \<and> fst x = cell_key (snd x))
     \<and> fst ` set (part_entries P) = (\<lambda>key. key ! i) ` fst ` set entries"

definition table_inv :: "nat list \<Rightarrow> (nat \<Rightarrow> data_type) \<Rightarrow> 's group_table \<Rightarrow> bool" where
  "table_inv columns types tab \<longleftrightarrow>
     group_columns tab = columns \<and> length (table_parts tab) = length columns
     \<and> (\<forall>i < length columns. column_inv columns types (group_entries tab) (table_parts tab ! i) i)
     \<and> (if length columns = 1 then single_inv (length (part_entries (table_parts tab ! 0))) tab
        else tuple_inv (list_ex id (own_labels columns types)) tab)"

lemma table_inv_new: "table_inv columns types (group_table_new columns)"
  by (auto simp: table_inv_def column_inv_def group_table_new_def single_inv_def tuple_inv_def
      group_entries_def group_count_def)

lemma set_remember_all: "set (remember_all seen xs) \<subseteq> set seen \<union> set xs"
proof (induction xs arbitrary: seen)
  case (Cons x xs)
  from Cons [of "remember seen x"] show ?case
    by (auto simp: remember_def split: if_splits)
qed simp

lemma column_items_keys:
  assumes "i < length columns"
  shows "fst ` set (column_items b (columns ! i)) = (\<lambda>key. key ! i) ` fst ` set (row_items columns b)"
  using assms by (simp add: column_items_def row_items_def row_item_def image_image)

lemma column_keys_remember_all:
  assumes "column_inv columns types entries P i" and "i < length columns"
  shows "fst ` set (remember_all (part_entries P) (column_items b (columns ! i)))
    = (\<lambda>key. key ! i) ` fst ` set (remember_all entries (row_items columns b))"
proof -
  have "fst ` set (part_entries P) = (\<lambda>key. key ! i) ` fst ` set entries"
    using assms(1) unfolding column_inv_def by blast
  then show ?thesis
    by (simp only: keys_remember_all column_items_keys [OF assms(2)] image_Un)
qed

lemma column_bound:
  assumes inv: "column_inv columns types entries P i" and i: "i < length columns"
    and "distinct (map fst entries)"
  shows "length (remember_all (part_entries P) (column_items b (columns ! i)))
    \<le> length (remember_all entries (row_items columns b))"
proof -
  have P: "parts_inv P"
    using inv by (simp add: column_inv_def)
  have "length (remember_all (part_entries P) (column_items b (columns ! i)))
    = card (fst ` set (remember_all (part_entries P) (column_items b (columns ! i))))"
    using distinct_card [OF distinct_remember_all [OF part_entries_keys(3) [OF P]]] by simp
  also have "\<dots> \<le> card (fst ` set (remember_all entries (row_items columns b)))"
    unfolding column_keys_remember_all [OF inv i] by (rule card_image_le) simp
  also have "\<dots> = length (remember_all entries (row_items columns b))"
    using distinct_card [OF distinct_remember_all [OF assms(3)]] by simp
  finally show ?thesis .
qed

lemma column_inv_step:
  assumes inv: "column_inv columns types entries P i" and i: "i < length columns"
    and b: "grouping_batch columns types b" and "parts_inv P'"
    and P': "part_entries P' = remember_all (part_entries P) (column_items b (columns ! i))"
    and entries': "fst ` set entries' = fst ` set (remember_all entries (row_items columns b))"
  shows "column_inv columns types entries' P' i"
proof -
  have "columns ! i \<in> set columns"
    using i by simp
  note b' = grouping_batchD(4) [OF b this]
  have "\<forall>x \<in> set (part_entries P'). value_matches (snd x) (types (columns ! i)) True \<and> fst x = cell_key (snd x)"
  proof
    fix x assume "x \<in> set (part_entries P')"
    then have "x \<in> set (part_entries P) \<or> x \<in> set (column_items b (columns ! i))"
      using set_remember_all unfolding P' by blast
    then show "value_matches (snd x) (types (columns ! i)) True \<and> fst x = cell_key (snd x)"
    proof
      assume "x \<in> set (part_entries P)"
      then show ?thesis using inv by (simp add: column_inv_def)
    next
      assume "x \<in> set (column_items b (columns ! i))"
      then show ?thesis using b' by (auto simp: column_items_def)
    qed
  qed
  moreover have "fst ` set (part_entries P') = (\<lambda>key. key ! i) ` fst ` set entries'"
    unfolding P' entries' by (rule column_keys_remember_all [OF inv i])
  ultimately show ?thesis
    using \<open>parts_inv P'\<close> by (simp add: column_inv_def)
qed

text \<open>The columns' part ids of a batch.\<close>

lemma columns_step:
  assumes inv: "table_inv columns types tab" and b: "grouping_batch columns types b"
    and distinct: "distinct (map fst (group_entries tab))"
    and bound: "length (remember_all (group_entries tab) (row_items columns b)) \<le> Suc u32_max"
  shows "\<exists>Ps'. columns_part_ids bytes b tab
      = Inr (map (\<lambda>i. map (\<lambda>row. number (part_entries (Ps' ! i)) (cell_key (cell b (columns ! i) row)))
            [0..<num_rows b]) [0..<length columns], tab\<lparr>table_parts := Ps'\<rparr>)
    \<and> length Ps' = length columns
    \<and> (\<forall>i < length columns. parts_inv (Ps' ! i)
        \<and> part_entries (Ps' ! i) = remember_all (part_entries (table_parts tab ! i)) (column_items b (columns ! i)))"
proof -
  let ?w = "length columns"
  let ?ids = "\<lambda>P i. map (\<lambda>row. number (part_entries P) (cell_key (cell b (columns ! i) row))) [0..<num_rows b]"
  have tab: "group_columns tab = columns" "length (table_parts tab) = ?w"
    and cinv: "\<And>i. i < ?w \<Longrightarrow> column_inv columns types (group_entries tab) (table_parts tab ! i) i"
    using inv by (simp_all add: table_inv_def)
  have "\<exists>P'. column_part_ids bytes b (columns ! i) (table_parts tab ! i) = Inr (?ids P' i, P')
      \<and> parts_inv P' \<and> part_entries P' = remember_all (part_entries (table_parts tab ! i)) (column_items b (columns ! i))"
    if i: "i < ?w" for i
    using column_part_ids_numbers [OF b, of "columns ! i"] cinv [OF i] i
      column_bound [OF cinv [OF i] i distinct, of b] bound
    by (simp add: column_inv_def)
  then obtain ps' where ps': "\<And>i. i < ?w \<Longrightarrow>
      column_part_ids bytes b (columns ! i) (table_parts tab ! i) = Inr (?ids (ps' i) i, ps' i)
      \<and> parts_inv (ps' i) \<and> part_entries (ps' i) = remember_all (part_entries (table_parts tab ! i)) (column_items b (columns ! i))"
    by metis
  have "columns_part_ids bytes b tab
      = Inr (map (\<lambda>i. ?ids (ps' i) i) [0..<?w], tab\<lparr>table_parts := map ps' [0..<?w]\<rparr>)"
    by (rule columns_part_ids_each [OF tab(1) refl tab(2)]) (use ps' in blast)
  then show ?thesis
    using ps' by (intro exI [of _ "map ps' [0..<?w]"]) simp
qed

text \<open>With one group column the groups are the parts.\<close>

definition singleton_item :: "'k \<times> 'v \<Rightarrow> 'k list \<times> 'v list" where
  "singleton_item x = ([fst x], [snd x])"

lemma fst_singleton_item [simp]: "fst (singleton_item x) = [fst x]"
  by (simp add: singleton_item_def)

lemma remember_all_singletons:
  "remember_all (map singleton_item seen) (map singleton_item xs) = map singleton_item (remember_all seen xs)"
proof -
  have "remember (map singleton_item seen) (singleton_item x) = map singleton_item (remember seen x)"
    for seen :: "('a \<times> 'b) list" and x
    by (auto simp: remember_def singleton_item_def image_iff)
  then show ?thesis
    by (induction xs arbitrary: seen) simp_all
qed

lemma number_singletons: "number (map singleton_item seen) [k] = number seen k"
proof -
  have "position (\<lambda>x. fst x = [k]) (map singleton_item seen) = position (\<lambda>x. fst x = k) seen"
    by (induction seen) simp_all
  then show ?thesis by (simp add: number_def)
qed

lemma single_entries:
  assumes "length (group_columns tab) = 1" and "table_parts tab = [P]" and "parts_inv P"
    and "single_inv (length (part_entries P)) tab"
  shows "group_entries tab = map singleton_item (part_entries P)"
proof (rule nth_equalityI)
  show "length (group_entries tab) = length (map singleton_item (part_entries P))"
    using assms(4) by (simp add: single_inv_def)
  fix i assume "i < length (group_entries tab)"
  then have i: "i < length (part_entries P)" "i < group_count tab"
    using assms(4) by (simp_all add: single_inv_def group_count_def)
  have "parts_of_group tab ! i = [i]" "labels_of_group tab = []"
    using assms(4) i by (simp_all add: single_inv_def)
  then show "group_entries tab ! i = map singleton_item (part_entries P) ! i"
    using i assms(1,2) first_values_nth [OF assms(3) i(1)]
    by (simp add: group_entries_nth group_key_def group_label_def get_def singleton_item_def)
qed

lemma group_ids_single:
  assumes inv: "table_inv [c] types tab" and b: "grouping_batch [c] types b"
    and bound: "length (remember_all (group_entries tab) (row_items [c] b)) \<le> Suc u32_max"
  shows "\<exists>tab'. group_ids bytes b tab
      = Inr (map (\<lambda>x. number (group_entries tab') (fst x)) (row_items [c] b), tab')
    \<and> table_inv [c] types tab'
    \<and> group_entries tab' = remember_all (group_entries tab) (row_items [c] b)"
proof -
  have tab: "group_columns tab = [c]" and cinv: "column_inv [c] types (group_entries tab) (table_parts tab ! 0) 0"
    using inv by (simp_all add: table_inv_def)
  obtain P where P: "table_parts tab = [P]"
    using inv by (auto simp: table_inv_def length_Suc_conv)
  then have "parts_inv P" and single: "single_inv (length (part_entries P)) tab"
    using cinv inv by (simp_all add: column_inv_def table_inv_def)
  with P tab have entries: "group_entries tab = map singleton_item (part_entries P)"
    by (intro single_entries) simp_all
  let ?E = "remember_all (part_entries P) (column_items b c)"
  have rows: "row_items [c] b = map singleton_item (column_items b c)"
    by (simp add: row_items_def column_items_def row_item_def singleton_item_def)
  have seen: "remember_all (group_entries tab) (row_items [c] b) = map singleton_item ?E"
    by (simp add: entries rows remember_all_singletons)
  have "distinct (map fst (group_entries tab))"
    using part_entries_keys(3) [OF \<open>parts_inv P\<close>] by (simp add: entries distinct_map inj_on_def comp_def)
  from columns_step [OF inv b this bound, of bytes] P obtain P' where
    "columns_part_ids bytes b tab = Inr ([map (\<lambda>row. number (part_entries P') (cell_key (cell b c row)))
      [0..<num_rows b]], tab\<lparr>table_parts := [P']\<rparr>)"
    and P': "parts_inv P'" "part_entries P' = ?E"
    by (auto simp: length_Suc_conv)
  then have columns: "columns_part_ids bytes b tab
      = Inr ([map (\<lambda>x. number ?E (fst x)) (column_items b c)], tab\<lparr>table_parts := [P']\<rparr>)"
    by (simp add: column_items_def comp_def)
  have "length ?E \<le> Suc u32_max"
    using bound by (simp add: seen)
  from single_groups [OF _ _ this, of "tab\<lparr>table_parts := [P']\<rparr>" bytes] single tab
  obtain tab' where tab': "try_map (single_group bytes) (map (\<lambda>x. number ?E (fst x)) (column_items b c))
      (tab\<lparr>table_parts := [P']\<rparr>) = Inr (map (\<lambda>x. number ?E (fst x)) (column_items b c), tab')"
    "group_columns tab' = [c]" "table_parts tab' = [P']" "single_inv (length ?E) tab'"
    by (auto simp: single_inv_def)
  have entries': "group_entries tab' = map singleton_item ?E"
    using single_entries [OF _ tab'(3) P'(1)] tab' P'(2) by simp
  have "column_inv [c] types (group_entries tab') P' 0"
    using column_inv_step [OF cinv [unfolded P] _ b P'(1)] P'(2) by (simp add: entries' seen)
  then have "table_inv [c] types tab'"
    using tab' P'(2) by (simp add: table_inv_def)
  moreover have "group_ids bytes b tab = Inr (map (\<lambda>x. number (group_entries tab') (fst x)) (row_items [c] b), tab')"
    using tab'(1) columns by (simp add: group_ids_def tab entries' rows number_singletons comp_def)
  ultimately show ?thesis
    by (intro exI [of _ tab']) (simp add: entries' seen)
qed

text \<open>With several, new parts leave the groups there are as they were.\<close>

lemma group_entries_extend:
  assumes inv: "tuple_inv any_own tab" and w: "length (table_parts tab) = w" "length Ps' = w" "length (group_columns tab) = w"
    and P: "\<And>i. i < w \<Longrightarrow> parts_inv (table_parts tab ! i)" and P': "\<And>i. i < w \<Longrightarrow> parts_inv (Ps' ! i)"
    and ext: "\<And>i. i < w \<Longrightarrow> \<exists>zs. part_entries (Ps' ! i) = part_entries (table_parts tab ! i) @ zs"
  shows "tuple_inv any_own (tab\<lparr>table_parts := Ps'\<rparr>)"
    and "group_entries (tab\<lparr>table_parts := Ps'\<rparr>) = group_entries tab"
proof -
  let ?tab = "tab\<lparr>table_parts := Ps'\<rparr>"
  have len: "length (parts_of_group tab ! g) = w" and p: "\<And>i. i < w \<Longrightarrow> parts_of_group tab ! g ! i < length (part_entries (table_parts tab ! i))"
    if "g < group_count tab" for g
    using inv that w by (auto simp: tuple_inv_def tuple_in_def list_all2_conv_all_nth)
  have nth: "part_entries (Ps' ! i) ! q = part_entries (table_parts tab ! i) ! q" "q < length (part_entries (Ps' ! i))"
    if "i < w" "q < length (part_entries (table_parts tab ! i))" for i q
    using ext [OF that(1)] that(2) by (auto simp: nth_append)
  show "tuple_inv any_own ?tab"
    using inv len p nth(2) w(2)
    by (simp add: tuple_inv_def tuple_in_def list_all2_conv_all_nth group_count_def)
  have "group_key Ps' (parts_of_group tab ! g) = group_key (table_parts tab) (parts_of_group tab ! g)"
    if "g < group_count tab" for g
    using len [OF that] p [OF that] nth(1) w by (auto simp: group_key_def intro!: nth_equalityI)
  moreover have "group_label ?tab g i = group_label tab g i" if "g < group_count tab" "i < w" for g i
    using nth [OF that(2) p [OF that]] first_values_nth [OF P [OF that(2)] p [OF that]]
      first_values_nth [OF P' [OF that(2)] nth(2) [OF that(2) p [OF that]]]
    by (simp add: group_label_def split: option.split)
  ultimately show "group_entries ?tab = group_entries tab"
    using w(3) by (simp add: group_entries_def group_count_def)
qed

lemma row_ok_numbers:
  assumes b: "grouping_batch columns types b" and row: "row < num_rows b"
    and cinv: "\<And>i. i < length columns \<Longrightarrow> column_inv columns types entries (Ps ! i) i"
    and keys: "\<And>i. i < length columns \<Longrightarrow> cell_key (cell b (columns ! i) row) \<in> fst ` set (part_entries (Ps ! i))"
  shows "row_ok columns (own_labels columns types) Ps
    (map (\<lambda>i. map (\<lambda>row. number (part_entries (Ps ! i)) (cell_key (cell b (columns ! i) row))) [0..<num_rows b])
      [0..<length columns]) b row"
  unfolding row_ok_def
proof (intro allI impI)
  fix i assume i: "i < length columns"
  let ?v = "cell b (columns ! i) row"
  let ?p = "number (part_entries (Ps ! i)) (cell_key ?v)"
  have c: "columns ! i \<in> set columns"
    using i by simp
  note p = number_spec [OF keys [OF i]]
  have "part_entries (Ps ! i) ! ?p \<in> set (part_entries (Ps ! i))"
    using p(1) by simp
  then have typed: "value_matches (snd (part_entries (Ps ! i) ! ?p)) (types (columns ! i)) True"
    "fst (part_entries (Ps ! i) ! ?p) = cell_key (snd (part_entries (Ps ! i) ! ?p))"
    using cinv [OF i] unfolding column_inv_def by blast+
  have "snd (part_entries (Ps ! i) ! ?p) = ?v" if "\<not> own_label (Plain (types (columns ! i)))"
    by (rule own_label_sound [OF that typed(1) grouping_batchD(4) [OF b c row]]) (use p(2) typed(2) in simp)
  moreover have "value_at b (columns ! i) row = ?v"
    by (rule value_at_cell [OF b c row])
  ultimately show "map (\<lambda>i. map (\<lambda>row. number (part_entries (Ps ! i)) (cell_key (cell b (columns ! i) row))) [0..<num_rows b])
        [0..<length columns] ! i ! row < length (part_entries (Ps ! i))
    \<and> fst (part_entries (Ps ! i) ! (map (\<lambda>i. map (\<lambda>row. number (part_entries (Ps ! i)) (cell_key (cell b (columns ! i) row))) [0..<num_rows b])
        [0..<length columns] ! i ! row)) = cell_key ?v
    \<and> (if own_labels columns types ! i then value_at b (columns ! i) row = ?v
       else snd (part_entries (Ps ! i) ! (map (\<lambda>i. map (\<lambda>row. number (part_entries (Ps ! i)) (cell_key (cell b (columns ! i) row))) [0..<num_rows b])
        [0..<length columns] ! i ! row)) = ?v)"
    using i row p by simp
qed

text \<open>The group of every row, once the columns have their parts.\<close>

lemma tuple_groups:
  assumes b: "grouping_batch columns types b" and w: "length columns \<noteq> 1" "length Ps = length columns"
    and tab: "group_columns tab = columns" "table_parts tab = Ps"
    and tinv: "tuple_inv (list_ex id (own_labels columns types)) tab"
    and cinv: "\<And>i. i < length columns \<Longrightarrow>
      column_inv columns types (remember_all (group_entries tab) (row_items columns b)) (Ps ! i) i"
    and bound: "length (remember_all (group_entries tab) (row_items columns b)) \<le> Suc u32_max"
  shows "\<exists>tab'. try_map (tuple_group bytes b (own_labels columns types)
      (map (\<lambda>i. map (\<lambda>row. number (part_entries (Ps ! i)) (cell_key (cell b (columns ! i) row))) [0..<num_rows b])
        [0..<length columns])) [0..<num_rows b] tab
      = Inr (map (\<lambda>x. number (group_entries tab') (fst x)) (row_items columns b), tab')
    \<and> table_inv columns types tab'
    \<and> group_entries tab' = remember_all (group_entries tab) (row_items columns b)"
proof -
  let ?own = "own_labels columns types" and ?seen = "remember_all (group_entries tab) (row_items columns b)"
  let ?ids = "map (\<lambda>i. map (\<lambda>row. number (part_entries (Ps ! i)) (cell_key (cell b (columns ! i) row)))
      [0..<num_rows b]) [0..<length columns]"
  have "\<forall>P \<in> set Ps. parts_inv P"
    using cinv w(2) by (auto simp: in_set_conv_nth column_inv_def)
  then have state: "tuple_state columns ?own Ps ?ids tab"
    using w tab tinv by (simp add: tuple_state_def)
  have keys: "cell_key (cell b (columns ! i) row) \<in> fst ` set (part_entries (Ps ! i))"
    if i: "i < length columns" and row: "row < num_rows b" for i row
  proof -
    have "fst (row_item columns b row) \<in> fst ` set ?seen"
      using row by (auto simp: keys_remember_all row_items_def)
    moreover have "fst (row_item columns b row) ! i = cell_key (cell b (columns ! i) row)"
      using i by (simp add: row_item_def)
    moreover have "fst ` set (part_entries (Ps ! i)) = (\<lambda>key. key ! i) ` fst ` set ?seen"
      using cinv [OF i] unfolding column_inv_def by blast
    ultimately show ?thesis
      by (metis imageI)
  qed
  have "row_ok columns ?own Ps ?ids b row" if "row < num_rows b" for row
    by (rule row_ok_numbers [OF b that cinv keys [OF _ that]])
  then obtain tab' where tab': "try_map (tuple_group bytes b ?own ?ids) [0..<num_rows b] tab
      = Inr (map (\<lambda>row. number ?seen (fst (row_item columns b row))) [0..<num_rows b], tab')"
    "tuple_state columns ?own Ps ?ids tab'" "group_entries tab' = ?seen"
    using tuple.try_map_step [OF state, of "[0..<num_rows b]" b bytes] bound by (auto simp: row_items_def)
  have "table_inv columns types tab'"
    using tab'(2,3) cinv w by (simp add: table_inv_def tuple_state_def)
  with tab' show ?thesis
    by (intro exI [of _ tab']) (simp add: row_items_def comp_def)
qed

lemma group_ids_many:
  assumes "1 < length (group_columns tab)"
  shows "group_ids bytes b tab =
    bind_result (columns_part_ids bytes b tab) (\<lambda>(columns, tab).
      try_map (tuple_group bytes b
        (map (\<lambda>c. own_label (dtype (schema_fields (batch_schema b) ! c))) (group_columns tab)) columns)
        [0..<num_rows b] tab)"
proof -
  obtain c d cs where "group_columns tab = c # d # cs"
    using assms by (cases "group_columns tab" rule: remdups_adj.cases) simp_all
  then show ?thesis
    by (simp only: group_ids_def list.case Let_def)
qed

lemma group_ids_tuple:
  assumes inv: "table_inv columns types tab" and b: "grouping_batch columns types b"
    and w: "1 < length columns"
    and bound: "length (remember_all (group_entries tab) (row_items columns b)) \<le> Suc u32_max"
  shows "\<exists>tab'. group_ids bytes b tab
      = Inr (map (\<lambda>x. number (group_entries tab') (fst x)) (row_items columns b), tab')
    \<and> table_inv columns types tab'
    \<and> group_entries tab' = remember_all (group_entries tab) (row_items columns b)"
proof -
  let ?own = "own_labels columns types" and ?w = "length columns"
  let ?ids = "\<lambda>Ps'. map (\<lambda>i. map (\<lambda>row. number (part_entries (Ps' ! i)) (cell_key (cell b (columns ! i) row)))
      [0..<num_rows b]) [0..<length columns]"
  have tab: "group_columns tab = columns" "length (table_parts tab) = ?w" and tinv: "tuple_inv (list_ex id ?own) tab"
    and cinv: "\<And>i. i < ?w \<Longrightarrow> column_inv columns types (group_entries tab) (table_parts tab ! i) i"
    using inv w by (simp_all add: table_inv_def)
  have pinv: "\<forall>P \<in> set (table_parts tab). parts_inv P"
    using cinv tab(2) by (auto simp: in_set_conv_nth column_inv_def)
  obtain Ps' where Ps': "columns_part_ids bytes b tab = Inr (?ids Ps', tab\<lparr>table_parts := Ps'\<rparr>)" "length Ps' = ?w"
    and P': "\<And>i. i < ?w \<Longrightarrow> parts_inv (Ps' ! i)"
    and E': "\<And>i. i < ?w \<Longrightarrow> part_entries (Ps' ! i) = remember_all (part_entries (table_parts tab ! i)) (column_items b (columns ! i))"
    using columns_step [OF inv b tuple_entries_distinct [OF pinv tinv] bound] by blast
  have "\<exists>zs. part_entries (Ps' ! i) = part_entries (table_parts tab ! i) @ zs" if "i < ?w" for i
    unfolding E' [OF that] by (rule remember_all_extends)
  note ext = group_entries_extend [OF tinv tab(2) Ps'(2) _ _ P' this]
  have tab1: "tuple_inv (list_ex id ?own) (tab\<lparr>table_parts := Ps'\<rparr>)"
    "group_entries (tab\<lparr>table_parts := Ps'\<rparr>) = group_entries tab"
    using ext cinv tab(1) by (simp_all add: column_inv_def)
  have cinv': "column_inv columns types (remember_all (group_entries tab) (row_items columns b)) (Ps' ! i) i"
    if "i < ?w" for i
    by (rule column_inv_step [OF cinv [OF that] that b P' [OF that] E' [OF that] refl])
  have own: "map (\<lambda>c. own_label (dtype (schema_fields (batch_schema b) ! c))) columns = ?own"
    using grouping_batchD(1) [OF b] by simp
  have ids: "group_ids bytes b tab = try_map (tuple_group bytes b ?own (?ids Ps')) [0..<num_rows b] (tab\<lparr>table_parts := Ps'\<rparr>)"
    using w by (subst group_ids_many) (simp_all add: Ps'(1) tab(1) own del: map_eq_conv)
  show ?thesis
    using tuple_groups [OF b _ Ps'(2), of "tab\<lparr>table_parts := Ps'\<rparr>" bytes] w tab1 cinv' bound tab(1)
    by (simp only: ids tab1) simp
qed

text \<open>With none, every row is in the one group.\<close>

lemma group_ids_none:
  assumes inv: "table_inv [] types tab"
  shows "\<exists>tab'. group_ids bytes b tab
      = Inr (map (\<lambda>x. number (group_entries tab') (fst x)) (row_items [] b), tab')
    \<and> table_inv [] types tab'
    \<and> group_entries tab' = remember_all (group_entries tab) (row_items [] b)"
proof -
  have tab: "group_columns tab = []" "table_parts tab = []" and tinv: "tuple_inv False tab"
    using inv by (simp_all add: table_inv_def)
  have empty: "parts_of_group tab ! g = []" if "g < group_count tab" for g
    using tinv that by (simp add: tuple_inv_def tuple_in_def tab)
  then have "group_of_part_tuple tab [] = Some g" if "g < group_count tab" for g
    using tinv that by (simp add: tuple_inv_def)
  then have "g = 0" if "g < group_count tab" for g
    using that by (metis gr_zeroI option.inject order.strict_trans)
  then have few: "group_count tab \<le> 1"
    by (metis One_nat_def Suc_leI lessI not_less)
  have rows: "row_items [] b = replicate (num_rows b) ([], [])"
    by (rule nth_equalityI) (simp_all add: row_items_def row_item_def)
  have again: "remember_all [([], [])] (replicate n ([], [])) = [([], []) :: _ list \<times> _ list]" for n
    by (induction n) (simp_all add: remember_def)
  have number: "number [([], []) :: byte list list \<times> 's exec_value list] [] = 0"
    by (simp add: number_def)
  have entries: "group_entries t = replicate (group_count t) ([], [])"
    if "group_columns t = []" "table_parts t = []" for t :: "'s group_table"
    using that by (simp add: group_entries_def group_key_def map_replicate_const)
  show ?thesis
  proof (cases "parts_of_group tab = [] \<and> 0 < num_rows b")
    case True
    then obtain m where m: "num_rows b = Suc m"
      using gr0_conv_Suc by blast
    have labels: "labels_of_group tab = []"
      using tinv by (simp add: tuple_inv_def)
    define tab' where "tab' = tab\<lparr>group_memory := group_memory tab + map_entry_bytes,
      group_of_part_tuple := (group_of_part_tuple tab)([] \<mapsto> 0), parts_of_group := [[]]\<rparr>"
    have "group_ids bytes b tab = Inr (replicate (num_rows b) 0, tab')"
      using True by (simp add: group_ids_def tab new_group_def Let_def tab'_def)
    moreover have "tuple_inv False tab'"
      using True tinv labels by (auto simp: tuple_inv_def tab'_def tuple_in_def tab group_count_def)
    moreover have "group_entries tab' = [([], [])]"
      by (simp add: entries tab'_def tab group_count_def)
    moreover have "group_entries tab = []"
      using True by (simp add: entries tab group_count_def)
    ultimately show ?thesis
      by (intro exI [of _ tab']) (simp add: rows m remember_def again number table_inv_def tab'_def tab)
  next
    case False
    then have "group_ids bytes b tab = Inr (replicate (num_rows b) 0, tab)"
      by (auto simp: group_ids_def tab)
    moreover have "num_rows b = 0 \<or> group_entries tab = [([], [])]"
      using False few by (cases "group_count tab") (auto simp: entries tab group_count_def)
    ultimately show ?thesis
      using inv by (intro exI [of _ tab]) (auto simp: rows again number)
  qed
qed

lemma group_ids_step:
  assumes "table_inv columns types tab" and "grouping_batch columns types b"
    and "length (remember_all (group_entries tab) (row_items columns b)) \<le> Suc u32_max"
  shows "\<exists>tab'. group_ids bytes b tab
      = Inr (map (\<lambda>x. number (group_entries tab') (fst x)) (row_items columns b), tab')
    \<and> table_inv columns types tab'
    \<and> group_entries tab' = remember_all (group_entries tab) (row_items columns b)"
proof (cases columns rule: remdups_adj.cases)
  case 1
  with assms(1) group_ids_none show ?thesis by blast
next
  case (2 c)
  with assms group_ids_single [of c types tab b] show ?thesis by simp
next
  case (3 c d cs)
  with assms show ?thesis by (intro group_ids_tuple) simp_all
qed

section \<open>Any batches\<close>

lemma group_ids_batches:
  assumes "table_inv columns types tab" and "\<forall>b \<in> set bs. grouping_batch columns types b"
    and "length (remember_all (group_entries tab) (concat (map (row_items columns) bs))) \<le> Suc u32_max"
  shows "\<exists>tab'. try_map (group_ids bytes) bs tab
      = Inr (map (\<lambda>b. map (\<lambda>x. number (group_entries tab') (fst x)) (row_items columns b)) bs, tab')
    \<and> table_inv columns types tab'
    \<and> group_entries tab' = remember_all (group_entries tab) (concat (map (row_items columns) bs))"
  using assms
proof (induction bs arbitrary: tab)
  case Nil
  then show ?case by simp
next
  case (Cons b bs)
  let ?rows = "concat (map (row_items columns) bs)"
  have "length (remember_all (group_entries tab) (row_items columns b)) \<le> Suc u32_max"
    using Cons.prems(3) length_remember_all [of "remember_all (group_entries tab) (row_items columns b)" ?rows]
    by (simp add: remember_all_append)
  then obtain tab1 where tab1: "group_ids bytes b tab
      = Inr (map (\<lambda>x. number (group_entries tab1) (fst x)) (row_items columns b), tab1)"
    "table_inv columns types tab1" "group_entries tab1 = remember_all (group_entries tab) (row_items columns b)"
    using group_ids_step [OF Cons.prems(1)] Cons.prems(2) by (metis list.set_intros(1))
  from Cons.IH [OF tab1(2)] Cons.prems(2,3) tab1(3) obtain tab' where tab':
    "try_map (group_ids bytes) bs tab1
      = Inr (map (\<lambda>b. map (\<lambda>x. number (group_entries tab') (fst x)) (row_items columns b)) bs, tab')"
    "table_inv columns types tab'" "group_entries tab' = remember_all (group_entries tab1) ?rows"
    by (auto simp: remember_all_append)
  have "number (group_entries tab1) (fst x) = number (group_entries tab') (fst x)"
    if "x \<in> set (row_items columns b)" for x
    unfolding tab'(3)
    by (rule number_remember_all [symmetric]) (use that in \<open>simp add: tab1(3) keys_remember_all\<close>)
  then show ?case
    using tab1 tab' by (intro exI [of _ tab']) (simp add: remember_all_append)
qed

lemma group_table_new_simps [simp]:
  "group_entries (group_table_new columns) = []"
  by (simp add: group_entries_def group_table_new_def group_count_def)

text \<open>
  C32: over any batches of one schema with at most \<open>2 ^ 32\<close> distinct groups, \<open>group_ids\<close> succeeds;
  two rows of any two batches have one group exactly when the keys of their group columns agree,
  groups are numbered as they first appear, and every group is labelled with the very values of its
  first row.
\<close>

theorem group_ids_number_groups:
  assumes "\<forall>b \<in> set bs. grouping_batch columns types b"
    and "length (remember_all [] (concat (map (row_items columns) bs))) \<le> Suc u32_max"
  shows "\<exists>tab. try_map (group_ids bytes) bs (group_table_new columns)
      = Inr (map (\<lambda>b. map (\<lambda>x. number (remember_all [] (concat (map (row_items columns) bs))) (fst x))
          (row_items columns b)) bs, tab)
    \<and> group_count tab = length (remember_all [] (concat (map (row_items columns) bs)))
    \<and> (\<forall>g < group_count tab. map (group_label tab g) [0..<length columns]
        = snd (remember_all [] (concat (map (row_items columns) bs)) ! g))"
proof -
  let ?seen = "remember_all [] (concat (map (row_items columns) bs))"
  obtain tab where tab: "try_map (group_ids bytes) bs (group_table_new columns)
      = Inr (map (\<lambda>b. map (\<lambda>x. number (group_entries tab) (fst x)) (row_items columns b)) bs, tab)"
    "table_inv columns types tab" "group_entries tab = ?seen"
    using group_ids_batches [OF table_inv_new assms(1), of bytes] assms(2) by auto
  then have "group_count tab = length ?seen"
    by (metis group_count_def length_group_entries)
  moreover have "map (group_label tab g) [0..<length columns] = snd (?seen ! g)" if "g < group_count tab" for g
    using group_entries_nth [OF that] tab(2,3) by (simp add: table_inv_def)
  ultimately show ?thesis
    using tab(1,3) by (intro exI [of _ tab]) simp
qed

definition example_types :: "nat \<Rightarrow> data_type" where
  "example_types c = (if c = 0 then Utf8Type else Float64Type)"

lemma grouping_example_rows:
  "grouping_batch [0, 1] example_types grouping_example"
  "row_items [0, 1] grouping_example =
    [([[4, 98], [3, 0, 0, 0, 0, 0, 0, 0, 0]], [VUtf8 ''b'', VFloat64 f64_zero]),
     ([[0], [3, 0, 0, 0, 0, 0, 0, 240, 63]], [VNull, VFloat64 f64_one]),
     ([[4, 98], [3, 0, 0, 0, 0, 0, 0, 0, 0]], [VUtf8 ''b'', VFloat64 f64_neg_zero]),
     ([[4, 97], [0]], [VUtf8 ''a'', VNull])]"
proof -
  show "grouping_batch [0, 1] example_types grouping_example"
    by (simp add: grouping_batch_def grouping_example_def schema_new_def has_layout_def example_types_def)
  have keys: "cell_key (VFloat64 f64_zero :: unit exec_value) = [3, 0, 0, 0, 0, 0, 0, 0, 0]"
    "cell_key (VFloat64 f64_neg_zero :: unit exec_value) = [3, 0, 0, 0, 0, 0, 0, 0, 0]"
    "cell_key (VFloat64 f64_one :: unit exec_value) = [3, 0, 0, 0, 0, 0, 0, 240, 63]"
    by (simp_all add: cell_key_def le_bytes_def canonical_bits_def f64_eq_def f64_classes f64_consts f64_mag_def
        f64_key_def f64_sign_def upt_rec drop_bit_eq_div)
  have others: "cell_key (VNull :: unit exec_value) = [0]" "cell_key (VUtf8 s :: unit exec_value) = 4 # text_bytes s" for s
    by (simp_all add: cell_key_def)
  show "row_items [0, 1] grouping_example = [([[4, 98], [3, 0, 0, 0, 0, 0, 0, 0, 0]], [VUtf8 ''b'', VFloat64 f64_zero]),
     ([[0], [3, 0, 0, 0, 0, 0, 0, 240, 63]], [VNull, VFloat64 f64_one]),
     ([[4, 98], [3, 0, 0, 0, 0, 0, 0, 0, 0]], [VUtf8 ''b'', VFloat64 f64_neg_zero]),
     ([[4, 97], [0]], [VUtf8 ''a'', VNull])]"
    by (simp add: keys others row_items_def grouping_example_def upt_rec row_item_def cell_def cell_value_def
        text_bytes_def)
qed

theorem group_ids_number_groups_witness:
  "\<exists>tab. try_map (group_ids (\<lambda>_. 0)) [grouping_example] (group_table_new [0, 1]) = Inr ([[0, 1, 0, 2]], tab)
    \<and> group_count tab = 3
    \<and> map (group_label tab 0) [0..<2] = [VUtf8 ''b'', VFloat64 f64_zero]"
proof -
  have batches: "\<forall>b \<in> set [grouping_example]. grouping_batch [0, 1] example_types b"
    using grouping_example_rows(1) by simp
  have rows: "concat (map (row_items [0, 1]) [grouping_example]) = row_items [0, 1] grouping_example"
    by simp
  let ?seen = "[([[4, 98], [3, 0, 0, 0, 0, 0, 0, 0, 0]], [VUtf8 ''b'', VFloat64 f64_zero]),
     ([[0], [3, 0, 0, 0, 0, 0, 0, 240, 63]], [VNull, VFloat64 f64_one]),
     ([[4, 97], [0]], [VUtf8 ''a'', VNull])] :: (byte list list \<times> unit exec_value list) list"
  have seen: "remember_all [] (row_items [0, 1] grouping_example) = ?seen"
    unfolding grouping_example_rows(2) by (simp add: remember_def)
  then have "length (remember_all [] (concat (map (row_items [0, 1]) [grouping_example]))) \<le> Suc u32_max"
    unfolding rows by (simp add: u32_max_def)
  from group_ids_number_groups [OF batches this, of "\<lambda>_. 0", unfolded rows seen] obtain tab where tab:
    "try_map (group_ids (\<lambda>_. 0)) [grouping_example] (group_table_new [0, 1])
      = Inr (map (\<lambda>b. map (\<lambda>x. number ?seen (fst x)) (row_items [0, 1] b)) [grouping_example], tab)"
    "group_count tab = length ?seen"
    "\<forall>g < group_count tab. map (group_label tab g) [0..<length [0 :: nat, 1]] = snd (?seen ! g)"
    by blast
  have "map (\<lambda>x. number ?seen (fst x)) (row_items [0, 1] grouping_example) = [0, 1, 0, 2]"
    unfolding grouping_example_rows(2) by (simp add: number_def)
  moreover have "map (group_label tab 0) [0..<2] = [VUtf8 ''b'', VFloat64 f64_zero]"
    using spec [OF tab(3), of 0] tab(2) by (simp add: numeral_2_eq_2)
  ultimately show ?thesis
    using tab(1,2) by (intro exI [of _ tab]) simp
qed

end
