(* ===== verification/GroupOrder.thy ===== *)
theory GroupOrder
  imports GroupNumbers
begin

text \<open>
  The order of the groups (\<^verbatim>\<open>groups_in_key_order\<close>): sorting groups by the ranks of their parts is
  sorting them by their tuples of keys.
\<close>

section \<open>Ranks\<close>

lemma fold_ranks:
  assumes "distinct (map snd xs)" and "\<forall>x \<in> set xs. snd x < length rs"
  shows "(\<forall>i < length xs.
        fold (\<lambda>(position, (_, p)) rank. rank[p := position]) (enumerate k xs) rs ! snd (xs ! i) = k + i)
    \<and> (\<forall>q. q \<notin> snd ` set xs \<longrightarrow>
        fold (\<lambda>(position, (_, p)) rank. rank[p := position]) (enumerate k xs) rs ! q = rs ! q)"
  using assms
proof (induction xs arbitrary: k rs)
  case (Cons x xs)
  obtain a p where x: "x = (a, p)" by (cases x)
  have IH: "i < length xs \<Longrightarrow>
      fold (\<lambda>(position, (_, p)) rank. rank[p := position]) (enumerate (Suc k) xs) (rs[p := k]) ! snd (xs ! i) = Suc k + i"
    "q \<notin> snd ` set xs \<Longrightarrow>
      fold (\<lambda>(position, (_, p)) rank. rank[p := position]) (enumerate (Suc k) xs) (rs[p := k]) ! q = rs[p := k] ! q" for i q
    using Cons.IH [of "rs[p := k]" "Suc k"] Cons.prems by auto
  have "p \<notin> snd ` set xs" "p < length rs"
    using Cons.prems by (auto simp: x)
  with IH show ?case
    by (auto simp: x nth_Cons' less_Suc_eq_0_disj)
qed simp

text \<open>The positions written compare as the sort keys do.\<close>

lemma positions_compare:
  assumes xs: "distinct (map snd xs)" "\<forall>x \<in> set xs. snd x < length rs" and keys: "sorted_wrt (<) (map fst xs)"
    and a: "(a :: 'k::linorder, p) \<in> set xs" and b: "(b, q) \<in> set xs"
  shows "cmp (fold (\<lambda>(position, (_, p)) rank. rank[p := position]) (enumerate 0 xs) rs ! p)
      (fold (\<lambda>(position, (_, p)) rank. rank[p := position]) (enumerate 0 xs) rs ! q) = cmp a b"
proof -
  obtain i where i: "i < length xs" "xs ! i = (a, p)"
    using a by (auto simp: in_set_conv_nth)
  obtain j where j: "j < length xs" "xs ! j = (b, q)"
    using b by (auto simp: in_set_conv_nth)
  note written = conjunct1 [OF fold_ranks [OF xs, of 0], rule_format]
  have less: "fst (xs ! k) < fst (xs ! l)" if "k < l" "l < length xs" for k l
    using sorted_wrt_nth_less [OF keys that(1)] that by simp
  show ?thesis
    using written [OF i(1)] written [OF j(1)] less [of i j] less [of j i] i j
    by (cases i j rule: linorder_cases) (auto simp: cmp_def)
qed

lemma part_of_key_snd:
  assumes "parts_inv P"
  shows "snd ` set (part_of_key P) = {..<length (part_entries P)}"
    and "distinct (map snd (part_of_key P))"
proof -
  have ids: "map snd (part_of_key P) = rev [0..<length (part_entries P)]"
    using assms part_entries_keys(2) [OF assms] by (simp add: parts_inv_def)
  from arg_cong [OF this, of set] show "snd ` set (part_of_key P) = {..<length (part_entries P)}"
    by auto
  show "distinct (map snd (part_of_key P))"
    by (simp add: ids)
qed

lemma part_of_key_entries:
  assumes "parts_inv P" and "(key, p) \<in> set (part_of_key P)"
  shows "fst (part_entries P ! p) = key" and "p < length (part_entries P)"
proof -
  have "map_of (part_of_key P) key = Some p"
    using assms by (auto simp: parts_inv_def)
  then have key: "key \<in> fst ` set (part_entries P)" "number (part_entries P) key = p"
    using map_of_part_of_key [OF assms(1), of key] by (auto split: if_splits)
  then show "fst (part_entries P ! p) = key" "p < length (part_entries P)"
    using number_spec [OF key(1)] by auto
qed

text \<open>Ranks compare as keys do.\<close>

lemma ranks_less:
  assumes inv: "parts_inv P" and p: "p < length (part_entries P)" and q: "q < length (part_entries P)"
  shows "cmp (ranks P ! p) (ranks P ! q) = cmp (fst (part_entries P ! p)) (fst (part_entries P ! q))"
proof -
  let ?xs = "sort_key fst (part_of_key P)"
  have xs: "distinct (map snd ?xs)"
    using part_of_key_snd(2) [OF inv] by (metis distinct_map distinct_sort set_sort)
  have bound: "\<forall>x \<in> set ?xs. snd x < length (replicate (length ?xs) (0 :: nat))"
    using part_of_key_snd(1) [OF inv] part_entries_keys(2) [OF inv] by auto
  have keys: "sorted_wrt (<) (map fst ?xs)"
    using inv by (auto simp: parts_inv_def strict_sorted_iff distinct_map)
  have place: "(fst (part_entries P ! r), r) \<in> set ?xs" if r: "r < length (part_entries P)" for r
  proof -
    have "r \<in> snd ` set (part_of_key P)"
      using r part_of_key_snd(1) [OF inv] by simp
    then obtain key where "(key, r) \<in> set (part_of_key P)"
      by auto
    with part_of_key_entries(1) [OF inv this] show ?thesis by simp
  qed
  show ?thesis
    using positions_compare [OF xs bound keys place [OF p] place [OF q]] by (simp add: ranks_def Let_def)
qed

section \<open>The order of groups\<close>

lemma cmp_Cons: "cmp (x # xs) (y # ys) = then_ordering (cmp x y) (cmp xs ys)"
  by (auto simp: cmp_def)

lemma ranks_compare_keys:
  assumes "tuple_in Ps ps" and "tuple_in Ps qs" and "\<forall>P \<in> set Ps. parts_inv P"
  shows "first_difference
      (map (\<lambda>((a, b), rank). cmp (rank ! a) (rank ! b)) (zip (zip ps qs) (map ranks Ps)))
    = cmp (group_key Ps ps) (group_key Ps qs)"
  using assms unfolding tuple_in_def group_key_def
proof (induction arbitrary: qs rule: list_all2_induct)
  case Nil
  then show ?case by (simp add: cmp_def)
next
  case (Cons P Ps p ps)
  obtain q qs' where qs: "qs = q # qs'"
    using Cons.prems(1) by (auto simp: list_all2_Cons1)
  have "cmp (ranks P ! p) (ranks P ! q) = cmp (fst (part_entries P ! p)) (fst (part_entries P ! q))"
    by (rule ranks_less) (use Cons.prems Cons.hyps qs in auto)
  with Cons qs show ?case by (simp add: cmp_Cons)
qed

lemma table_tuples:
  assumes "table_inv columns types tab" and "g < group_count tab"
  shows "tuple_in (table_parts tab) (parts_of_group tab ! g)"
proof (cases "length columns = 1")
  case True
  then obtain P where "table_parts tab = [P]"
    using assms(1) by (auto simp: table_inv_def length_Suc_conv)
  with True assms show ?thesis
    by (auto simp: table_inv_def single_inv_def group_count_def tuple_in_def)
qed (use assms in \<open>simp add: table_inv_def tuple_inv_def\<close>)

definition group_tuple :: "'s group_table \<Rightarrow> nat \<Rightarrow> byte list list" where
  "group_tuple tab g = group_key (table_parts tab) (parts_of_group tab ! g)"

lemma stable_sort_cong:
  assumes "\<And>a b. a \<in> set xs \<Longrightarrow> b \<in> set xs \<Longrightarrow> c a b = d a b"
  shows "stable_sort c xs = stable_sort d xs"
proof -
  have insert: "(\<And>b. b \<in> set ys \<Longrightarrow> c x b = d x b) \<Longrightarrow> insert_stable c x ys = insert_stable d x ys" for x ys
    by (induction ys) auto
  have "set ys \<subseteq> set xs \<Longrightarrow> stable_sort c ys = stable_sort d ys" for ys
  proof (induction ys)
    case (Cons y ys)
    have "insert_stable c y (stable_sort d ys) = insert_stable d y (stable_sort d ys)"
      by (rule insert) (use assms Cons.prems in auto)
    with Cons show ?case by (simp add: stable_sort_def)
  qed (simp add: stable_sort_def)
  then show ?thesis by simp
qed

lemma stable_sort_cmp: "stable_sort (\<lambda>a b. cmp (f a) (f b)) xs = sort_key f xs"
proof -
  have "insert_stable (\<lambda>a b. cmp (f a) (f b)) x ys = insort_key f x ys" for x ys
    by (induction ys) auto
  then have "insert_stable (\<lambda>a b. cmp (f a) (f b)) = insort_key f"
    by (intro ext)
  then show ?thesis
    by (simp add: stable_sort_def sort_key_def)
qed

lemma groups_in_key_order_sort:
  assumes inv: "table_inv columns types tab"
  shows "groups_in_key_order tab = sort_key (group_tuple tab) [0..<group_count tab]"
proof -
  have parts: "\<forall>P \<in> set (table_parts tab). parts_inv P"
    using inv by (auto simp: table_inv_def column_inv_def in_set_conv_nth)
  have "first_difference
      (map (\<lambda>((a, b), rank). cmp (rank ! a) (rank ! b))
        (zip (zip (parts_of_group tab ! g) (parts_of_group tab ! h)) (map ranks (table_parts tab))))
    = cmp (group_tuple tab g) (group_tuple tab h)"
    if "g < group_count tab" "h < group_count tab" for g h
    unfolding group_tuple_def by (rule ranks_compare_keys) (use table_tuples [OF inv] that parts in auto)
  then have "groups_in_key_order tab
      = stable_sort (\<lambda>g h. cmp (group_tuple tab g) (group_tuple tab h)) [0..<group_count tab]"
    unfolding groups_in_key_order_def Let_def by (intro stable_sort_cong) simp
  then show ?thesis
    by (simp add: stable_sort_cmp)
qed

lemma group_tuple_nth:
  "g < group_count tab \<Longrightarrow> group_tuple tab g = fst (group_entries tab ! g)"
  by (simp add: group_tuple_def group_entries_nth)

lemma sort_key_cong:
  assumes "\<And>x. x \<in> set xs \<Longrightarrow> f x = g x"
  shows "sort_key f xs = sort_key g xs"
  using assms
proof (induction xs)
  case (Cons x xs)
  have "(\<And>y. y \<in> set ys \<Longrightarrow> f y = g y) \<Longrightarrow> insort_key f x ys = insort_key g x ys" for ys
    using Cons.prems by (induction ys) auto
  from this [of "sort_key g xs"] Cons show ?case by simp
qed simp

text \<open>
  C37: after any batches, \<open>groups_in_key_order\<close> lists every group once, sorted by the tuple of its keys' bytes:
  the order of the groups is that of their keys, column by column, whatever order the rows came in.
\<close>

theorem groups_listed_in_key_order:
  assumes "\<forall>b \<in> set bs. grouping_batch columns types b"
    and "length (remember_all [] (concat (map (row_items columns) bs))) \<le> Suc u32_max"
  shows "\<exists>ids tab. try_map (group_ids bytes) bs (group_table_new columns) = Inr (ids, tab)
    \<and> groups_in_key_order tab
      = sort_key (\<lambda>g. fst (remember_all [] (concat (map (row_items columns) bs)) ! g))
          [0..<length (remember_all [] (concat (map (row_items columns) bs)))]"
proof -
  let ?seen = "remember_all [] (concat (map (row_items columns) bs))"
  obtain ids tab where tab: "try_map (group_ids bytes) bs (group_table_new columns) = Inr (ids, tab)"
    "table_inv columns types tab" "group_entries tab = ?seen"
    using group_ids_batches [OF table_inv_new assms(1), of bytes] assms(2) by auto
  moreover have "group_count tab = length ?seen"
    using tab(3) by (metis group_count_def length_group_entries)
  moreover from this have "sort_key (group_tuple tab) [0..<length ?seen] = sort_key (\<lambda>g. fst (?seen ! g)) [0..<length ?seen]"
    using tab(3) group_tuple_nth [of _ tab] by (intro sort_key_cong) simp
  ultimately show ?thesis
    using groups_in_key_order_sort [OF tab(2)] by auto
qed

lemma example_seen:
  "remember_all [] (row_items [0, 1] grouping_example) =
    [([[4, 98], [3, 0, 0, 0, 0, 0, 0, 0, 0]], [VUtf8 ''b'', VFloat64 f64_zero]),
     ([[0], [3, 0, 0, 0, 0, 0, 0, 240, 63]], [VNull, VFloat64 f64_one]),
     ([[4, 97], [0]], [VUtf8 ''a'', VNull])]"
  unfolding grouping_example_rows(2) by (simp add: remember_def)

theorem groups_listed_in_key_order_witness:
  "\<exists>ids tab. try_map (group_ids (\<lambda>_. 0)) [grouping_example] (group_table_new [0, 1]) = Inr (ids, tab)
    \<and> groups_in_key_order tab = [1, 2, 0]"
proof -
  have batches: "\<forall>b \<in> set [grouping_example]. grouping_batch [0, 1] example_types b"
    using grouping_example_rows(1) by simp
  have rows: "concat (map (row_items [0, 1]) [grouping_example]) = row_items [0, 1] grouping_example"
    by simp
  have "length (remember_all [] (concat (map (row_items [0, 1]) [grouping_example]))) \<le> Suc u32_max"
    unfolding rows example_seen by (simp add: u32_max_def)
  from groups_listed_in_key_order [OF batches this, of "\<lambda>_. 0", unfolded rows example_seen]
  have "\<exists>ids tab. try_map (group_ids (\<lambda>_. 0)) [grouping_example] (group_table_new [0, 1]) = Inr (ids, tab)
    \<and> groups_in_key_order tab = [Suc 0, Suc (Suc 0), 0]"
    by (simp add: upt_rec)
  then show ?thesis
    by (simp only: numeral_2_eq_2 One_nat_def)
qed

end
