(* ===== verification/RowChunks.thy ===== *)
theory RowChunks
  imports GroupOrder
begin

text \<open>
  Grouping a batch a chunk of rows at a time (\<^verbatim>\<open>row_chunks\<close>, \<^verbatim>\<open>chunked_group_ids\<close>) gives each row the
  number that grouping the whole batch gives it.
\<close>

section \<open>Slices\<close>

lemma decode_slice: "decode (array_slice offset len a) = take len (drop offset (decode a))"
  by (cases a) (simp_all add: take_map drop_map)

lemma has_layout_slice:
  assumes "has_layout a t"
  shows "has_layout (array_slice offset len a) t"
  using assms
  by (cases a; cases t)
    (auto simp: has_layout_def list_all_iff dest!: in_set_takeD in_set_dropD split: data_type.splits)

text \<open>Every column of a batch has as many rows as the batch.\<close>

definition even_columns :: "'s batch \<Rightarrow> bool" where
  "even_columns b \<longleftrightarrow> list_all (\<lambda>a. length (decode a) = num_rows b) (batch_columns b)"

lemma slice_schema: "batch_schema (batch_slice offset len b) = batch_schema b"
  by (simp add: batch_slice_def)

lemma grouping_slice:
  assumes b: "grouping_batch columns types b" and cols: "\<forall>c \<in> set columns. c < length (batch_columns b)"
    and inside: "offset + len \<le> num_rows b"
  shows "grouping_batch columns types (batch_slice offset len b)"
    and "row_items columns (batch_slice offset len b) = map (row_item columns b) [offset..<offset + len]"
proof -
  have rows: "num_rows (batch_slice offset len b) = len"
    using inside by (auto simp: batch_slice_def)
  have column: "decode (batch_columns (batch_slice offset len b) ! c) = take len (drop offset (decode (batch_columns b ! c)))
      \<and> has_layout (batch_columns (batch_slice offset len b) ! c) (types c)" if c: "c \<in> set columns" for c
  proof -
    have "length (decode (batch_columns b ! c)) = num_rows b" "has_layout (batch_columns b ! c) (types c)"
      using b c by (auto simp: grouping_batch_def list_all_iff)
    then show ?thesis
      using cols c by (auto simp: batch_slice_def decode_slice has_layout_slice)
  qed
  show "grouping_batch columns types (batch_slice offset len b)"
    using b column inside by (auto simp: grouping_batch_def list_all_iff slice_schema rows)
  have "cell (batch_slice offset len b) c r = cell b c (offset + r)" if "c \<in> set columns" "r < len" for c r
    using column [OF that(1)] that b inside by (auto simp: cell_def grouping_batch_def list_all_iff)
  then have "row_item columns (batch_slice offset len b) r = row_item columns b (offset + r)" if "r < len" for r
    using that by (simp add: row_item_def)
  then show "row_items columns (batch_slice offset len b) = map (row_item columns b) [offset..<offset + len]"
    by (auto simp: row_items_def rows intro: nth_equalityI)
qed

section \<open>Chunks\<close>

lemma concat_spans:
  assumes "0 < k"
  shows "concat (map (\<lambda>i. [i * k..<i * k + min k (n - i * k)]) [0..<m]) = [0..<min n (m * k)]"
proof (induction m)
  case (Suc m)
  have "min n (m * k) = m * k \<or> n \<le> m * k"
    by auto
  moreover have "min n (Suc m * k) = m * k + min k (n - m * k)" if "m * k \<le> n"
    using that by auto
  moreover have "[0..<m * k] @ [m * k..<m * k + j] = [0..<m * k + j]" for j
    by (simp add: upt_add_eq_append [of 0])
  ultimately show ?case
    using Suc by (cases "m * k \<le> n") auto
qed simp

lemma row_chunks_cover: "n \<le> (n + rows_per_chunk - 1) div rows_per_chunk * rows_per_chunk"
  by (simp add: rows_per_chunk_def)

lemma row_chunks_items:
  assumes b: "grouping_batch columns types b" and cols: "\<forall>c \<in> set columns. c < length (batch_columns b)"
  shows "\<forall>chunk \<in> set (row_chunks b). grouping_batch columns types chunk"
    and "concat (map (row_items columns) (row_chunks b)) = row_items columns b"
proof -
  let ?k = rows_per_chunk and ?m = "(num_rows b + rows_per_chunk - 1) div rows_per_chunk"
  have inside: "i * ?k + min ?k (num_rows b - i * ?k) \<le> num_rows b" if "i < ?m" for i
  proof -
    have "i * ?k \<le> num_rows b"
      using that by (simp add: rows_per_chunk_def)
    then show ?thesis by simp
  qed
  note slice = grouping_slice [OF b cols inside]
  show "\<forall>chunk \<in> set (row_chunks b). grouping_batch columns types chunk"
    by (auto simp: row_chunks_def intro: slice(1))
  have "map (row_items columns) (row_chunks b)
      = map (\<lambda>i. map (row_item columns b) [i * ?k..<i * ?k + min ?k (num_rows b - i * ?k)]) [0..<?m]"
    unfolding row_chunks_def by (simp add: slice(2))
  then have "concat (map (row_items columns) (row_chunks b))
      = map (row_item columns b) (concat (map (\<lambda>i. [i * ?k..<i * ?k + min ?k (num_rows b - i * ?k)]) [0..<?m]))"
    by (simp add: map_concat comp_def)
  also have "\<dots> = row_items columns b"
    using row_chunks_cover [of "num_rows b"]
    by (simp add: concat_spans rows_per_chunk_def row_items_def min_absorb1)
  finally show "concat (map (row_items columns) (row_chunks b)) = row_items columns b" .
qed

lemma chunked_group_ids_step:
  assumes inv: "table_inv columns types tab" and b: "grouping_batch columns types b"
    and cols: "\<forall>c \<in> set columns. c < length (batch_columns b)"
    and bound: "length (remember_all (group_entries tab) (row_items columns b)) \<le> Suc u32_max"
    and granted: "\<And>bytes. granted bytes"
  shows "\<exists>tab'. chunked_group_ids bytes granted False held b tab
      = Inr (map (\<lambda>x. number (group_entries tab') (fst x)) (row_items columns b), tab')
    \<and> table_inv columns types tab'
    \<and> group_entries tab' = remember_all (group_entries tab) (row_items columns b)"
proof -
  note chunks = row_chunks_items [OF b cols]
  obtain tab' where tab': "try_map (group_ids bytes) (row_chunks b) tab
      = Inr (map (\<lambda>b. map (\<lambda>x. number (group_entries tab') (fst x)) (row_items columns b)) (row_chunks b), tab')"
    "table_inv columns types tab'" "group_entries tab' = remember_all (group_entries tab) (row_items columns b)"
    using group_ids_batches [OF inv chunks(1), of bytes] bound chunks(2) by auto
  have plain: "(\<lambda>chunk tab. bind_result (group_ids bytes chunk tab) (\<lambda>(ids, tab).
      if \<not> granted (held + memory_bytes tab + 4 * num_rows b) then Err MemoryLimit
      else if False then Err Cancelled else Ok (ids, tab))) = group_ids bytes"
    by (intro ext) (simp add: granted bind_result_def split: sum.splits prod.splits)
  have "concat (map (\<lambda>b. map (\<lambda>x. number (group_entries tab') (fst x)) (row_items columns b)) (row_chunks b))
      = map (\<lambda>x. number (group_entries tab') (fst x)) (row_items columns b)"
    unfolding chunks(2) [symmetric] by (simp add: map_concat comp_def)
  with tab' show ?thesis
    by (simp only: chunked_group_ids_def plain) simp
qed

end
