(* ===== verification/Limit.thy ===== *)
theory Limit
  imports RowChunks
begin

text \<open>
  The limit operator (\<^verbatim>\<open>executor/src/operators/limit.rs\<close>): of each group's rows, those from the
  \<open>offset\<close>-th on, at most \<open>n\<close>; a limit without groups stops reading its input once it has them.
\<close>

section \<open>Filtering a batch\<close>

text \<open>\<^verbatim>\<open>arrow::compute::filter_record_batch\<close> with a mask without NULLs; a dictionary keeps its texts.\<close>

definition pick :: "bool list \<Rightarrow> 'a list \<Rightarrow> 'a list" where
  "pick keep xs = map snd (filter fst (zip keep xs))"

fun array_filter :: "bool list \<Rightarrow> 's array \<Rightarrow> 's array" where
  "array_filter keep (DictionaryArray keys texts) = DictionaryArray (pick keep keys) texts"
| "array_filter keep (Int64Array cells) = Int64Array (pick keep cells)"
| "array_filter keep (TimestampArray cells) = TimestampArray (pick keep cells)"
| "array_filter keep (Float64Array cells) = Float64Array (pick keep cells)"
| "array_filter keep (BooleanArray cells) = BooleanArray (pick keep cells)"
| "array_filter keep (DecodedArray vs) = DecodedArray (pick keep vs)"

text \<open>\<^verbatim>\<open>Batch::filter\<close>.\<close>

definition batch_filter :: "bool list \<Rightarrow> 's batch \<Rightarrow> 's batch" where
  "batch_filter keep b =
     (if length (filter id keep) = num_rows b then b
      else b\<lparr>batch_columns := map (array_filter keep) (batch_columns b), num_rows := length (filter id keep)\<rparr>)"

section \<open>The operator\<close>

text \<open>
  The closure over the groups of one batch: whether the row is kept, and its group's count after it
  (\<^verbatim>\<open>saturating_sub\<close> is the subtraction of \<open>nat\<close>).
\<close>

definition keep_row :: "nat \<Rightarrow> nat \<Rightarrow> nat \<Rightarrow> nat list \<Rightarrow> bool \<times> nat list" where
  "keep_row n offset g seen =
     (let count = seen ! g in
      (offset \<le> count \<and> count - offset < n, seen[g := saturating_add_u64 count 1]))"

text \<open>
  One batch. \<open>capacity\<close> is the capacity of a \<^verbatim>\<open>Vec\<close> grown to a length, \<open>granted\<close> whether the run grants a
  workspace of so many bytes, \<open>cancelled\<close> what its checkpoints read.
\<close>

definition resized :: "nat \<Rightarrow> nat list \<Rightarrow> nat list" where
  "resized len seen = take len seen @ replicate (len - length seen) 0"

definition limit_batch ::
  "('s exec_value \<Rightarrow> nat) \<Rightarrow> (nat \<Rightarrow> nat) \<Rightarrow> (nat \<Rightarrow> bool) \<Rightarrow> bool \<Rightarrow> nat \<Rightarrow> nat \<Rightarrow> nat list \<Rightarrow> 's batch
   \<Rightarrow> 's group_table \<times> nat list \<Rightarrow> ('s batch \<times> 's group_table \<times> nat list \<times> bool) exec_result" where
  "limit_batch bytes capacity granted cancelled n offset groups b = (\<lambda>(tab, seen).
     bind_result (chunked_group_ids bytes granted cancelled (capacity (length seen) * 8) b tab) (\<lambda>(ids, tab).
       let seen = resized (group_count tab) seen in
       if \<not> granted (memory_bytes tab + capacity (length seen) * 8) then Err MemoryLimit
       else
         let (keep, seen) = map_st (keep_row n offset) ids seen;
             ended = (groups = [] \<and> (case first seen of Some c \<Rightarrow> n \<le> c - offset | None \<Rightarrow> False))
         in Ok (batch_filter keep b, tab, seen, ended)))"

text \<open>
  The stream of \<^verbatim>\<open>limit::execute\<close> over the batches its input answers with, each with the memory and the
  cancellation of its turn: the batches it yields, and the error it ends with.
\<close>

type_synonym 's limit_turn = "'s batch exec_result \<times> (nat \<Rightarrow> bool) \<times> bool"

fun limit_stream ::
  "('s exec_value \<Rightarrow> nat) \<Rightarrow> (nat \<Rightarrow> nat) \<Rightarrow> nat \<Rightarrow> nat \<Rightarrow> nat list \<Rightarrow> 's limit_turn list
   \<Rightarrow> 's group_table \<times> nat list \<times> bool \<Rightarrow> 's batch list \<times> exec_error option" where
  "limit_stream bytes capacity n offset groups [] state = ([], None)"
| "limit_stream bytes capacity n offset groups ((answer, granted, cancelled) # turns) (tab, seen, ended) =
     (if ended \<or> n = 0 then ([], None)
      else
        case bind_result answer (\<lambda>b. limit_batch bytes capacity granted cancelled n offset groups b (tab, seen)) of
          Inl e \<Rightarrow> ([], Some e)
        | Inr (kept, state) \<Rightarrow>
            (case limit_stream bytes capacity n offset groups turns state of
               (out, error) \<Rightarrow> (kept # out, error)))"

definition limit_execute ::
  "('s exec_value \<Rightarrow> nat) \<Rightarrow> (nat \<Rightarrow> nat) \<Rightarrow> nat \<Rightarrow> nat \<Rightarrow> nat list \<Rightarrow> 's limit_turn list
   \<Rightarrow> 's batch list \<times> exec_error option" where
  "limit_execute bytes capacity n offset groups turns =
     limit_stream bytes capacity n offset groups turns (group_table_new groups, [], False)"

section \<open>Picking rows\<close>

lemma pick_simps [simp]:
  "pick [] xs = []" "pick keep [] = []" "pick (k # keep) (x # xs) = (if k then x # pick keep xs else pick keep xs)"
  by (simp_all add: pick_def)

lemma pick_map: "pick keep (map f xs) = map f (pick keep xs)"
  by (simp add: pick_def zip_map2 filter_map comp_def split_beta)

lemma length_pick: "length keep = length xs \<Longrightarrow> length (pick keep xs) = length (filter id keep)"
  by (induction rule: list_induct2) auto

lemma pick_nth: "length keep = length xs \<Longrightarrow> pick keep xs = map ((!) xs) (pick keep [0..<length xs])"
  by (metis map_nth pick_map)

lemma pick_all: "length keep = length xs \<Longrightarrow> length (filter id keep) = length xs \<Longrightarrow> pick keep xs = xs"
proof (induction rule: list_induct2)
  case (Cons k keep x xs)
  then show ?case
    using length_filter_le [of "\<lambda>k. k" keep] by (auto split: if_splits)
qed simp

lemma decode_filter: "decode (array_filter keep a) = pick keep (decode a)"
  by (cases a) (simp_all add: pick_map)

text \<open>The rows of a batch, as the values of its columns.\<close>

definition batch_row :: "'s batch \<Rightarrow> nat \<Rightarrow> 's exec_value list" where
  "batch_row b r = map (\<lambda>a. decode a ! r) (batch_columns b)"

definition batch_rows :: "'s batch \<Rightarrow> 's exec_value list list" where
  "batch_rows b = map (batch_row b) [0..<num_rows b]"

lemma pick_upt_less: "i \<in> set (pick keep [0..<m]) \<Longrightarrow> i < m"
  by (auto simp: pick_def dest: set_zip_rightD)

lemma batch_rows_filter:
  assumes even: "even_columns b" and keep: "length keep = num_rows b"
  shows "batch_rows (batch_filter keep b) = pick keep (batch_rows b)"
proof (cases "length (filter id keep) = num_rows b")
  case True
  then show ?thesis
    using keep by (simp add: batch_filter_def pick_all batch_rows_def)
next
  case False
  let ?at = "pick keep [0..<num_rows b]"
  have len: "length (filter id keep) = length ?at"
    using keep by (simp add: length_pick)
  have "decode (array_filter keep a) ! r = decode a ! (?at ! r)" if "a \<in> set (batch_columns b)" "r < length ?at" for a r
    using that even keep pick_nth [of keep "decode a"] by (simp add: decode_filter even_columns_def list_all_iff)
  then have "batch_rows (batch_filter keep b) = map (\<lambda>r. batch_row b (?at ! r)) [0..<length ?at]"
    using False len by (simp add: batch_filter_def batch_rows_def batch_row_def)
  also have "\<dots> = map (batch_row b) ?at"
    by (metis (no_types, lifting) length_map map_map map_nth comp_apply map_cong)
  finally show ?thesis
    by (simp add: batch_rows_def pick_map)
qed

section \<open>The rows a limit keeps\<close>

text \<open>
  Of rows given by their keys: the \<open>i\<close>-th is kept when the number of earlier rows with its key is in the
  window. \<open>kept_mask\<close> walks the rows behind those in \<open>earlier\<close>.
\<close>

definition in_window :: "nat \<Rightarrow> nat \<Rightarrow> nat \<Rightarrow> bool" where
  "in_window n offset c \<longleftrightarrow> offset \<le> c \<and> c < offset + n"

definition limit_rows :: "nat \<Rightarrow> nat \<Rightarrow> ('k \<times> 'a) list \<Rightarrow> 'a list" where
  "limit_rows n offset rows =
     map (\<lambda>i. snd (rows ! i))
       (filter (\<lambda>i. in_window n offset (count_list (map fst (take i rows)) (fst (rows ! i)))) [0..<length rows])"

fun kept_mask :: "nat \<Rightarrow> nat \<Rightarrow> 'k list \<Rightarrow> 'k list \<Rightarrow> bool list" where
  "kept_mask n offset earlier [] = []"
| "kept_mask n offset earlier (k # ks) =
     in_window n offset (count_list earlier k) # kept_mask n offset (earlier @ [k]) ks"

lemma length_kept_mask [simp]: "length (kept_mask n offset earlier ks) = length ks"
  by (induction ks arbitrary: earlier) simp_all

lemma limit_rows_snoc:
  "limit_rows n offset (rows @ [x]) =
     limit_rows n offset rows @ (if in_window n offset (count_list (map fst rows) (fst x)) then [snd x] else [])"
proof -
  have "filter (\<lambda>i. in_window n offset (count_list (map fst (take i (rows @ [x]))) (fst ((rows @ [x]) ! i)))) [0..<length rows]
      = filter (\<lambda>i. in_window n offset (count_list (map fst (take i rows)) (fst (rows ! i)))) [0..<length rows]"
    by (rule filter_cong) (simp_all add: nth_append)
  then show ?thesis
    by (auto simp: limit_rows_def nth_append)
qed

lemma limit_rows_append:
  "limit_rows n offset (rows @ xs) =
     limit_rows n offset rows @ pick (kept_mask n offset (map fst rows) (map fst xs)) (map snd xs)"
proof (induction xs arbitrary: rows)
  case (Cons x xs)
  show ?case
    using Cons [of "rows @ [x]"] by (simp add: limit_rows_snoc)
qed simp

lemma limit_rows_none: "limit_rows 0 offset rows = []"
  by (simp add: limit_rows_def in_window_def)

lemma limit_rows_past:
  assumes "\<forall>x \<in> set xs. offset + n \<le> count_list (map fst rows) (fst x)"
  shows "limit_rows n offset (rows @ xs) = limit_rows n offset rows"
  using assms
proof (induction xs rule: rev_induct)
  case (snoc x xs)
  have "offset + n \<le> count_list (map fst (rows @ xs)) (fst x)"
    using snoc.prems by (simp add: count_list_append trans_le_add1)
  then have "\<not> in_window n offset (count_list (map fst (rows @ xs)) (fst x))"
    by (simp add: in_window_def)
  with snoc show ?case
    by (simp add: limit_rows_snoc flip: append_assoc del: map_append)
qed simp

section \<open>Counting by group\<close>

text \<open>\<open>seen\<close> holds, for every group of the entries, the number of earlier rows with its key.\<close>

definition counted :: "('k \<times> 'b) list \<Rightarrow> 'k list \<Rightarrow> nat list \<Rightarrow> bool" where
  "counted entries earlier seen \<longleftrightarrow>
     length seen = length entries \<and> (\<forall>g < length entries. seen ! g = count_list earlier (fst (entries ! g)))"

lemma number_nth:
  assumes "distinct (map fst entries)" and "g < length entries"
  shows "number entries (fst (entries ! g)) = g"
proof -
  have "fst (entries ! g) \<in> fst ` set entries"
    using assms(2) by simp
  from number_spec [OF this] have "number entries (fst (entries ! g)) < length entries"
    "map fst entries ! number entries (fst (entries ! g)) = map fst entries ! g"
    using assms(2) by auto
  with nth_eq_iff_index_eq [OF assms(1)] assms(2) show ?thesis by simp
qed

lemma keep_rows:
  assumes dist: "distinct (map fst entries)" and known: "set ks \<subseteq> fst ` set entries"
    and seen: "counted entries earlier seen" and room: "length earlier + length ks \<le> u64_max"
  shows "\<exists>seen'. map_st (keep_row n offset) (map (number entries) ks) seen = (kept_mask n offset earlier ks, seen')
    \<and> counted entries (earlier @ ks) seen'"
  using known seen room
proof (induction ks arbitrary: earlier seen)
  case (Cons k ks)
  let ?g = "number entries k"
  have g: "?g < length entries" "fst (entries ! ?g) = k"
    using number_spec [of k entries] Cons.prems(1) by auto
  have c: "seen ! ?g = count_list earlier k"
    using Cons.prems(2) g by (auto simp: counted_def)
  have "saturating_add_u64 (count_list earlier k) 1 = count_list earlier k + 1"
    using Cons.prems(3) count_le_length [of earlier k] by (simp add: saturating_add_u64_def)
  then have "counted entries (earlier @ [k]) (seen[?g := saturating_add_u64 (seen ! ?g) 1])"
    using Cons.prems(2) g c number_nth [OF dist]
    by (auto simp: counted_def nth_list_update count_list_append)
  from Cons.IH [OF _ this] obtain seen' where
    "map_st (keep_row n offset) (map (number entries) ks) (seen[?g := saturating_add_u64 (seen ! ?g) 1])
       = (kept_mask n offset (earlier @ [k]) ks, seen')" "counted entries ((earlier @ [k]) @ ks) seen'"
    using Cons.prems by auto
  moreover have "keep_row n offset ?g seen
      = (in_window n offset (count_list earlier k), seen[?g := saturating_add_u64 (seen ! ?g) 1])"
    by (auto simp: keep_row_def Let_def c in_window_def)
  ultimately show ?case by simp
qed simp

lemma counted_resized:
  assumes "counted entries earlier seen" and more: "entries' = entries @ new"
    and dist: "distinct (map fst entries')" and earlier: "set earlier \<subseteq> fst ` set entries"
  shows "counted entries' earlier (resized (length entries') seen)"
proof -
  have len: "length seen = length entries"
    using assms by (simp add: counted_def)
  have "resized (length entries') seen ! g = count_list earlier (fst (entries' ! g))" if g: "g < length entries'" for g
  proof (cases "g < length entries")
    case True
    then show ?thesis
      using assms len by (simp add: resized_def counted_def nth_append)
  next
    case False
    then have "fst (entries' ! g) \<in> fst ` set new"
      using g more by (simp add: nth_append)
    then have "fst (entries' ! g) \<notin> set earlier"
      using dist more earlier by auto
    then show ?thesis
      using False g len more by (simp add: resized_def nth_append)
  qed
  then show ?thesis
    using len more by (simp add: counted_def resized_def)
qed

section \<open>The stream\<close>

text \<open>What a limit has read: the rows' keys and contents.\<close>

definition keyed_rows :: "nat list \<Rightarrow> 's batch \<Rightarrow> (byte list list \<times> 's exec_value list) list" where
  "keyed_rows columns b = map (\<lambda>r. (fst (row_item columns b r), batch_row b r)) [0..<num_rows b]"

definition limit_input :: "nat list \<Rightarrow> (nat \<Rightarrow> data_type) \<Rightarrow> 's batch \<Rightarrow> bool" where
  "limit_input columns types b \<longleftrightarrow>
     grouping_batch columns types b \<and> even_columns b \<and> (\<forall>c \<in> set columns. c < length (batch_columns b))"

lemma keyed_rows_keys: "map fst (keyed_rows columns b) = map fst (row_items columns b)"
  "map snd (keyed_rows columns b) = batch_rows b"
  "length (keyed_rows columns b) = num_rows b"
  by (simp_all add: keyed_rows_def row_items_def batch_rows_def)

text \<open>The state between two batches, after the rows \<open>earlier\<close>.\<close>

definition limit_inv ::
  "nat list \<Rightarrow> (nat \<Rightarrow> data_type) \<Rightarrow> (byte list list \<times> 's exec_value list) list
   \<Rightarrow> byte list list list \<Rightarrow> 's group_table \<Rightarrow> nat list \<Rightarrow> bool" where
  "limit_inv columns types entries keys tab seen \<longleftrightarrow>
     table_inv columns types tab \<and> group_entries tab = entries \<and> distinct (map fst entries)
     \<and> counted entries keys seen \<and> set keys = fst ` set entries"

lemma counted_none:
  assumes "limit_inv [] types entries keys tab seen" and "keys \<noteq> []" and "\<forall>k \<in> set keys. k = []"
  shows "seen = [length keys]"
proof -
  have "set keys = {[]}"
    using assms(2,3) by (cases keys) auto
  with assms(1) have keys: "fst ` set entries = {[]}" and seen: "counted entries keys seen" and dist: "distinct (map fst entries)"
    by (auto simp: limit_inv_def)
  then have "length entries = 1"
    by (metis distinct_card length_map list.set_map is_singletonI is_singleton_altdef)
  with keys seen have "length seen = 1" "seen ! 0 = count_list keys []"
    by (auto simp: counted_def length_Suc_conv)
  moreover have "count_list keys [] = length keys"
    using assms(3) by (induction keys) auto
  ultimately show ?thesis by (auto simp: length_Suc_conv)
qed

lemma limit_batch_step:
  assumes inv: "limit_inv columns types entries keys tab seen" and b: "limit_input columns types b"
    and bound: "length (remember_all entries (row_items columns b)) \<le> Suc u32_max"
    and room: "length keys + num_rows b \<le> u64_max" and granted: "\<And>bytes. granted bytes"
  shows "\<exists>tab' seen' ended kept. limit_batch bytes capacity granted False n offset columns b (tab, seen)
      = Inr (kept, tab', seen', ended)
    \<and> batch_rows kept = pick (kept_mask n offset keys (map fst (keyed_rows columns b))) (batch_rows b)
    \<and> limit_inv columns types (remember_all entries (row_items columns b)) (keys @ map fst (row_items columns b)) tab' seen'
    \<and> (ended \<longleftrightarrow> columns = [] \<and> (\<exists>c. first seen' = Some c \<and> n \<le> c - offset))"
proof -
  let ?ks = "map fst (row_items columns b)" and ?entries = "remember_all entries (row_items columns b)"
  have I: "table_inv columns types tab" "group_entries tab = entries" "distinct (map fst entries)"
    "counted entries keys seen" "set keys = fst ` set entries"
    using inv by (simp_all add: limit_inv_def)
  have B: "grouping_batch columns types b" "even_columns b" "\<forall>c \<in> set columns. c < length (batch_columns b)"
    using b by (simp_all add: limit_input_def)
  obtain tab' where tab': "chunked_group_ids bytes granted False (capacity (length seen) * 8) b tab
      = Inr (map (\<lambda>x. number ?entries (fst x)) (row_items columns b), tab')"
    "table_inv columns types tab'" "group_entries tab' = ?entries"
    using chunked_group_ids_step [OF I(1) B(1,3), of granted bytes "capacity (length seen) * 8"] bound granted
    by (auto simp: I(2))
  have groups: "group_count tab' = length ?entries"
    using tab'(3) by (metis group_count_def length_group_entries)
  have dist: "distinct (map fst ?entries)"
    by (rule distinct_remember_all [OF I(3)])
  have all: "fst ` set ?entries = set keys \<union> set ?ks"
    using I(5) by (simp add: keys_remember_all)
  obtain new where new: "?entries = entries @ new"
    using remember_all_extends by blast
  have "counted ?entries keys (resized (length ?entries) seen)"
    by (rule counted_resized [OF I(4) new dist]) (simp add: I(5))
  moreover have "set ?ks \<subseteq> fst ` set ?entries"
    using all by simp
  moreover have "length keys + length ?ks \<le> u64_max"
    using room by (simp add: row_items_def)
  ultimately obtain seen' where seen': "map_st (keep_row n offset) (map (number ?entries) ?ks) (resized (length ?entries) seen)
      = (kept_mask n offset keys ?ks, seen')" "counted ?entries (keys @ ?ks) seen'"
    using keep_rows [OF dist] by blast
  have "limit_inv columns types ?entries (keys @ ?ks) tab' seen'"
    using tab'(2,3) dist seen'(2) all by (simp add: limit_inv_def)
  moreover have "batch_rows (batch_filter (kept_mask n offset keys ?ks) b) = pick (kept_mask n offset keys ?ks) (batch_rows b)"
    by (rule batch_rows_filter [OF B(2)]) (simp add: row_items_def)
  ultimately show ?thesis
    using seen'(1) by (auto simp: limit_batch_def tab'(1) groups granted Let_def comp_def keyed_rows_keys split: option.splits)
qed

lemma limit_ended:
  assumes inv: "limit_inv [] types entries keys tab seen" and global: "\<forall>k \<in> set keys. k = []"
    and seen: "first seen = Some c" "n \<le> c - offset" and n: "0 < n"
  shows "offset + n \<le> count_list keys []"
proof -
  have "keys \<noteq> []"
  proof
    assume "keys = []"
    then have "seen = []"
      using inv by (auto simp: limit_inv_def counted_def)
    with seen show False by simp
  qed
  from counted_none [OF inv this global] have "c = length keys"
    using seen by simp
  moreover have "count_list keys [] = length keys"
    using global by (induction keys) auto
  ultimately show ?thesis
    using seen n by simp
qed

lemma limit_stream_rows:
  assumes "limit_inv columns types entries (map fst rows) tab seen" and "\<forall>b \<in> set bs. limit_input columns types b"
    and "length (remember_all entries (concat (map (row_items columns) bs))) \<le> Suc u32_max"
    and "length rows + sum_list (map num_rows bs) \<le> u64_max" and n: "0 < n"
    and "ended \<longrightarrow> columns = [] \<and> (\<exists>c. first seen = Some c \<and> n \<le> c - offset)"
    and "columns = [] \<longrightarrow> (\<forall>k \<in> set (map fst rows). k = [])"
  shows "\<exists>out. limit_stream bytes capacity n offset columns (map (\<lambda>b. (Inr b, \<lambda>_. True, False)) bs) (tab, seen, ended)
      = (out, None)
    \<and> limit_rows n offset rows @ concat (map batch_rows out)
      = limit_rows n offset (rows @ concat (map (keyed_rows columns) bs))"
  using assms
proof (induction bs arbitrary: rows entries tab seen ended)
  case Nil
  then show ?case by simp
next
  case (Cons b bs)
  let ?rest = "concat (map (row_items columns) bs)" and ?entries = "remember_all entries (row_items columns b)"
  have global: "columns = [] \<longrightarrow> (\<forall>k \<in> set (map fst (rows @ concat (map (keyed_rows columns) (b # bs)))). k = [])"
    using Cons.prems(7) by (auto simp: keyed_rows_def row_item_def)
  show ?case
  proof (cases ended)
    case True
    then obtain c where c: "columns = []" "first seen = Some c" "n \<le> c - offset"
      using Cons.prems(6) by blast
    have "offset + n \<le> count_list (map fst rows) []"
      using limit_ended [of types entries "map fst rows" tab seen c n offset] Cons.prems(1,5,7) c by simp
    moreover have "\<forall>x \<in> set (concat (map (keyed_rows columns) (b # bs))). fst x = []"
      by (auto simp: c(1) keyed_rows_def row_item_def)
    ultimately have "limit_rows n offset (rows @ concat (map (keyed_rows columns) (b # bs))) = limit_rows n offset rows"
      by (intro limit_rows_past) simp
    with True show ?thesis by simp
  next
    case False
    have "length ?entries \<le> Suc u32_max"
      using Cons.prems(3) length_remember_all [of ?entries ?rest] by (simp add: remember_all_append)
    moreover have "length (map fst rows) + num_rows b \<le> u64_max"
      using Cons.prems(4) by simp
    ultimately obtain tab' seen' ended' kept where step:
      "limit_batch bytes capacity (\<lambda>_. True) False n offset columns b (tab, seen) = Inr (kept, tab', seen', ended')"
      "batch_rows kept = pick (kept_mask n offset (map fst rows) (map fst (keyed_rows columns b))) (batch_rows b)"
      "limit_inv columns types ?entries (map fst rows @ map fst (row_items columns b)) tab' seen'"
      "ended' \<longleftrightarrow> columns = [] \<and> (\<exists>c. first seen' = Some c \<and> n \<le> c - offset)"
      using limit_batch_step [OF Cons.prems(1), of b "\<lambda>_. True" bytes capacity n offset] Cons.prems(2) by auto
    have "limit_inv columns types ?entries (map fst (rows @ keyed_rows columns b)) tab' seen'"
      using step(3) by (simp add: keyed_rows_keys)
    then have "\<exists>out. limit_stream bytes capacity n offset columns
        (map (\<lambda>b. (Inr b, \<lambda>_. True, False)) bs) (tab', seen', ended') = (out, None)
      \<and> limit_rows n offset (rows @ keyed_rows columns b) @ concat (map batch_rows out)
        = limit_rows n offset ((rows @ keyed_rows columns b) @ concat (map (keyed_rows columns) bs))"
      by (rule Cons.IH) (use Cons.prems(2-5) step(4) global in \<open>auto simp: remember_all_append keyed_rows_keys(3)\<close>)
    then obtain out where "limit_stream bytes capacity n offset columns
        (map (\<lambda>b. (Inr b, \<lambda>_. True, False)) bs) (tab', seen', ended') = (out, None)"
      "limit_rows n offset (rows @ keyed_rows columns b) @ concat (map batch_rows out)
        = limit_rows n offset ((rows @ keyed_rows columns b) @ concat (map (keyed_rows columns) bs))"
      by blast
    then show ?thesis
      using step(1,2) False n
      by (intro exI [of _ "kept # out"]) (simp add: limit_rows_append keyed_rows_keys)
  qed
qed

text \<open>
  C38: over any batches of one schema, a limit yields exactly the rows whose group has between \<open>offset\<close> and
  \<open>offset + n\<close> earlier rows, in order, however the rows are split into batches and chunks; stopping early
  loses none of them. Nothing is assumed of the rows' order, of \<open>n\<close> or of \<open>offset\<close>.
\<close>

theorem limit_keeps_the_window_of_each_group:
  assumes "\<forall>b \<in> set bs. limit_input groups types b"
    and "length (remember_all [] (concat (map (row_items groups) bs))) \<le> Suc u32_max"
    and "sum_list (map num_rows bs) \<le> u64_max"
  shows "\<exists>out. limit_execute bytes capacity n offset groups (map (\<lambda>b. (Inr b, \<lambda>_. True, False)) bs) = (out, None)
    \<and> concat (map batch_rows out) = limit_rows n offset (concat (map (keyed_rows groups) bs))"
proof (cases "n = 0")
  case True
  then show ?thesis
    by (cases bs) (simp_all add: limit_execute_def limit_rows_none)
next
  case False
  have "group_entries (group_table_new groups) = []"
    by (simp add: group_entries_def group_count_def group_table_new_def)
  then have "limit_inv groups types [] (map fst []) (group_table_new groups) []"
    by (simp add: limit_inv_def table_inv_new counted_def)
  from limit_stream_rows [OF this assms(1,2), of n False offset bytes capacity] show ?thesis
    using False assms(3) by (simp add: limit_execute_def limit_rows_def)
qed

theorem limit_keeps_the_window_of_each_group_witness:
  "\<exists>out. limit_execute (\<lambda>_. 0) id 1 1 [0, 1] [(Inr grouping_example, \<lambda>_. True, False)] = (out, None)
    \<and> concat (map batch_rows out) = [[VUtf8 ''b'', VFloat64 f64_neg_zero]]"
proof -
  have input: "\<forall>b \<in> set [grouping_example]. limit_input [0, 1] example_types b"
    using grouping_example_rows(1)
    by (simp add: limit_input_def even_columns_def grouping_example_def)
  have items: "concat (map (row_items [0, 1]) [grouping_example]) = row_items [0, 1] grouping_example"
    by simp
  have bound: "length (remember_all [] (concat (map (row_items [0, 1]) [grouping_example]))) \<le> Suc u32_max"
    unfolding items example_seen by (simp add: u32_max_def)
  have room: "sum_list (map num_rows [grouping_example]) \<le> u64_max"
    by (simp add: grouping_example_def u64_max_def)
  have keys: "map (\<lambda>r. fst (row_item [0, 1] grouping_example r)) [0..<4] =
     [[[4, 98], [3, 0, 0, 0, 0, 0, 0, 0, 0]], [[0], [3, 0, 0, 0, 0, 0, 0, 240, 63]],
      [[4, 98], [3, 0, 0, 0, 0, 0, 0, 0, 0]], [[4, 97], [0]]]"
    using arg_cong [OF grouping_example_rows(2), of "map fst"]
    by (simp add: row_items_def grouping_example_def comp_def)
  have "keyed_rows [0, 1] grouping_example =
      zip (map (\<lambda>r. fst (row_item [0, 1] grouping_example r)) [0..<4]) (batch_rows grouping_example)"
    by (simp add: keyed_rows_def batch_rows_def grouping_example_def zip_map_map zip_same_conv_map)
  also have "batch_rows grouping_example = [[VUtf8 ''b'', VFloat64 f64_zero], [VNull, VFloat64 f64_one],
      [VUtf8 ''b'', VFloat64 f64_neg_zero], [VUtf8 ''a'', VNull]]"
    by (simp add: batch_rows_def batch_row_def grouping_example_def cell_value_def upt_rec)
  finally have "limit_rows 1 1 (concat (map (keyed_rows [0, 1]) [grouping_example])) = [[VUtf8 ''b'', VFloat64 f64_neg_zero]]"
    unfolding keys by (simp add: limit_rows_def in_window_def upt_rec)
  with limit_keeps_the_window_of_each_group [OF input bound room, of "\<lambda>_. 0" id 1 1] show ?thesis
    by simp
qed

end
