(* ===== verification/SortOperator.thy ===== *)
theory SortOperator
  imports Limit
begin

text \<open>
  The sort operator (\<^verbatim>\<open>executor/src/operators/sort.rs\<close>): its construction and its execution over the
  collected input. Groups come in the order of their keys, the rows of a group in the order of the sort
  keys, ties in the order of the input.
\<close>

section \<open>Construction\<close>

text \<open>\<^verbatim>\<open>plain\<close> and \<^verbatim>\<open>validate_groups\<close>.\<close>

definition plain :: "schema \<Rightarrow> nat \<Rightarrow> (data_type \<times> bool) exec_result" where
  "plain s column =
     (case get (schema_fields s) column of
        None \<Rightarrow> Err (Invalid ''column out of range'')
      | Some f \<Rightarrow>
          (case dtype f of
             Plain t \<Rightarrow> Ok (t, nullable f)
           | _ \<Rightarrow> Err (Invalid ''plain value required'')))"

definition validate_groups :: "schema \<Rightarrow> nat list \<Rightarrow> unit exec_result" where
  "validate_groups s groups =
     bind_result (collect_result (plain s) groups) (\<lambda>_.
       if card (set groups) \<noteq> length groups then Err (Invalid ''duplicate group columns'') else Ok ())"

text \<open>\<^verbatim>\<open>Operator::sort\<close>: the checks; the operator holds its arguments.\<close>

definition sort_new :: "schema \<Rightarrow> sort_key list \<Rightarrow> nat list \<Rightarrow> (sort_key list \<times> nat list) exec_result" where
  "sort_new s keys groups =
     bind_result (validate_groups s groups) (\<lambda>_.
       bind_result
         (collect_result (\<lambda>key. bind_result (plain s (key_column key)) (\<lambda>(t, _).
            if ordered t then Ok () else Err (Invalid ''unsupported sort type''))) keys)
         (\<lambda>_. Ok (keys, groups)))"

section \<open>Execution\<close>

text \<open>\<^verbatim>\<open>decoded\<close> and \<^verbatim>\<open>Batch::take\<close>, which gathers the cells of every column.\<close>

definition decoded :: "'s batch \<Rightarrow> nat \<Rightarrow> 's exec_value list exec_result" where
  "decoded b column = bind_result (plain (batch_schema b) column) (\<lambda>_. Ok (decode (batch_columns b ! column)))"

definition gather :: "nat list \<Rightarrow> 'a list \<Rightarrow> 'a list" where
  "gather order cells = map ((!) cells) order"

fun array_take :: "nat list \<Rightarrow> 's array \<Rightarrow> 's array" where
  "array_take order (DictionaryArray keys texts) = DictionaryArray (gather order keys) texts"
| "array_take order (Int64Array cells) = Int64Array (gather order cells)"
| "array_take order (TimestampArray cells) = TimestampArray (gather order cells)"
| "array_take order (Float64Array cells) = Float64Array (gather order cells)"
| "array_take order (BooleanArray cells) = BooleanArray (gather order cells)"
| "array_take order (DecodedArray vs) = DecodedArray (gather order vs)"

definition batch_take :: "nat list \<Rightarrow> 's batch \<Rightarrow> 's batch" where
  "batch_take order b = b\<lparr>batch_columns := map (array_take order) (batch_columns b), num_rows := length order\<rparr>"

definition nan_in_collection :: "'s exec_value \<Rightarrow> bool" where
  "nan_in_collection v = (case v of VMap _ \<Rightarrow> nested_nan v | _ \<Rightarrow> False)"

text \<open>
  Each group's position in key order; there are at most \<open>2 ^ 32\<close> groups, so that the position fits a \<^verbatim>\<open>u32\<close>.
\<close>

definition group_ranks :: "'s group_table \<Rightarrow> nat list" where
  "group_ranks tab =
     fold (\<lambda>(position, g) rank. rank[g := position]) (enumerate 0 (groups_in_key_order tab))
       (replicate (group_count tab) 0)"

text \<open>The closure that compares two rows. That \<open>compare_key\<close> never panics here is part of C39.\<close>

definition compare_rows ::
  "nat list \<Rightarrow> nat list \<Rightarrow> sort_key list \<Rightarrow> 's exec_value list list \<Rightarrow> nat \<Rightarrow> nat \<Rightarrow> ordering" where
  "compare_rows rank ids keys key_values a b =
     then_ordering (cmp (rank ! (ids ! a)) (rank ! (ids ! b)))
       (first_difference
         (map (\<lambda>(key, vs). the (compare_key (vs ! a) (vs ! b) key)) (zip keys key_values)))"

text \<open>
  \<^verbatim>\<open>sort::execute\<close> of the collected input: \<open>granted\<close> answers the workspace, \<open>scratch\<close> the reservation of the
  merge sort. The rows are numbered in \<^verbatim>\<open>u32\<close>.
\<close>

definition sort_execute ::
  "('s exec_value \<Rightarrow> nat) \<Rightarrow> (nat \<Rightarrow> bool) \<Rightarrow> (nat \<Rightarrow> bool) \<Rightarrow> bool \<Rightarrow> nat \<Rightarrow> sort_key list \<Rightarrow> nat list
   \<Rightarrow> 's batch \<Rightarrow> 's batch exec_result" where
  "sort_execute bytes granted scratch cancelled deque_size keys groups b =
     bind_result (collect_result (\<lambda>key. decoded b (key_column key)) keys) (\<lambda>key_values.
       if list_ex (list_ex nan_in_collection) key_values
       then Err (Invalid ''NaN in collection sort key'')
       else bind_result (group_ids bytes b (group_table_new groups)) (\<lambda>(ids, tab).
         if \<not> granted (memory_bytes tab + num_rows b * 2 * 4 + sum_list (map bytes (concat key_values)))
         then Err MemoryLimit
         else bind_result
           (cooperative_sort scratch cancelled 4 deque_size [0..<num_rows b mod 2 ^ 32]
             (compare_rows (group_ranks tab) ids keys key_values))
           (\<lambda>order. Ok (batch_take order b))))"

section \<open>Taking rows\<close>

lemma decode_take:
  assumes "\<forall>i \<in> set order. i < length (decode a)"
  shows "decode (array_take order a) = gather order (decode a)"
  using assms by (cases a) (simp_all add: gather_def)

lemma batch_rows_take:
  assumes even: "even_columns b" and order: "\<forall>i \<in> set order. i < num_rows b"
  shows "batch_rows (batch_take order b) = map (batch_row b) order"
proof -
  have "decode (array_take order a) ! r = decode a ! (order ! r)" if "a \<in> set (batch_columns b)" "r < length order" for a r
    using that even order by (subst decode_take) (auto simp: gather_def even_columns_def list_all_iff)
  then have "batch_rows (batch_take order b) = map (\<lambda>r. batch_row b (order ! r)) [0..<length order]"
    by (simp add: batch_take_def batch_rows_def batch_row_def)
  then show ?thesis
    by (simp add: map_nth flip: map_map [of "batch_row b" "(!) order", unfolded comp_def])
qed

section \<open>The order of the rows\<close>

text \<open>The order of a sort: by the keys of the group columns, then by the sort keys.\<close>

definition row_order :: "sort_key list \<Rightarrow> nat list \<Rightarrow> 's batch \<Rightarrow> nat \<Rightarrow> nat \<Rightarrow> ordering" where
  "row_order keys groups b i j =
     then_ordering (cmp (fst (row_item groups b i)) (fst (row_item groups b j)))
       (first_difference
         (map (\<lambda>key. key_order key (cell b (key_column key) i) (cell b (key_column key) j)) keys))"

definition sort_input :: "sort_key list \<Rightarrow> 's batch \<Rightarrow> bool" where
  "sort_input keys b \<longleftrightarrow>
     (\<forall>key \<in> set keys. key_column key < length (batch_columns b)
       \<and> (\<exists>t. map_option dtype (get (schema_fields (batch_schema b)) (key_column key)) = Some (Plain t)
           \<and> ordered t \<and> has_layout (batch_columns b ! key_column key) t))"

lemma sort_input_cell:
  assumes "sort_input keys b" and "even_columns b" and "key \<in> set keys" and "i < num_rows b"
  obtains t where "ordered t" and "\<And>j. j < num_rows b \<Longrightarrow> value_matches (cell b (key_column key) j) t True"
proof -
  obtain t where t: "ordered t" "has_layout (batch_columns b ! key_column key) t" "key_column key < length (batch_columns b)"
    using assms(1,3) by (auto simp: sort_input_def)
  moreover have "length (decode (batch_columns b ! key_column key)) = num_rows b"
    using assms(2) t(3) by (simp add: even_columns_def list_all_length)
  ultimately show ?thesis
    by (intro that [OF t(1)]) (auto simp: cell_def intro: decode_typed)
qed

lemma sort_input_decoded:
  assumes "sort_input keys b"
  shows "collect_result (\<lambda>key. decoded b (key_column key)) keys
    = Inr (map (\<lambda>key. decode (batch_columns b ! key_column key)) keys)"
proof -
  have "decoded b (key_column key) = Inr (decode (batch_columns b ! key_column key))" if "key \<in> set keys" for key
    using assms that by (auto simp: sort_input_def decoded_def plain_def)
  then show ?thesis
    by (induction keys) simp_all
qed

lemma ordering_on_rows:
  assumes "sort_input keys b" and "even_columns b"
  shows "ordering_on {..<num_rows b} (row_order keys groups b)"
  unfolding row_order_def
proof (intro ordering_on_then ordering_on_cmp ordering_on_first_difference)
  fix key assume key: "key \<in> set keys"
  show "ordering_on {..<num_rows b} (\<lambda>i j. key_order key (cell b (key_column key) i) (cell b (key_column key) j))"
  proof (cases "num_rows b = 0")
    case False
    then obtain t where "ordered t" "\<And>j. j < num_rows b \<Longrightarrow> value_matches (cell b (key_column key) j) t True"
      using sort_input_cell [OF assms key, of 0] by auto
    then show ?thesis
      by (intro ordering_on_image [OF ordering_on_key_order [where t = t and n = True]]) auto
  qed (simp add: ordering_on_def)
qed

text \<open>The order of the rows meets the contract of a sort, which gives its laws for the operator.\<close>

interpretation rows: ordering_on "{i. sort_input keys b \<and> even_columns b \<and> i < num_rows b}" "row_order keys groups b"
  for keys b groups
proof (cases "sort_input keys b \<and> even_columns b")
  case True
  then have "{i. sort_input keys b \<and> even_columns b \<and> i < num_rows b} = {..<num_rows b}"
    by auto
  with True ordering_on_rows [of keys b groups] show
    "ordering_on {i. sort_input keys b \<and> even_columns b \<and> i < num_rows b} (row_order keys groups b)"
    by simp
next
  case False
  then have "{i. sort_input keys b \<and> even_columns b \<and> i < num_rows b} = {}"
    by auto
  then show "ordering_on {i. sort_input keys b \<and> even_columns b \<and> i < num_rows b} (row_order keys groups b)"
    by (simp only: ordering_on_def ball_empty) simp
qed

lemma fold_positions:
  "fold (\<lambda>(position, g) rank. rank[g := position]) (enumerate k gs) rs
    = fold (\<lambda>(position, (_, p)) rank. rank[p := position]) (enumerate k (map (\<lambda>g. (f g, g)) gs)) rs"
  by (induction gs arbitrary: k rs) simp_all

lemma group_ranks_compare:
  assumes inv: "table_inv columns types tab" and dist: "distinct (map fst (group_entries tab))"
    and g: "g < group_count tab" and h: "h < group_count tab"
  shows "cmp (group_ranks tab ! g) (group_ranks tab ! h) = cmp (group_tuple tab g) (group_tuple tab h)"
proof -
  let ?gs = "groups_in_key_order tab"
  have gs: "?gs = sort_key (group_tuple tab) [0..<group_count tab]"
    by (rule groups_in_key_order_sort [OF inv])
  have "map (group_tuple tab) [0..<group_count tab] = map fst (group_entries tab)"
    by (rule nth_equalityI) (simp_all add: group_tuple_nth group_count_def)
  then have "distinct (map (group_tuple tab) [0..<group_count tab])"
    using dist by simp
  then have "distinct (map (group_tuple tab) ?gs)"
    unfolding gs by (simp add: distinct_map)
  then have strict: "sorted_wrt (<) (map fst (map (\<lambda>g. (group_tuple tab g, g)) ?gs))"
    unfolding gs by (simp add: strict_sorted_iff comp_def)
  have set: "set ?gs = {..<group_count tab}" and dist': "distinct ?gs"
    by (auto simp: gs)
  show ?thesis
    unfolding group_ranks_def fold_positions [of _ _ _ "group_tuple tab"]
    by (rule positions_compare [OF _ _ strict]) (use set dist' g h in \<open>auto simp: comp_def\<close>)
qed

lemma compare_keys:
  assumes "sort_input keys b" "even_columns b" "key \<in> set keys" "i < num_rows b" "j < num_rows b"
  shows "compare_key (cell b (key_column key) i) (cell b (key_column key) j) key
    = Some (key_order key (cell b (key_column key) i) (cell b (key_column key) j))"
proof -
  obtain t where "ordered t" "\<And>r. r < num_rows b \<Longrightarrow> value_matches (cell b (key_column key) r) t True"
    using sort_input_cell [OF assms(1-4)] by metis
  with assms(4,5) show ?thesis
    by (simp add: compare_key_order [of t _ True])
qed

lemma compare_rows_order:
  assumes input: "sort_input keys b" "even_columns b"
    and inv: "table_inv groups types tab" and entries: "group_entries tab = remember_all [] (row_items groups b)"
    and i: "i < num_rows b" and j: "j < num_rows b"
  shows "compare_rows (group_ranks tab) (map (\<lambda>x. number (group_entries tab) (fst x)) (row_items groups b)) keys
      (map (\<lambda>key. decode (batch_columns b ! key_column key)) keys) i j
    = row_order keys groups b i j"
proof -
  let ?ids = "map (\<lambda>x. number (group_entries tab) (fst x)) (row_items groups b)"
  have dist: "distinct (map fst (group_entries tab))"
    unfolding entries by (rule distinct_remember_all) simp
  have id: "?ids ! r < group_count tab \<and> group_tuple tab (?ids ! r) = fst (row_item groups b r)"
    if r: "r < num_rows b" for r
  proof -
    have "fst (row_item groups b r) \<in> fst ` set (group_entries tab)"
      using r unfolding entries keys_remember_all by (force simp: row_items_def)
    from number_spec [OF this] show ?thesis
      using r group_tuple_nth [of "?ids ! r" tab] by (simp add: row_items_def group_count_def)
  qed
  have "map (\<lambda>(key, vs). the (compare_key (vs ! i) (vs ! j) key))
        (zip keys (map (\<lambda>key. decode (batch_columns b ! key_column key)) keys))
      = map (\<lambda>key. key_order key (cell b (key_column key) i) (cell b (key_column key) j)) keys"
    using compare_keys [OF input _ i j] by (simp add: zip_map2 zip_same_conv_map comp_def flip: cell_def)
  then show ?thesis
    using id [OF i] id [OF j] group_ranks_compare [OF inv dist]
    by (simp add: compare_rows_def row_order_def)
qed

lemma cooperative_sort_granted:
  assumes "ordering_on (set rows) c" and "length rows * (row_size + deque_size) * 3 \<le> u64_max"
  shows "cooperative_sort (\<lambda>_. True) False row_size deque_size rows c = Ok (stable_sort c rows)"
  using assms(2) unfolding cooperative_sort_def merge_rounds_chunks [OF assms(1)]
  by (auto simp: checked_mul_u64_def)

text \<open>The values of the sort keys of a batch.\<close>

definition key_cells :: "sort_key list \<Rightarrow> 's batch \<Rightarrow> 's exec_value list" where
  "key_cells keys b = concat (map (\<lambda>key. decode (batch_columns b ! key_column key)) keys)"

lemma length_remember_all_le: "length (remember_all [] xs) \<le> length xs"
  using card_length [of "map fst xs"] by (simp add: length_remember_all_card)

lemma sort_execute_order:
  fixes b :: "'s batch"
  assumes input: "limit_input groups types b" "sort_input keys b"
    and rows: "num_rows b < 2 ^ 32" "num_rows b * (4 + deque_size) * 3 \<le> u64_max"
    and nan: "\<not> list_ex nan_in_collection (key_cells keys b)"
  shows "sort_execute bytes (\<lambda>_. True) (\<lambda>_. True) False deque_size keys groups b
    = Ok (batch_take (stable_sort (row_order keys groups b) [0..<num_rows b]) b)"
proof -
  have B: "grouping_batch groups types b" "even_columns b"
    using input(1) by (simp_all add: limit_input_def)
  have "length (remember_all [] (row_items groups b)) \<le> num_rows b"
    using length_remember_all_le [of "row_items groups b"] by (simp add: row_items_def)
  then obtain tab where tab: "group_ids bytes b (group_table_new groups)
      = Inr (map (\<lambda>x. number (group_entries tab) (fst x)) (row_items groups b), tab)"
    "table_inv groups types tab" "group_entries tab = remember_all [] (row_items groups b)"
    using group_ids_step [OF table_inv_new B(1), of bytes] rows(1)
    by (auto simp: group_entries_def group_count_def group_table_new_def u32_max_def)
  let ?c = "compare_rows (group_ranks tab) (map (\<lambda>x. number (group_entries tab) (fst x)) (row_items groups b)) keys
      (map (\<lambda>key. decode (batch_columns b ! key_column key)) keys)"
  have c: "?c i j = row_order keys groups b i j" if "i < num_rows b" "j < num_rows b" for i j
    by (rule compare_rows_order [OF input(2) B(2) tab(2,3) that])
  have "ordering_on (set [0..<num_rows b]) (row_order keys groups b)"
    using ordering_on_rows [OF input(2) B(2), of groups] by (simp add: atLeast0LessThan)
  then have ordering: "ordering_on (set [0..<num_rows b]) ?c"
    by (rule ordering_on_cong) (use c in auto)
  have "cooperative_sort (\<lambda>_. True) False 4 deque_size [0..<num_rows b] ?c = Ok (stable_sort ?c [0..<num_rows b])"
    by (rule cooperative_sort_granted [OF ordering]) (use rows(2) in simp)
  moreover have "stable_sort ?c [0..<num_rows b] = stable_sort (row_order keys groups b) [0..<num_rows b]"
    by (rule stable_sort_cong) (use c in simp)
  ultimately show ?thesis
    using nan rows(1) unfolding sort_execute_def sort_input_decoded [OF input(2)]
    by (simp add: tab(1) key_cells_def list_ex_iff)
qed

text \<open>
  C39: over an input whose sort keys have types that can be sorted, the operator refuses a NaN inside a
  collection, never panics, and otherwise returns the input's rows, each once, ordered by the bytes of the
  group columns' keys, then by the sort keys, and otherwise as they came.
\<close>

theorem sort_orders_rows:
  assumes "limit_input groups types b" and "sort_input keys b"
    and "num_rows b < 2 ^ 32" and "num_rows b * (4 + deque_size) * 3 \<le> u64_max"
  shows "(\<forall>key \<in> set keys. \<forall>i < num_rows b. \<forall>j < num_rows b.
      compare_key (cell b (key_column key) i) (cell b (key_column key) j) key
        = Some (key_order key (cell b (key_column key) i) (cell b (key_column key) j)))
    \<and> (if list_ex nan_in_collection (key_cells keys b)
    then sort_execute bytes granted scratch cancelled deque_size keys groups b
      = Err (Invalid ''NaN in collection sort key'')
    else \<exists>order sorted_batch.
      sort_execute bytes (\<lambda>_. True) (\<lambda>_. True) False deque_size keys groups b = Ok sorted_batch
      \<and> batch_rows sorted_batch = map (batch_row b) order
      \<and> mset order = mset [0..<num_rows b]
      \<and> sorted_wrt (\<lambda>i j. row_order keys groups b i j \<noteq> Greater) order
      \<and> (\<forall>i < num_rows b. filter (\<lambda>j. row_order keys groups b i j = Equal) order
          = filter (\<lambda>j. row_order keys groups b i j = Equal) [0..<num_rows b]))"
proof -
  have even: "even_columns b"
    using assms(1) by (simp add: limit_input_def)
  let ?order = "stable_sort (row_order keys groups b) [0..<num_rows b]"
  have rows: "batch_rows (batch_take ?order b) = map (batch_row b) ?order"
    by (rule batch_rows_take [OF even]) simp
  have sorted: "sorted_wrt (\<lambda>i j. row_order keys groups b i j \<noteq> Greater) ?order"
    by (rule rows.stable_sort_in_order) (use assms(2) even in auto)
  have stable: "filter (\<lambda>j. row_order keys groups b i j = Equal) ?order
      = filter (\<lambda>j. row_order keys groups b i j = Equal) [0..<num_rows b]" if "i < num_rows b" for i
    by (rule rows.stable_sort_filter) (use that assms(2) even in auto)
  have refused: "sort_execute bytes granted scratch cancelled deque_size keys groups b
      = Err (Invalid ''NaN in collection sort key'')" if "list_ex nan_in_collection (key_cells keys b)"
    using that unfolding sort_execute_def sort_input_decoded [OF assms(2)] by (auto simp: key_cells_def list_ex_iff)
  show ?thesis
    using rows sorted stable refused sort_execute_order [OF assms, of bytes] compare_keys [OF assms(2) even]
      mset_stable_sort [of _ "[0..<num_rows b]"] by auto
qed

theorem sort_orders_rows_witness:
  "\<exists>order sorted_batch.
     sort_execute (\<lambda>_. 0) (\<lambda>_. True) (\<lambda>_. True) False 32
       [\<lparr>key_column = 1, descending = True, nulls_first = False\<rparr>] [0] grouping_example = Ok sorted_batch
     \<and> batch_rows sorted_batch = map (batch_row grouping_example) order
     \<and> mset order = mset [0..<4]"
proof -
  let ?keys = "[\<lparr>key_column = 1, descending = True, nulls_first = False\<rparr>]"
  have rows: "num_rows grouping_example = 4"
    by (simp add: grouping_example_def)
  have input: "limit_input [0] example_types grouping_example"
    using grouping_example_rows(1)
    by (simp add: limit_input_def grouping_batch_def even_columns_def) (simp add: grouping_example_def)
  have keys: "sort_input ?keys grouping_example"
    by (simp add: sort_input_def grouping_example_def schema_new_def get_def has_layout_def)
  have nan: "\<not> list_ex nan_in_collection (key_cells ?keys grouping_example)"
    by (simp add: key_cells_def grouping_example_def nan_in_collection_def cell_value_def)
  show ?thesis
    using sort_orders_rows [OF input keys, of 32 "\<lambda>_. 0"] nan
    by (simp only: rows u64_max_def if_False) auto
qed

end
