(* ===== verification/Joins.thy ===== *)
theory Joins
  imports SortOperator OpProps
begin

text \<open>
  The joins of the executor (\<^verbatim>\<open>executor/src/operators/joins/mod.rs\<close>) over collected inputs: the semi-join by key,
  with its certified variant, and the nested-loop join, as the pairs of rows it outputs.
\<close>

section \<open>Key batches\<close>

text \<open>\<^verbatim>\<open>aligned_binary::key_batch\<close> and \<^verbatim>\<open>matchable_rows\<close>.\<close>

definition key_batch :: "'s batch \<Rightarrow> nat list \<Rightarrow> 's batch" where
  "key_batch b columns =
     b\<lparr>batch_schema := \<lparr>schema_fields = map ((!) (schema_fields (batch_schema b))) columns, time_index = None,
                        unique_keys = [], closed = False\<rparr>,
       batch_columns := map ((!) (batch_columns b)) columns\<rparr>"

definition cell_matchable :: "'s array \<Rightarrow> nat \<Rightarrow> bool" where
  "cell_matchable array row \<longleftrightarrow>
     \<not> (is_null (decode array ! row)
        \<or> (case array of
             Float64Array cells \<Rightarrow> (case cells ! row of None \<Rightarrow> False | Some x \<Rightarrow> is_nan x)
           | _ \<Rightarrow> False))"

definition matchable_rows :: "'s batch \<Rightarrow> bool list" where
  "matchable_rows b =
     map (\<lambda>row. list_all (\<lambda>array. cell_matchable array row) (batch_columns b)) [0..<num_rows b]"

section \<open>The semi-join\<close>

text \<open>\<^verbatim>\<open>Operator::semi_join\<close>: the checks.\<close>

definition semi_join_new :: "schema \<Rightarrow> schema \<Rightarrow> (nat \<times> nat) list \<Rightarrow> (nat \<times> nat) list exec_result" where
  "semi_join_new left right keys =
     (if keys = [] then Err (Invalid ''semi-join needs matching keys'')
      else bind_result
        (collect_result (\<lambda>(l, r).
           bind_result (plain left l) (\<lambda>(t, _). bind_result (plain right r) (\<lambda>(u, _).
             if t \<noteq> u then Err (Invalid ''join key types differ'') else Ok ()))) keys)
        (\<lambda>_. Ok keys))"

text \<open>
  The execution. \<open>certified\<close> is \<^verbatim>\<open>require_complete_right\<close>; \<open>granted\<close> answers a workspace of so many bytes,
  \<open>granted_result\<close> the bytes of the result.
\<close>

definition semi_join_execute ::
  "('s exec_value \<Rightarrow> nat) \<Rightarrow> (nat \<Rightarrow> bool) \<Rightarrow> ('s batch \<Rightarrow> bool) \<Rightarrow> bool \<Rightarrow> bool \<Rightarrow> (nat \<times> nat) list
   \<Rightarrow> 's batch \<Rightarrow> 's batch \<Rightarrow> 's batch exec_result" where
  "semi_join_execute bytes granted granted_result cancelled certified keys left right =
     (let left_keys = key_batch left (map fst keys);
          right_keys = key_batch right (map snd keys) in
      bind_result
        (chunked_group_ids bytes granted cancelled 0 right_keys (group_table_new [0..<length keys]))
        (\<lambda>(right_ids, tab).
           let candidates = zip right_ids (matchable_rows right_keys);
               members = {g. (g, True) \<in> set candidates} in
           if certified \<and> list_ex (\<lambda>(_, matchable). \<not> matchable) candidates
           then Err (Invalid ''certified pruning candidate has an unmatchable key'')
           else if cancelled then Err Cancelled
           else if \<not> granted (memory_bytes tab + 32 * card members) then Err MemoryLimit
           else bind_result
             (chunked_group_ids bytes granted cancelled (32 * card members) left_keys tab)
             (\<lambda>(left_ids, tab).
                let found = zip left_ids (matchable_rows left_keys);
                    keep = map (\<lambda>(g, matchable). matchable \<and> g \<in> members) found;
                    covered = {g. (g, True) \<in> set found \<and> g \<in> members};
                    kept = batch_filter keep left in
                if cancelled then Err Cancelled
                else if certified \<and> members \<noteq> covered
                then Err (Invalid ''certified pruning key has no authoritative value'')
                else if \<not> granted_result kept then Err MemoryLimit
                else Ok kept)))"

text \<open>One side of a join whose key columns have the types \<open>types\<close>.\<close>

definition join_side :: "nat list \<Rightarrow> (nat \<Rightarrow> data_type) \<Rightarrow> 's batch \<Rightarrow> bool" where
  "join_side columns types b \<longleftrightarrow>
     even_columns b
     \<and> (\<forall>i < length columns.
          columns ! i < length (batch_columns b) \<and> columns ! i < length (schema_fields (batch_schema b))
          \<and> dtype (schema_fields (batch_schema b) ! (columns ! i)) = Plain (types i)
          \<and> has_layout (batch_columns b ! (columns ! i)) (types i))"

lemma key_batch_simps [simp]:
  "num_rows (key_batch b columns) = num_rows b"
  "i < length columns \<Longrightarrow> batch_columns (key_batch b columns) ! i = batch_columns b ! (columns ! i)"
  "length (batch_columns (key_batch b columns)) = length columns"
  "i < length columns \<Longrightarrow>
    schema_fields (batch_schema (key_batch b columns)) ! i = schema_fields (batch_schema b) ! (columns ! i)"
  by (simp_all add: key_batch_def)

lemma key_batch_grouping:
  assumes "join_side columns types b"
  shows "grouping_batch [0..<length columns] types (key_batch b columns)"
  using assms by (auto simp: join_side_def grouping_batch_def list_all_iff even_columns_def)

lemma key_batch_items: "row_items [0..<length columns] (key_batch b columns) = row_items columns b"
proof -
  have cells: "cell (key_batch b columns) i r = cell b (columns ! i) r" if "i < length columns" for i r
    using that by (simp add: cell_def)
  have "map (\<lambda>i. f (cell (key_batch b columns) i r)) [0..<length columns] = map (\<lambda>c. f (cell b c r)) columns"
    for f :: "'a exec_value \<Rightarrow> 'c" and r
    by (rule nth_equalityI) (simp_all add: cells)
  from this [of cell_key] this [of "\<lambda>v. v"]
  have "row_item [0..<length columns] (key_batch b columns) = row_item columns b"
    by (intro ext) (simp add: row_item_def)
  then show ?thesis
    by (simp add: row_items_def)
qed

text \<open>The key of a row, and whether it may match: no NULL and no NaN among its key columns.\<close>

definition join_key :: "nat list \<Rightarrow> 's batch \<Rightarrow> nat \<Rightarrow> byte list list" where
  "join_key columns b row = map (\<lambda>c. cell_key (cell b c row)) columns"

definition may_match :: "nat list \<Rightarrow> 's batch \<Rightarrow> nat \<Rightarrow> bool" where
  "may_match columns b row \<longleftrightarrow> (\<forall>c \<in> set columns. cell b c row \<noteq> VNull \<and> \<not> is_nan_value (cell b c row))"

lemma join_key_item: "join_key columns b row = fst (row_item columns b row)"
  by (simp add: join_key_def row_item_def)

lemma cell_matchable_value:
  assumes "has_layout a t" and "row < length (decode a)"
  shows "cell_matchable a row \<longleftrightarrow> decode a ! row \<noteq> VNull \<and> \<not> is_nan_value (decode a ! row)"
proof (cases a)
  case (Float64Array cells)
  then show ?thesis
    using assms(2) by (cases "cells ! row") (auto simp: cell_matchable_def cell_value_def is_nan_value_def)
next
  case (DecodedArray vs)
  have "\<not> is_nan_value v" if "v \<in> set vs" for v
    using assms(1) that DecodedArray by (cases v; cases t) (auto simp: has_layout_def is_nan_value_def list_all_iff)
  with assms(2) DecodedArray show ?thesis
    by (simp add: cell_matchable_def)
qed (use assms(2) in \<open>auto simp: cell_matchable_def cell_value_def is_nan_value_def split: option.splits\<close>)

lemma matchable_rows_match:
  assumes "join_side columns types b"
  shows "matchable_rows (key_batch b columns) = map (may_match columns b) [0..<num_rows b]"
proof -
  have "cell_matchable (batch_columns b ! c) row \<longleftrightarrow> cell b c row \<noteq> VNull \<and> \<not> is_nan_value (cell b c row)"
    if c: "c \<in> set columns" and row: "row < num_rows b" for c row
  proof -
    obtain i where "i < length columns" "columns ! i = c"
      using c by (auto simp: in_set_conv_nth)
    then have "has_layout (batch_columns b ! c) (types i)" "length (decode (batch_columns b ! c)) = num_rows b"
      using assms by (auto simp: join_side_def even_columns_def list_all_length)
    with row show ?thesis
      using cell_matchable_value [of "batch_columns b ! c" "types i" row] by (simp add: cell_def)
  qed
  then show ?thesis
    by (auto simp: matchable_rows_def may_match_def key_batch_def list_all_iff)
qed

text \<open>The rows of the left side that have a partner, and the rows of the right side that have one.\<close>

definition has_partner :: "(nat \<times> nat) list \<Rightarrow> 's batch \<Rightarrow> 's batch \<Rightarrow> nat \<Rightarrow> bool" where
  "has_partner keys left right l \<longleftrightarrow>
     (\<exists>r < num_rows right. may_match (map fst keys) left l \<and> may_match (map snd keys) right r
        \<and> join_key (map fst keys) left l = join_key (map snd keys) right r)"

definition answered :: "(nat \<times> nat) list \<Rightarrow> 's batch \<Rightarrow> 's batch \<Rightarrow> nat \<Rightarrow> bool" where
  "answered keys left right r \<longleftrightarrow>
     (\<exists>l < num_rows left. may_match (map fst keys) left l
        \<and> join_key (map fst keys) left l = join_key (map snd keys) right r)"

lemma number_inj:
  assumes "k \<in> fst ` set entries" and "l \<in> fst ` set entries"
  shows "number entries k = number entries l \<longleftrightarrow> k = l"
  using number_spec(2) [OF assms(1)] number_spec(2) [OF assms(2)] by metis

lemma pick_filter: "pick (map p xs) (map f xs) = map f (filter p xs)"
  by (induction xs) simp_all

text \<open>The numbers of the rows of one side, in the table both sides share.\<close>

lemma side_numbers:
  assumes side: "join_side columns types b" and inv: "table_inv [0..<length columns] types tab"
    and bound: "length (remember_all (group_entries tab) (row_items columns b)) \<le> Suc u32_max"
  shows "\<exists>tab'. chunked_group_ids bytes (\<lambda>_. True) False held (key_batch b columns) tab
      = Inr (map (\<lambda>r. number (group_entries tab') (join_key columns b r)) [0..<num_rows b], tab')
    \<and> table_inv [0..<length columns] types tab'
    \<and> group_entries tab' = remember_all (group_entries tab) (row_items columns b)
    \<and> (\<forall>r < num_rows b. join_key columns b r \<in> fst ` set (group_entries tab'))"
proof -
  have "\<forall>c \<in> set [0..<length columns]. c < length (batch_columns (key_batch b columns))"
    by simp
  from chunked_group_ids_step [OF inv key_batch_grouping [OF side] this, of "\<lambda>_. True" bytes held] bound
  obtain tab' where tab': "chunked_group_ids bytes (\<lambda>_. True) False held (key_batch b columns) tab
      = Inr (map (\<lambda>x. number (group_entries tab') (fst x)) (row_items columns b), tab')"
    "table_inv [0..<length columns] types tab'"
    "group_entries tab' = remember_all (group_entries tab) (row_items columns b)"
    by (auto simp: key_batch_items)
  have "join_key columns b r \<in> fst ` set (group_entries tab')" if "r < num_rows b" for r
    using that unfolding tab'(3) keys_remember_all by (force simp: row_items_def join_key_item)
  moreover have "map (\<lambda>x. number (group_entries tab') (fst x)) (row_items columns b)
      = map (\<lambda>r. number (group_entries tab') (join_key columns b r)) [0..<num_rows b]"
    by (simp add: row_items_def join_key_item)
  ultimately show ?thesis
    using tab' by auto
qed

text \<open>The groups of the right rows that may match.\<close>

definition right_members :: "(nat \<times> nat) list \<Rightarrow> 's batch \<Rightarrow> 's group_table \<Rightarrow> nat set" where
  "right_members keys right tab =
     (\<lambda>r. number (group_entries tab) (join_key (map snd keys) right r))
       ` {r. r < num_rows right \<and> may_match (map snd keys) right r}"

lemma join_numbers:
  assumes L: "join_side (map fst keys) types left" and R: "join_side (map snd keys) types right"
    and bound: "length (remember_all [] (row_items (map snd keys) right @ row_items (map fst keys) left)) \<le> Suc u32_max"
  obtains tab tab' where
    "chunked_group_ids bytes (\<lambda>_. True) False 0 (key_batch right (map snd keys)) (group_table_new [0..<length keys])
      = Inr (map (\<lambda>r. number (group_entries tab) (join_key (map snd keys) right r)) [0..<num_rows right], tab)"
    and "chunked_group_ids bytes (\<lambda>_. True) False (32 * card (right_members keys right tab)) (key_batch left (map fst keys)) tab
      = Inr (map (\<lambda>l. number (group_entries tab') (join_key (map fst keys) left l)) [0..<num_rows left], tab')"
    and "\<And>l r. l < num_rows left \<Longrightarrow> r < num_rows right \<Longrightarrow>
      number (group_entries tab') (join_key (map fst keys) left l) = number (group_entries tab) (join_key (map snd keys) right r)
      \<longleftrightarrow> join_key (map fst keys) left l = join_key (map snd keys) right r"
proof -
  let ?lc = "map fst keys" and ?rc = "map snd keys"
  have none: "group_entries (group_table_new [0..<length keys] :: 'a group_table) = []"
    by (simp add: group_entries_def group_count_def group_table_new_def)
  have both: "length (remember_all (remember_all [] (row_items ?rc right)) (row_items ?lc left)) \<le> Suc u32_max"
    using bound by (simp add: remember_all_append)
  have right_bound: "length (remember_all [] (row_items ?rc right)) \<le> Suc u32_max"
    using both length_remember_all [of "remember_all [] (row_items ?rc right)" "row_items ?lc left"] by linarith
  have "table_inv [0..<length ?rc] types (group_table_new [0..<length keys])"
    by (simp add: table_inv_new)
  from side_numbers [OF R this, of bytes 0] right_bound
  obtain tab where tab: "chunked_group_ids bytes (\<lambda>_. True) False 0 (key_batch right ?rc) (group_table_new [0..<length keys])
      = Inr (map (\<lambda>r. number (group_entries tab) (join_key ?rc right r)) [0..<num_rows right], tab)"
    "table_inv [0..<length keys] types tab" "group_entries tab = remember_all [] (row_items ?rc right)"
    "\<forall>r < num_rows right. join_key ?rc right r \<in> fst ` set (group_entries tab)"
    by (auto simp: none)
  obtain tab' where tab': "chunked_group_ids bytes (\<lambda>_. True) False (32 * card (right_members keys right tab)) (key_batch left ?lc) tab
      = Inr (map (\<lambda>l. number (group_entries tab') (join_key ?lc left l)) [0..<num_rows left], tab')"
    "group_entries tab' = remember_all (group_entries tab) (row_items ?lc left)"
    "\<forall>l < num_rows left. join_key ?lc left l \<in> fst ` set (group_entries tab')"
    using side_numbers [OF L, of tab bytes "32 * card (right_members keys right tab)"] tab(2,3) both by auto
  have member: "number (group_entries tab') (join_key ?lc left l) = number (group_entries tab) (join_key ?rc right r)
      \<longleftrightarrow> join_key ?lc left l = join_key ?rc right r" if "l < num_rows left" "r < num_rows right" for l r
  proof -
    have "join_key ?rc right r \<in> fst ` set (group_entries tab')"
      using tab(4) that unfolding tab'(2) keys_remember_all by blast
    then show ?thesis
      using number_inj tab'(2,3) tab(4) that number_remember_all by metis
  qed
  from that [OF tab(1) tab'(1) member] show ?thesis .
qed

text \<open>The numbered rows of both sides, with whether they may match.\<close>

definition side_rows :: "(nat \<Rightarrow> nat) \<Rightarrow> nat list \<Rightarrow> 's batch \<Rightarrow> (nat \<times> bool) list" where
  "side_rows ids columns b = zip (map ids [0..<num_rows b]) (map (may_match columns b) [0..<num_rows b])"

lemma side_rows_eq: "side_rows ids columns b = map (\<lambda>r. (ids r, may_match columns b r)) [0..<num_rows b]"
  by (simp add: side_rows_def zip_map_map zip_same_conv_map)

lemma side_rows_match:
  fixes keys :: "(nat \<times> nat) list" and left right :: "'s batch"
  defines "lc \<equiv> map fst keys" and "rc \<equiv> map snd keys"
  assumes member: "\<And>l r. l < num_rows left \<Longrightarrow> r < num_rows right \<Longrightarrow>
      ids l = right_ids r \<longleftrightarrow> join_key lc left l = join_key rc right r"
    and members: "members = right_ids ` {r. r < num_rows right \<and> may_match rc right r}"
  shows "{g. (g, True) \<in> set (side_rows right_ids rc right)} = members"
    and "list_ex (\<lambda>(_, matchable). \<not> matchable) (side_rows right_ids rc right)
      \<longleftrightarrow> \<not> (\<forall>r < num_rows right. may_match rc right r)"
    and "map (\<lambda>(g, matchable). matchable \<and> g \<in> members) (side_rows ids lc left)
      = map (has_partner keys left right) [0..<num_rows left]"
    and "\<forall>r < num_rows right. may_match rc right r \<Longrightarrow>
      members \<noteq> {g. (g, True) \<in> set (side_rows ids lc left) \<and> g \<in> members}
      \<longleftrightarrow> \<not> (\<forall>r < num_rows right. answered keys left right r)"
proof -
  show "{g. (g, True) \<in> set (side_rows right_ids rc right)} = members"
    "list_ex (\<lambda>(_, matchable). \<not> matchable) (side_rows right_ids rc right)
      \<longleftrightarrow> \<not> (\<forall>r < num_rows right. may_match rc right r)"
    by (auto simp: members side_rows_eq list_ex_iff)
  have partner: "(may_match lc left l \<and> ids l \<in> members) = has_partner keys left right l" if "l < num_rows left" for l
    using member [OF that] by (auto simp: members has_partner_def lc_def rc_def image_iff)
  then show "map (\<lambda>(g, matchable). matchable \<and> g \<in> members) (side_rows ids lc left)
      = map (has_partner keys left right) [0..<num_rows left]"
    by (auto simp: side_rows_eq)
  assume all: "\<forall>r < num_rows right. may_match rc right r"
  have "right_ids r \<in> {g. (g, True) \<in> set (side_rows ids lc left)} \<longleftrightarrow> answered keys left right r"
    if r: "r < num_rows right" for r
    unfolding side_rows_eq using member [OF _ r] by (force simp: answered_def lc_def rc_def image_iff)
  then show "members \<noteq> {g. (g, True) \<in> set (side_rows ids lc left) \<and> g \<in> members}
      \<longleftrightarrow> \<not> (\<forall>r < num_rows right. answered keys left right r)"
    using all by (auto simp: members)
qed

text \<open>
  C11: a semi-join keeps exactly the left rows with a partner: a right row whose key columns hold the same values
  (equal keys, see C28), none of them NULL or NaN. A certified one fails exactly when a right row has such a
  NULL or NaN, or no left row answers it.
\<close>

theorem semi_join_keeps_rows_with_partner:
  assumes L: "join_side (map fst keys) types left" and R: "join_side (map snd keys) types right"
    and bound: "length (remember_all [] (row_items (map snd keys) right @ row_items (map fst keys) left)) \<le> Suc u32_max"
  shows "semi_join_execute bytes (\<lambda>_. True) (\<lambda>_. True) False certified keys left right =
      (if certified \<and> \<not> (\<forall>r < num_rows right. may_match (map snd keys) right r)
       then Err (Invalid ''certified pruning candidate has an unmatchable key'')
       else if certified \<and> \<not> (\<forall>r < num_rows right. answered keys left right r)
       then Err (Invalid ''certified pruning key has no authoritative value'')
       else Ok (batch_filter (map (has_partner keys left right) [0..<num_rows left]) left))
    \<and> batch_rows (batch_filter (map (has_partner keys left right) [0..<num_rows left]) left)
      = map (batch_row left) (filter (has_partner keys left right) [0..<num_rows left])"
proof -
  let ?lc = "map fst keys" and ?rc = "map snd keys"
  obtain tab tab' where tab:
    "chunked_group_ids bytes (\<lambda>_. True) False 0 (key_batch right ?rc) (group_table_new [0..<length keys])
      = Inr (map (\<lambda>r. number (group_entries tab) (join_key ?rc right r)) [0..<num_rows right], tab)"
    "chunked_group_ids bytes (\<lambda>_. True) False (32 * card (right_members keys right tab)) (key_batch left ?lc) tab
      = Inr (map (\<lambda>l. number (group_entries tab') (join_key ?lc left l)) [0..<num_rows left], tab')"
    and member: "\<And>l r. l < num_rows left \<Longrightarrow> r < num_rows right \<Longrightarrow>
      number (group_entries tab') (join_key ?lc left l) = number (group_entries tab) (join_key ?rc right r)
      \<longleftrightarrow> join_key ?lc left l = join_key ?rc right r"
    by (rule join_numbers [OF L R bound, of bytes], rule that) assumption+
  let ?right = "side_rows (\<lambda>r. number (group_entries tab) (join_key ?rc right r)) ?rc right"
  let ?left = "side_rows (\<lambda>l. number (group_entries tab') (join_key ?lc left l)) ?lc left"
  let ?members = "right_members keys right tab"
  have rows: "{g. (g, True) \<in> set ?right} = ?members"
    "list_ex (\<lambda>(_, matchable). \<not> matchable) ?right \<longleftrightarrow> \<not> (\<forall>r < num_rows right. may_match ?rc right r)"
    "map (\<lambda>(g, matchable). matchable \<and> g \<in> ?members) ?left = map (has_partner keys left right) [0..<num_rows left]"
    "\<forall>r < num_rows right. may_match ?rc right r \<Longrightarrow> ?members \<noteq> {g. (g, True) \<in> set ?left \<and> g \<in> ?members}
      \<longleftrightarrow> \<not> (\<forall>r < num_rows right. answered keys left right r)"
    by (rule side_rows_match [OF member right_members_def]; assumption)+
  have "batch_rows (batch_filter (map (has_partner keys left right) [0..<num_rows left]) left)
      = map (batch_row left) (filter (has_partner keys left right) [0..<num_rows left])"
    using L by (subst batch_rows_filter) (simp_all add: join_side_def batch_rows_def pick_filter)
  moreover have "semi_join_execute bytes (\<lambda>_. True) (\<lambda>_. True) False certified keys left right =
      (if certified \<and> \<not> (\<forall>r < num_rows right. may_match ?rc right r)
       then Err (Invalid ''certified pruning candidate has an unmatchable key'')
       else if certified \<and> \<not> (\<forall>r < num_rows right. answered keys left right r)
       then Err (Invalid ''certified pruning key has no authoritative value'')
       else Ok (batch_filter (map (has_partner keys left right) [0..<num_rows left]) left))"
    unfolding semi_join_execute_def Let_def tab(1) bind_result_simps prod.case
      matchable_rows_match [OF R] matchable_rows_match [OF L] side_rows_def [symmetric] rows(1,2) tab(2) rows(3)
    using rows(4) by auto
  ultimately show ?thesis by blast
qed

theorem semi_join_keeps_rows_with_partner_witness:
  "semi_join_execute (\<lambda>_. 0) (\<lambda>_. True) (\<lambda>_. True) False False [(0, 0)] grouping_example grouping_example
    = Ok (batch_filter (map (has_partner [(0, 0)] grouping_example grouping_example) [0..<4]) grouping_example)"
proof -
  have side: "join_side [0] (\<lambda>_. Utf8Type) grouping_example"
    by (simp add: join_side_def grouping_example_def schema_new_def has_layout_def even_columns_def)
  have "length (row_items [0] grouping_example @ row_items [0] grouping_example) \<le> Suc u32_max"
    by (simp add: row_items_def grouping_example_def u32_max_def)
  then have "length (remember_all [] (row_items [0] grouping_example @ row_items [0] grouping_example)) \<le> Suc u32_max"
    using length_remember_all_le by (rule order_trans [rotated])
  then show ?thesis
    using semi_join_keeps_rows_with_partner [of "[(0, 0)]" "\<lambda>_. Utf8Type" grouping_example grouping_example "\<lambda>_. 0" False] side
    by (simp add: grouping_example_def)
qed

end
