(* ===== verification/PairJoin.thy ===== *)
theory PairJoin
  imports Joins
begin

text \<open>
  The nested-loop join (\<^verbatim>\<open>relational_join\<close> of \<^verbatim>\<open>executor/src/operators/joins/mod.rs\<close>): each left row against all right
  rows, the predicate evaluated as one column over the pairs and, where that fails, pair by pair. What the
  compiled predicate answers is an argument: \<open>columnar l\<close> over all pairs of a left row (\<^verbatim>\<open>evaluate_batch\<close>),
  \<open>single l r\<close> of one pair (\<^verbatim>\<open>evaluate\<close>).
\<close>

section \<open>The matches of one left row\<close>

text \<open>The replay: a semi- or anti-join stops at the first match.\<close>

fun replay :: "bool \<Rightarrow> (nat \<Rightarrow> 's exec_value exec_result) \<Rightarrow> nat list \<Rightarrow> bool list exec_result" where
  "replay stops single [] = Ok []"
| "replay stops single (r # rs) =
     bind_result (single r) (\<lambda>answer.
       if stops \<and> answer = VBool True then Ok [True]
       else bind_result (replay stops single rs) (\<lambda>found. Ok ((answer = VBool True) # found)))"

definition row_matches ::
  "join_kind \<Rightarrow> nat \<Rightarrow> 's array exec_result \<Rightarrow> (nat \<Rightarrow> 's exec_value exec_result) \<Rightarrow> bool list exec_result" where
  "row_matches kind rows columnar single =
     (if kind = CrossJoin then Ok (replicate rows True)
      else
        case columnar of
          Inr (BooleanArray cells) \<Rightarrow> Ok (map (\<lambda>row. cells ! row = Some True) [0..<rows])
        | Inr _ \<Rightarrow> Err (Invalid ''join predicate must be boolean'')
        | Inl _ \<Rightarrow>
            bind_result (replay (kind = SemiJoin \<or> kind = AntiJoin) single [0..<rows])
              (\<lambda>found. Ok (found @ replicate (rows - length found) False)))"

section \<open>The pairs of the output\<close>

record join_state =
  out_left :: "nat option list"
  out_right :: "nat option list"
  right_matched :: "bool list"

text \<open>The inner loop over the matches, and whether one was found; then the rows of a left row without a match.\<close>

fun scan_matches :: "join_kind \<Rightarrow> nat \<Rightarrow> (nat \<times> bool) list \<Rightarrow> bool \<times> join_state \<Rightarrow> bool \<times> join_state" where
  "scan_matches kind l [] state = state"
| "scan_matches kind l ((r, is_match) # rest) (matched, s) =
     (if \<not> is_match then scan_matches kind l rest (matched, s)
      else
        let s = s\<lparr>right_matched := (right_matched s)[r := True]\<rparr> in
        case kind of
          SemiJoin \<Rightarrow> (True, s\<lparr>out_left := out_left s @ [Some l]\<rparr>)
        | AntiJoin \<Rightarrow> (True, s)
        | _ \<Rightarrow>
            scan_matches kind l rest
              (True, s\<lparr>out_left := out_left s @ [Some l], out_right := out_right s @ [Some r]\<rparr>))"

definition join_row :: "join_kind \<Rightarrow> nat \<Rightarrow> bool list \<Rightarrow> join_state \<Rightarrow> join_state" where
  "join_row kind l found s =
     (case scan_matches kind l (enumerate 0 found) (False, s) of
        (matched, s) \<Rightarrow>
          if matched then s
          else
            (case kind of
               LeftJoin \<Rightarrow> s\<lparr>out_left := out_left s @ [Some l], out_right := out_right s @ [None]\<rparr>
             | FullJoin \<Rightarrow> s\<lparr>out_left := out_left s @ [Some l], out_right := out_right s @ [None]\<rparr>
             | AntiJoin \<Rightarrow> s\<lparr>out_left := out_left s @ [Some l]\<rparr>
             | _ \<Rightarrow> s))"

text \<open>The outer loop; \<open>granted\<close> answers the workspace after a row, \<open>cancelled\<close> its checkpoint.\<close>

fun join_rows ::
  "join_kind \<Rightarrow> nat \<Rightarrow> (nat \<Rightarrow> 's array exec_result) \<Rightarrow> (nat \<Rightarrow> nat \<Rightarrow> 's exec_value exec_result)
   \<Rightarrow> (nat \<Rightarrow> bool) \<Rightarrow> bool \<Rightarrow> nat list \<Rightarrow> join_state \<Rightarrow> join_state exec_result" where
  "join_rows kind rows columnar single granted cancelled [] s = Ok s"
| "join_rows kind rows columnar single granted cancelled (l # ls) s =
     bind_result (row_matches kind rows (columnar l) (single l)) (\<lambda>found.
       if cancelled then Err Cancelled
       else
         let s = join_row kind l found s in
         if \<not> granted (rows + 8 * (length (out_left s) + length (out_right s))) then Err MemoryLimit
         else join_rows kind rows columnar single granted cancelled ls s)"

definition join_pairs ::
  "join_kind \<Rightarrow> nat \<Rightarrow> nat \<Rightarrow> (nat \<Rightarrow> 's array exec_result) \<Rightarrow> (nat \<Rightarrow> nat \<Rightarrow> 's exec_value exec_result)
   \<Rightarrow> (nat \<Rightarrow> bool) \<Rightarrow> bool \<Rightarrow> (nat option list \<times> nat option list) exec_result" where
  "join_pairs kind left_rows rows columnar single granted cancelled =
     bind_result
       (join_rows kind rows columnar single granted cancelled [0..<left_rows]
         \<lparr>out_left = [], out_right = [], right_matched = replicate rows False\<rparr>)
       (\<lambda>s.
          let unmatched = (if kind = RightJoin \<or> kind = FullJoin
                then map fst (filter (\<lambda>(r, matched). \<not> matched) (enumerate 0 (right_matched s))) else []) in
          Ok (out_left s @ map (\<lambda>r. None) unmatched, out_right s @ map Some unmatched))"

section \<open>The joined batch\<close>

text \<open>\<^verbatim>\<open>arrow::compute::take\<close> with a null index for a missing row.\<close>

definition gather_or_null :: "'a \<Rightarrow> nat option list \<Rightarrow> 'a list \<Rightarrow> 'a list" where
  "gather_or_null missing indices cells = map (\<lambda>i. case i of None \<Rightarrow> missing | Some row \<Rightarrow> cells ! row) indices"

fun array_take_or_null :: "nat option list \<Rightarrow> 's array \<Rightarrow> 's array" where
  "array_take_or_null is (DictionaryArray keys texts) = DictionaryArray (gather_or_null None is keys) texts"
| "array_take_or_null is (Int64Array cells) = Int64Array (gather_or_null None is cells)"
| "array_take_or_null is (TimestampArray cells) = TimestampArray (gather_or_null None is cells)"
| "array_take_or_null is (Float64Array cells) = Float64Array (gather_or_null None is cells)"
| "array_take_or_null is (BooleanArray cells) = BooleanArray (gather_or_null None is cells)"
| "array_take_or_null is (DecodedArray vs) = DecodedArray (gather_or_null VNull is vs)"

text \<open>The closure \<^verbatim>\<open>take\<close>; a column of summary states has one state for every row.\<close>

definition take_side :: "'s batch \<Rightarrow> nat option list \<Rightarrow> 's array list exec_result" where
  "take_side b indices =
     (if None \<in> set indices \<and> list_ex (\<lambda>f. \<not> is_plain f) (schema_fields (batch_schema b))
      then Err (Invalid ''a summary column has no NULL row'')
      else Ok (map (array_take_or_null indices) (batch_columns b)))"

text \<open>\<^verbatim>\<open>Batch::from_parts\<close>: the columns fit the schema; Arrow refuses columns of another length.\<close>

definition null_fits :: "schema_field \<Rightarrow> 's array \<Rightarrow> bool" where
  "null_fits f array \<longleftrightarrow> nullable f \<or> dtype f = Plain NullType \<or> \<not> list_ex is_null (decode array)"

definition from_parts :: "schema \<Rightarrow> 's array list \<Rightarrow> nat \<Rightarrow> 's batch exec_result" where
  "from_parts s arrays rows =
     (if length arrays \<noteq> length (schema_fields s) then Err (Invalid ''column count differs from Planner schema'')
      else if \<not> list_all2 null_fits (schema_fields s) arrays then Err (Invalid ''value differs from type'')
      else if \<not> list_all (\<lambda>a. length (decode a) = rows) arrays then Err (Invalid ''columnar batch'')
      else Ok \<lparr>batch_schema = s, batch_columns = arrays, num_rows = rows\<rparr>)"

text \<open>
  \<^verbatim>\<open>relational_join\<close> over the collected inputs; \<open>granted_result\<close> answers the bytes of the result.
\<close>

definition relational_join ::
  "join_kind \<Rightarrow> (nat \<Rightarrow> 's array exec_result) \<Rightarrow> (nat \<Rightarrow> nat \<Rightarrow> 's exec_value exec_result)
   \<Rightarrow> (nat \<Rightarrow> bool) \<Rightarrow> ('s batch \<Rightarrow> bool) \<Rightarrow> bool \<Rightarrow> schema \<Rightarrow> 's batch \<Rightarrow> 's batch \<Rightarrow> 's batch exec_result" where
  "relational_join kind columnar single granted granted_result cancelled out left right =
     (if \<not> granted (num_rows right) then Err MemoryLimit
      else bind_result (join_pairs kind (num_rows left) (num_rows right) columnar single granted cancelled)
        (\<lambda>(lefts, rights).
          bind_result (take_side left lefts) (\<lambda>arrays.
          bind_result (if kind = SemiJoin \<or> kind = AntiJoin then Ok [] else take_side right rights) (\<lambda>more.
          bind_result (from_parts out (arrays @ more) (length lefts)) (\<lambda>result.
            if granted_result result then Ok result else Err MemoryLimit)))))"

section \<open>Construction\<close>

text \<open>\<^verbatim>\<open>Operator::with_output_schema\<close>.\<close>

definition with_output_schema :: "schema_field list \<Rightarrow> schema \<Rightarrow> schema exec_result" where
  "with_output_schema actual out =
     (if length actual \<noteq> length (schema_fields out)
        \<or> list_ex (\<lambda>(a, d). dtype a \<noteq> dtype d \<or> nullable a \<and> \<not> nullable d) (zip actual (schema_fields out))
      then Err (Invalid ''native output type differs from Planner output'')
      else if (case time_index out of
          None \<Rightarrow> False
        | Some i \<Rightarrow> i \<ge> length (schema_fields out) \<or> dtype (schema_fields out ! i) \<noteq> Plain TimestampType)
      then Err (Invalid ''invalid output time column'')
      else Ok out)"

text \<open>
  \<^verbatim>\<open>Operator::relational_join\<close>: the fields of the output and the checks. The type of the compiled predicate
  is an argument.
\<close>

definition join_fields :: "join_kind \<Rightarrow> schema_field list \<Rightarrow> schema_field list \<Rightarrow> schema_field list" where
  "join_fields kind left right =
     (if kind = SemiJoin \<or> kind = AntiJoin then left
      else map (\<lambda>f. if kind = RightJoin \<or> kind = FullJoin then Field (name f) (dtype f) True (table f) else f) left
        @ map (\<lambda>f. if kind = LeftJoin \<or> kind = FullJoin then Field (name f) (dtype f) True (table f) else f) right)"

definition relational_join_new ::
  "data_type exec_result \<Rightarrow> join_kind \<Rightarrow> schema \<Rightarrow> schema \<Rightarrow> schema \<Rightarrow> schema exec_result" where
  "relational_join_new predicate_type kind left right out =
     bind_result predicate_type (\<lambda>t.
       if t \<noteq> BoolType then Err (Invalid ''join predicate must be boolean'')
       else with_output_schema (join_fields kind (schema_fields left) (schema_fields right)) out)"

section \<open>The pairs a join should output\<close>

text \<open>
  A pair matches when the predicate answers true for it. A semi- or anti-join reaches a right row when no
  earlier one matches, a cross join evaluates nothing.
\<close>

definition pair_matches :: "join_kind \<Rightarrow> (nat \<Rightarrow> nat \<Rightarrow> 's exec_value exec_result) \<Rightarrow> nat \<Rightarrow> nat \<Rightarrow> bool" where
  "pair_matches kind single l r \<longleftrightarrow> kind = CrossJoin \<or> single l r = Ok (VBool True)"

definition reached :: "join_kind \<Rightarrow> (nat \<Rightarrow> nat \<Rightarrow> 's exec_value exec_result) \<Rightarrow> nat \<Rightarrow> nat \<Rightarrow> bool" where
  "reached kind single l r \<longleftrightarrow>
     kind \<noteq> CrossJoin
     \<and> (kind = SemiJoin \<or> kind = AntiJoin \<longrightarrow> (\<forall>q < r. single l q \<noteq> Ok (VBool True)))"

definition row_pairs ::
  "join_kind \<Rightarrow> nat \<Rightarrow> (nat \<Rightarrow> nat \<Rightarrow> bool) \<Rightarrow> nat \<Rightarrow> (nat option \<times> nat option) list" where
  "row_pairs kind rows m l =
     (let partners = filter (m l) [0..<rows] in
      case kind of
        SemiJoin \<Rightarrow> if partners = [] then [] else [(Some l, None)]
      | AntiJoin \<Rightarrow> if partners = [] then [(Some l, None)] else []
      | LeftJoin \<Rightarrow> if partners = [] then [(Some l, None)] else map (\<lambda>r. (Some l, Some r)) partners
      | FullJoin \<Rightarrow> if partners = [] then [(Some l, None)] else map (\<lambda>r. (Some l, Some r)) partners
      | _ \<Rightarrow> map (\<lambda>r. (Some l, Some r)) partners)"

definition all_pairs ::
  "join_kind \<Rightarrow> nat \<Rightarrow> nat \<Rightarrow> (nat \<Rightarrow> nat \<Rightarrow> bool) \<Rightarrow> (nat option \<times> nat option) list" where
  "all_pairs kind left_rows rows m =
     concat (map (row_pairs kind rows m) [0..<left_rows])
     @ (if kind = RightJoin \<or> kind = FullJoin
        then map (\<lambda>r. (None, Some r)) (filter (\<lambda>r. \<forall>l < left_rows. \<not> m l r) [0..<rows]) else [])"

section \<open>The matches\<close>

lemma replay_through:
  "replay False single rs =
     (if \<forall>r \<in> set rs. is_ok (single r) then Ok (map (\<lambda>r. single r = Ok (VBool True)) rs)
      else Err (projl (single (the (find (\<lambda>r. \<not> is_ok (single r)) rs)))))"
proof (induction rs)
  case (Cons r rs)
  then show ?case by (cases "single r") auto
qed simp

lemma replay_stops:
  "replay True single rs =
     (let before = takeWhile (\<lambda>r. single r \<noteq> Ok (VBool True)) rs in
      if \<forall>r \<in> set before. is_ok (single r)
      then Ok (map (\<lambda>r. False) before @ (if length before < length rs then [True] else []))
      else Err (projl (single (the (find (\<lambda>r. \<not> is_ok (single r)) before)))))"
proof (induction rs)
  case (Cons r rs)
  then show ?case by (cases "single r") (auto simp: Let_def)
qed simp

abbreviation stops_early :: "join_kind \<Rightarrow> bool" where
  "stops_early kind \<equiv> kind = SemiJoin \<or> kind = AntiJoin"

lemma in_takeWhile_upt: "r \<in> set (takeWhile P [0..<n]) \<longleftrightarrow> r < n \<and> (\<forall>q \<le> r. P q)"
proof (induction n)
  case (Suc n)
  show ?case
  proof (cases "\<forall>q < n. P q")
    case True
    then have "takeWhile P [0..<Suc n] = [0..<n] @ (if P n then [n] else [])"
      by (simp add: takeWhile_append)
    with True show ?thesis
      by (auto simp: less_Suc_eq le_less)
  next
    case False
    then obtain q where q: "q < n" "\<not> P q" by blast
    then have "takeWhile P [0..<Suc n] = takeWhile P [0..<n]"
      by (simp add: takeWhile_append1 [of q])
    with Suc q show ?thesis
      by (auto simp: less_Suc_eq)
  qed
qed simp

lemma length_takeWhile_upt: "length (takeWhile P [0..<n]) < n \<longleftrightarrow> (\<exists>r < n. \<not> P r)"
proof -
  have same: "takeWhile P [0..<n] = take (length (takeWhile P [0..<n])) [0..<n]"
    by (rule takeWhile_eq_take)
  have "takeWhile P [0..<n] = [0..<n]" if "length (takeWhile P [0..<n]) = n"
    by (subst same) (simp add: that)
  moreover have "length (takeWhile P [0..<n]) = n" if "takeWhile P [0..<n] = [0..<n]"
    by (simp add: that)
  ultimately have "length (takeWhile P [0..<n]) = n \<longleftrightarrow> takeWhile P [0..<n] = [0..<n]"
    by blast
  then have "length (takeWhile P [0..<n]) = n \<longleftrightarrow> (\<forall>r < n. P r)"
    by (auto simp: takeWhile_eq_all_conv)
  moreover have "length (takeWhile P [0..<n]) \<le> n"
    using length_takeWhile_le [of P "[0..<n]"] by simp
  ultimately show ?thesis by auto
qed

text \<open>Where the column of answers comes, it holds what each pair answers.\<close>

definition answers_agree :: "nat \<Rightarrow> 's array exec_result \<Rightarrow> (nat \<Rightarrow> 's exec_value exec_result) \<Rightarrow> bool" where
  "answers_agree rows columnar single \<longleftrightarrow>
     (case columnar of
        Inl _ \<Rightarrow> True
      | Inr answers \<Rightarrow> \<exists>cells. answers = BooleanArray cells \<and> (\<forall>r < rows. single r = Ok (cell_value VBool (cells ! r))))"

text \<open>A found mask stands for the matches: all of them, or for a join that stops early whether there is one.\<close>

definition mask_of :: "join_kind \<Rightarrow> nat \<Rightarrow> (nat \<Rightarrow> bool) \<Rightarrow> bool list \<Rightarrow> bool" where
  "mask_of kind rows m found \<longleftrightarrow>
     length found = rows
     \<and> (if stops_early kind then (True \<in> set found) = (\<exists>r < rows. m r) else found = map m [0..<rows])"

lemma row_matches_mask:
  assumes agree: "answers_agree rows columnar (single l)"
  shows "if \<exists>r < rows. reached kind single l r \<and> \<not> is_ok (single l r)
    then \<exists>e. row_matches kind rows columnar (single l) = Err e
    else \<exists>found. row_matches kind rows columnar (single l) = Ok found
      \<and> mask_of kind rows (pair_matches kind single l) found"
proof (cases "kind = CrossJoin")
  case True
  then show ?thesis
    by (auto simp: row_matches_def reached_def mask_of_def pair_matches_def intro: nth_equalityI)
next
  case cross: False
  show ?thesis
  proof (cases columnar)
    case (Inr answers)
    then obtain cells where "columnar = Inr (BooleanArray cells)"
      and "\<And>r. r < rows \<Longrightarrow> single l r = Ok (cell_value VBool (cells ! r))"
      using agree by (auto simp: answers_agree_def)
    then show ?thesis
      using cross by (auto simp: row_matches_def mask_of_def pair_matches_def cell_value_def split: option.splits)
  next
    case (Inl e)
    show ?thesis
    proof (cases "stops_early kind")
      case False
      then show ?thesis
        using cross Inl
        by (auto simp: row_matches_def reached_def mask_of_def pair_matches_def replay_through)
    next
      case True
      let ?before = "takeWhile (\<lambda>r. single l r \<noteq> Ok (VBool True)) [0..<rows]"
      have ok: "(\<forall>r \<in> set ?before. is_ok (single l r)) \<longleftrightarrow>
          \<not> (\<exists>r < rows. reached kind single l r \<and> \<not> is_ok (single l r))"
      proof -
        have "r \<in> set ?before \<longleftrightarrow> r < rows \<and> reached kind single l r" if "\<not> is_ok (single l r)" for r
          using True cross that by (auto simp: in_takeWhile_upt reached_def le_less)
        then show ?thesis by blast
      qed
      have "length ?before < rows \<longleftrightarrow> (\<exists>r < rows. single l r = Ok (VBool True))"
        using length_takeWhile_upt [of "\<lambda>r. single l r \<noteq> Ok (VBool True)" rows] by auto
      moreover have "length ?before \<le> rows"
        using length_takeWhile_le [of "\<lambda>r. single l r \<noteq> Ok (VBool True)" "[0..<rows]"] by simp
      ultimately show ?thesis
        using True cross Inl ok
        by (auto simp: row_matches_def mask_of_def pair_matches_def replay_stops Let_def)
    qed
  qed
qed

section \<open>The scan\<close>

lemma scan_stops:
  assumes "stops_early kind"
  shows "fst (scan_matches kind l ms (False, s)) = (\<exists>r. (r, True) \<in> set ms)
    \<and> length (right_matched (snd (scan_matches kind l ms (False, s)))) = length (right_matched s)
    \<and> out_right (snd (scan_matches kind l ms (False, s))) = out_right s
    \<and> out_left (snd (scan_matches kind l ms (False, s)))
      = out_left s @ (if kind = SemiJoin \<and> (\<exists>r. (r, True) \<in> set ms) then [Some l] else [])"
proof (induction ms)
  case (Cons x ms)
  then show ?case
    using assms by (cases x) (auto simp: Let_def)
qed simp

lemma scan_all:
  assumes "\<not> stops_early kind"
  shows "scan_matches kind l ms (matched, s) =
    (matched \<or> (\<exists>r. (r, True) \<in> set ms),
     s\<lparr>out_left := out_left s @ map (\<lambda>_. Some l) (filter snd ms),
       out_right := out_right s @ map (\<lambda>x. Some (fst x)) (filter snd ms),
       right_matched := fold (\<lambda>x seen. seen[fst x := True]) (filter snd ms) (right_matched s)\<rparr>)"
proof (induction ms arbitrary: matched s)
  case (Cons x ms)
  obtain r found where x: "x = (r, found)" by (cases x)
  show ?case
    using assms Cons by (cases kind) (auto simp: x Let_def)
qed simp

text \<open>What a left row adds to the output, from the mask of its matches.\<close>

lemma enumerate_mask: "enumerate 0 found = map (\<lambda>r. (r, found ! r)) [0..<length found]"
  by (rule nth_equalityI) (simp_all add: nth_enumerate_eq)

lemma matches_of_mask: "filter snd (enumerate 0 (map p [0..<n])) = map (\<lambda>r. (r, True)) (filter p [0..<n])"
proof -
  have "enumerate 0 (map p [0..<n]) = map (\<lambda>r. (r, p r)) [0..<n]"
    by (simp add: enumerate_mask)
  then show ?thesis
    by (auto simp: filter_map o_def)
qed

lemma found_in_enumerate: "(\<exists>r. (r, True) \<in> set (enumerate 0 found)) \<longleftrightarrow> True \<in> set found"
  by (auto simp: enumerate_mask in_set_conv_nth image_iff)

lemma marked_rows:
  "fold (\<lambda>x seen. seen[fst x := True]) (map (\<lambda>r. (r, True)) rs) seen
    = map (\<lambda>r. seen ! r \<or> r \<in> set rs) [0..<length seen]"
proof (induction rs arbitrary: seen)
  case Nil
  then show ?case by (simp add: map_nth)
next
  case (Cons r rs)
  have "fold (\<lambda>x seen. seen[fst x := True]) (map (\<lambda>r. (r, True)) rs) (seen[r := True])
      = map (\<lambda>q. seen[r := True] ! q \<or> q \<in> set rs) [0..<length seen]"
    using Cons.IH [of "seen[r := True]"] by simp
  also have "\<dots> = map (\<lambda>q. seen ! q \<or> q \<in> set (r # rs)) [0..<length seen]"
  proof (rule map_cong [OF refl])
    fix q
    assume "q \<in> set [0..<length seen]"
    then show "(seen[r := True] ! q \<or> q \<in> set rs) = (seen ! q \<or> q \<in> set (r # rs))"
      by (cases "q = r") auto
  qed
  finally show ?case by simp
qed

lemma join_row_stops:
  assumes kind: "stops_early kind" and mask: "mask_of kind rows m found"
  shows "out_left (join_row kind l found s) = out_left s @ map fst (row_pairs kind rows (\<lambda>_. m) l)
    \<and> out_right (join_row kind l found s) = out_right s
    \<and> length (right_matched (join_row kind l found s)) = length (right_matched s)"
proof -
  obtain matched s' where scan: "scan_matches kind l (enumerate 0 found) (False, s) = (matched, s')"
    by (cases "scan_matches kind l (enumerate 0 found) (False, s)")
  have "(True \<in> set found) \<longleftrightarrow> filter m [0..<rows] \<noteq> []"
    using mask kind by (auto simp: mask_of_def filter_empty_conv)
  then show ?thesis
    using scan_stops [OF kind, of l "enumerate 0 found" s] kind
    by (auto simp: join_row_def scan found_in_enumerate row_pairs_def Let_def)
qed

lemma join_row_all:
  assumes kind: "\<not> stops_early kind" and mask: "mask_of kind rows m found"
    and len: "length (right_matched s) = rows"
  shows "out_left (join_row kind l found s) = out_left s @ map fst (row_pairs kind rows (\<lambda>_. m) l)
    \<and> out_right (join_row kind l found s) = out_right s @ map snd (row_pairs kind rows (\<lambda>_. m) l)
    \<and> right_matched (join_row kind l found s) = map (\<lambda>r. right_matched s ! r \<or> m r) [0..<rows]"
proof -
  have found: "found = map m [0..<rows]"
    using mask kind by (simp add: mask_of_def)
  have "(True \<in> set found) \<longleftrightarrow> filter m [0..<rows] \<noteq> []"
    unfolding found by (auto simp: filter_empty_conv image_iff)
  moreover have "fold (\<lambda>x seen. seen[fst x := True]) (filter snd (enumerate 0 found)) (right_matched s)
      = map (\<lambda>r. right_matched s ! r \<or> m r) [0..<rows]"
    unfolding found matches_of_mask marked_rows len by (rule map_cong) auto
  ultimately show ?thesis
    using kind
    by (cases kind; simp add: join_row_def scan_all found_in_enumerate row_pairs_def Let_def)
       (simp_all add: found matches_of_mask o_def)
qed

section \<open>All rows\<close>

lemma row_pairs_of: "row_pairs kind rows (\<lambda>_. m l) l = row_pairs kind rows m l"
  by (simp add: row_pairs_def)

lemma join_rows_pairs:
  assumes "\<forall>l \<in> set ls. answers_agree rows (columnar l) (single l)" and "length (right_matched s) = rows"
  shows "if \<exists>l \<in> set ls. \<exists>r < rows. reached kind single l r \<and> \<not> is_ok (single l r)
    then \<exists>e. join_rows kind rows columnar single (\<lambda>_. True) False ls s = Err e
    else \<exists>t. join_rows kind rows columnar single (\<lambda>_. True) False ls s = Ok t
      \<and> out_left t = out_left s @ map fst (concat (map (row_pairs kind rows (pair_matches kind single)) ls))
      \<and> out_right t = out_right s @ (if stops_early kind then []
          else map snd (concat (map (row_pairs kind rows (pair_matches kind single)) ls)))
      \<and> (\<not> stops_early kind \<longrightarrow> right_matched t
          = map (\<lambda>r. right_matched s ! r \<or> (\<exists>l \<in> set ls. pair_matches kind single l r)) [0..<rows])"
  using assms
proof (induction ls arbitrary: s)
  case Nil
  then show ?case by (auto simp: intro: nth_equalityI)
next
  case (Cons l ls)
  let ?m = "pair_matches kind single"
  show ?case
  proof (cases "\<exists>r < rows. reached kind single l r \<and> \<not> is_ok (single l r)")
    case True
    then obtain e where "row_matches kind rows (columnar l) (single l) = Err e"
      using row_matches_mask [of rows "columnar l" single l kind] Cons.prems(1) by auto
    with True show ?thesis by simp
  next
    case False
    then obtain found where found: "row_matches kind rows (columnar l) (single l) = Ok found"
      "mask_of kind rows (?m l) found"
      using row_matches_mask [of rows "columnar l" single l kind] Cons.prems(1)
      unfolding if_not_P [OF False] by auto
    let ?s = "join_row kind l found s"
    have step: "join_rows kind rows columnar single (\<lambda>_. True) False (l # ls) s
        = join_rows kind rows columnar single (\<lambda>_. True) False ls ?s"
      by (simp add: found Let_def)
    have row: "out_left ?s = out_left s @ map fst (row_pairs kind rows ?m l)"
      "out_right ?s = out_right s @ (if stops_early kind then [] else map snd (row_pairs kind rows ?m l))"
      "length (right_matched ?s) = rows"
      "\<not> stops_early kind \<Longrightarrow> right_matched ?s = map (\<lambda>r. right_matched s ! r \<or> ?m l r) [0..<rows]"
      using join_row_stops [OF _ found(2), of l s] join_row_all [OF _ found(2), of s l] Cons.prems(2)
      by (cases "stops_early kind"; simp add: row_pairs_of)+
    have rest: "\<forall>l \<in> set ls. answers_agree rows (columnar l) (single l)"
      using Cons.prems(1) by simp
    show ?thesis
      using Cons.IH [OF rest row(3)] False row(1,2,4) unfolding step
      by (auto split: if_split_asm)
  qed
qed

lemma unmatched_rows:
  "map fst (filter (\<lambda>(r, matched). \<not> matched) (enumerate 0 (map p [0..<n]))) = filter (\<lambda>r. \<not> p r) [0..<n]"
proof -
  have "enumerate 0 (map p [0..<n]) = map (\<lambda>r. (r, p r)) [0..<n]"
    by (simp add: enumerate_mask)
  then show ?thesis
    by (simp add: filter_map o_def)
qed

text \<open>A pair fails that the join reaches.\<close>

definition some_pair_fails :: "join_kind \<Rightarrow> (nat \<Rightarrow> nat \<Rightarrow> 's exec_value exec_result) \<Rightarrow> nat \<Rightarrow> nat \<Rightarrow> bool" where
  "some_pair_fails kind single left_rows rows \<longleftrightarrow>
     (\<exists>l < left_rows. \<exists>r < rows. reached kind single l r \<and> \<not> is_ok (single l r))"

lemma join_pairs_exact:
  assumes agree: "\<forall>l < left_rows. answers_agree rows (columnar l) (single l)"
  shows "if some_pair_fails kind single left_rows rows
    then \<exists>e. join_pairs kind left_rows rows columnar single (\<lambda>_. True) False = Err e
    else join_pairs kind left_rows rows columnar single (\<lambda>_. True) False
      = Ok (map fst (all_pairs kind left_rows rows (pair_matches kind single)),
            if stops_early kind then [] else map snd (all_pairs kind left_rows rows (pair_matches kind single)))"
proof -
  let ?s = "\<lparr>out_left = [], out_right = [], right_matched = replicate rows False\<rparr>"
  let ?m = "pair_matches kind single"
  have rows: "if \<exists>l \<in> set [0..<left_rows]. \<exists>r < rows. reached kind single l r \<and> \<not> is_ok (single l r)
    then \<exists>e. join_rows kind rows columnar single (\<lambda>_. True) False [0..<left_rows] ?s = Err e
    else \<exists>t. join_rows kind rows columnar single (\<lambda>_. True) False [0..<left_rows] ?s = Ok t
      \<and> out_left t = out_left ?s @ map fst (concat (map (row_pairs kind rows ?m) [0..<left_rows]))
      \<and> out_right t = out_right ?s @ (if stops_early kind then []
          else map snd (concat (map (row_pairs kind rows ?m) [0..<left_rows])))
      \<and> (\<not> stops_early kind \<longrightarrow> right_matched t
          = map (\<lambda>r. right_matched ?s ! r \<or> (\<exists>l \<in> set [0..<left_rows]. ?m l r)) [0..<rows])"
    by (rule join_rows_pairs) (use agree in auto)
  show ?thesis
  proof (cases "some_pair_fails kind single left_rows rows")
    case True
    then obtain e where "join_rows kind rows columnar single (\<lambda>_. True) False [0..<left_rows] ?s = Err e"
      using rows by (auto simp: some_pair_fails_def split: if_split_asm)
    with True show ?thesis by (simp add: join_pairs_def)
  next
    case False
    then have no: "\<not> (\<exists>l \<in> set [0..<left_rows]. \<exists>r < rows. reached kind single l r \<and> \<not> is_ok (single l r))"
      by (auto simp: some_pair_fails_def)
    obtain t where t: "join_rows kind rows columnar single (\<lambda>_. True) False [0..<left_rows] ?s = Ok t"
      "out_left t = map fst (concat (map (row_pairs kind rows ?m) [0..<left_rows]))"
      "out_right t = (if stops_early kind then [] else map snd (concat (map (row_pairs kind rows ?m) [0..<left_rows])))"
      "\<not> stops_early kind \<longrightarrow> right_matched t
          = map (\<lambda>r. right_matched ?s ! r \<or> (\<exists>l \<in> set [0..<left_rows]. ?m l r)) [0..<rows]"
      using rows unfolding if_not_P [OF no] by auto
    have "map fst (filter (\<lambda>(r, matched). \<not> matched) (enumerate 0 (right_matched t)))
        = filter (\<lambda>r. \<forall>l < left_rows. \<not> ?m l r) [0..<rows]" if "\<not> stops_early kind"
    proof -
      have "right_matched t = map (\<lambda>r. \<exists>l < left_rows. ?m l r) [0..<rows]"
        using t(4) that by auto
      then show ?thesis by (simp add: unmatched_rows)
    qed
    then show ?thesis
      using False by (auto simp: join_pairs_def t(1,2,3) all_pairs_def Let_def o_def)
  qed
qed

section \<open>The output batch\<close>

lemma decode_take_or_null:
  assumes "\<forall>i. Some i \<in> set is \<longrightarrow> i < length (decode a)"
  shows "decode (array_take_or_null is a) = gather_or_null VNull is (decode a)"
  using assms by (cases a) (auto simp: gather_or_null_def cell_value_def split: option.splits)

text \<open>The row of a side, all NULL where the side has none.\<close>

definition row_or_null :: "'s batch \<Rightarrow> nat option \<Rightarrow> 's exec_value list" where
  "row_or_null b i = (case i of None \<Rightarrow> map (\<lambda>_. VNull) (batch_columns b) | Some row \<Rightarrow> batch_row b row)"

definition pair_row :: "join_kind \<Rightarrow> 's batch \<Rightarrow> 's batch \<Rightarrow> nat option \<times> nat option \<Rightarrow> 's exec_value list" where
  "pair_row kind left right p =
     row_or_null left (fst p) @ (if stops_early kind then [] else row_or_null right (snd p))"

text \<open>A batch as \<^verbatim>\<open>from_parts\<close> makes it, all columns of values.\<close>

definition sound_batch :: "'s batch \<Rightarrow> bool" where
  "sound_batch b \<longleftrightarrow>
     from_parts (batch_schema b) (batch_columns b) (num_rows b) = Ok b \<and> list_all is_plain (schema_fields (batch_schema b))"

lemma sound_batchD:
  assumes "sound_batch b"
  shows "length (batch_columns b) = length (schema_fields (batch_schema b))"
    and "\<And>a. a \<in> set (batch_columns b) \<Longrightarrow> length (decode a) = num_rows b"
    and "\<And>c. c < length (batch_columns b) \<Longrightarrow> null_fits (schema_fields (batch_schema b) ! c) (batch_columns b ! c)"
    and "take_side b is = Ok (map (array_take_or_null is) (batch_columns b))"
  using assms
  by (auto simp: sound_batch_def from_parts_def take_side_def list_all2_conv_all_nth list_all_iff list_ex_iff
      split: if_split_asm)

lemma pairs_in_bounds:
  assumes "p \<in> set (all_pairs kind left_rows rows m)"
  shows "fst p = Some l \<Longrightarrow> l < left_rows" and "snd p = Some r \<Longrightarrow> r < rows"
    and "fst p = None \<Longrightarrow> kind = RightJoin \<or> kind = FullJoin"
    and "snd p = None \<Longrightarrow> \<not> stops_early kind \<Longrightarrow> kind = LeftJoin \<or> kind = FullJoin"
  using assms
  by (cases kind; force simp: all_pairs_def row_pairs_def Let_def split: if_split_asm)+

lemma sides_in_bounds:
  fixes kind left_rows rows m
  defines "ps \<equiv> all_pairs kind left_rows rows m"
  shows "\<forall>i. Some i \<in> set (map fst ps) \<longrightarrow> i < left_rows"
    and "None \<in> set (map fst ps) \<Longrightarrow> kind = RightJoin \<or> kind = FullJoin"
    and "\<forall>i. Some i \<in> set (map snd ps) \<longrightarrow> i < rows"
    and "\<not> stops_early kind \<Longrightarrow> None \<in> set (map snd ps) \<Longrightarrow> kind = LeftJoin \<or> kind = FullJoin"
proof -
  have bounds: "(\<forall>l. fst p = Some l \<longrightarrow> l < left_rows) \<and> (\<forall>r. snd p = Some r \<longrightarrow> r < rows)
      \<and> (fst p = None \<longrightarrow> kind = RightJoin \<or> kind = FullJoin)
      \<and> (snd p = None \<longrightarrow> \<not> stops_early kind \<longrightarrow> kind = LeftJoin \<or> kind = FullJoin)" if "p \<in> set ps" for p
    using pairs_in_bounds that unfolding ps_def by metis
  show "\<forall>i. Some i \<in> set (map fst ps) \<longrightarrow> i < left_rows" "\<forall>i. Some i \<in> set (map snd ps) \<longrightarrow> i < rows"
    using bounds by fastforce+
  show "None \<in> set (map fst ps) \<Longrightarrow> kind = RightJoin \<or> kind = FullJoin"
    using bounds by (auto simp: image_iff)
  show "\<not> stops_early kind \<Longrightarrow> None \<in> set (map snd ps) \<Longrightarrow> kind = LeftJoin \<or> kind = FullJoin"
    using bounds by (auto simp: image_iff)
qed

lemma rows_of_sides:
  assumes "\<And>a. a \<in> set (batch_columns b) \<Longrightarrow> length (decode a) = num_rows b"
    and "\<forall>i. Some i \<in> set is \<longrightarrow> i < num_rows b" and "k < length is"
  shows "map (\<lambda>a. decode a ! k) (map (array_take_or_null is) (batch_columns b)) = row_or_null b (is ! k)"
proof -
  have "decode (array_take_or_null is a) ! k = (case is ! k of None \<Rightarrow> VNull | Some row \<Rightarrow> decode a ! row)"
    if "a \<in> set (batch_columns b)" for a
    using assms that by (subst decode_take_or_null) (auto simp: gather_or_null_def)
  then show ?thesis
    by (auto simp: row_or_null_def batch_row_def split: option.splits)
qed

text \<open>The columns fit: a NULL stands only where the declared field admits it.\<close>

lemma null_fits_taken:
  assumes fits: "null_fits f a" and indices: "\<forall>i. Some i \<in> set is \<longrightarrow> i < length (decode a)"
    and some: "None \<in> set is \<Longrightarrow> nullable g"
    and weaker: "dtype g = dtype f" "nullable f \<Longrightarrow> nullable g"
  shows "null_fits g (array_take_or_null is a)"
proof (cases "nullable g \<or> dtype g = Plain NullType")
  case False
  then have "\<not> is_null v" if "v \<in> set (decode a)" for v
    using fits weaker that by (auto simp: null_fits_def list_ex_iff)
  moreover have "None \<notin> set is"
    using some False by blast
  ultimately show ?thesis
    using indices
    by (fastforce simp: null_fits_def list_ex_iff decode_take_or_null gather_or_null_def split: option.splits
        dest: nth_mem)
qed (auto simp: null_fits_def)

lemma with_output_schema_Ok:
  assumes "with_output_schema actual out = Ok t"
  shows "list_all2 (\<lambda>a d. dtype d = dtype a \<and> (nullable a \<longrightarrow> nullable d)) actual (schema_fields out)"
  using assms
  by (auto simp: with_output_schema_def list_ex_length list_all2_conv_all_nth split: if_split_asm)

lemma side_fits:
  assumes sound: "sound_batch b"
    and indices: "\<forall>i. Some i \<in> set is \<longrightarrow> i < num_rows b"
    and declared: "list_all2 (\<lambda>f g. dtype g = dtype f \<and> (nullable f \<or> None \<in> set is \<longrightarrow> nullable g))
      (schema_fields (batch_schema b)) fs"
  shows "list_all2 null_fits fs (map (array_take_or_null is) (batch_columns b))"
proof (rule list_all2_all_nthI)
  show len: "length fs = length (map (array_take_or_null is) (batch_columns b))"
    using declared sound_batchD(1) [OF sound] by (simp add: list_all2_conv_all_nth)
  fix k
  assume "k < length fs"
  then have k: "k < length (batch_columns b)"
    using len by simp
  have "null_fits (fs ! k) (array_take_or_null is (batch_columns b ! k))"
    by (rule null_fits_taken [OF sound_batchD(3) [OF sound k]])
      (use indices declared k sound_batchD(2) [OF sound nth_mem [OF k]] sound_batchD(1) [OF sound]
        in \<open>auto simp: list_all2_conv_all_nth\<close>)
  with k show "null_fits (fs ! k) (map (array_take_or_null is) (batch_columns b) ! k)"
    by simp
qed

text \<open>The declared fields, side by side, admit the NULLs of the missing rows.\<close>

lemma join_columns_fit:
  assumes sound: "sound_batch left" "sound_batch right"
    and out: "relational_join_new (Ok BoolType) kind (batch_schema left) (batch_schema right) out = Ok out"
    and ps: "ps = all_pairs kind (num_rows left) (num_rows right) m"
  shows "list_all2 null_fits (schema_fields out)
    (map (array_take_or_null (map fst ps)) (batch_columns left)
     @ (if stops_early kind then [] else map (array_take_or_null (map snd ps)) (batch_columns right)))"
proof -
  let ?fits = "\<lambda>is f g :: schema_field. dtype g = dtype f \<and> (nullable f \<or> None \<in> set is \<longrightarrow> nullable g)"
  let ?wider = "\<lambda>a d :: schema_field. dtype d = dtype a \<and> (nullable a \<longrightarrow> nullable d)"
  have declared: "list_all2 ?wider
      (join_fields kind (schema_fields (batch_schema left)) (schema_fields (batch_schema right))) (schema_fields out)"
    using out with_output_schema_Ok by (auto simp: relational_join_new_def)
  note lefts = sides_in_bounds(1,2) [where kind = kind and rows = "num_rows right" and left_rows = "num_rows left"
      and m = m, folded ps]
  note rights = sides_in_bounds(3,4) [where kind = kind and rows = "num_rows right" and left_rows = "num_rows left"
      and m = m, folded ps]
  show ?thesis
  proof (cases "stops_early kind")
    case True
    then have "list_all2 (?fits (map fst ps)) (schema_fields (batch_schema left)) (schema_fields out)"
      using declared lefts(2) by (auto simp: join_fields_def elim!: list_all2_mono)
    then show ?thesis
      using True side_fits [OF sound(1) lefts(1)] by simp
  next
    case False
    define mark where "mark null f = (if null then Field (name f) (dtype f) True (table f) else f)"
      for null and f :: schema_field
    have "list_all2 ?wider
        (map (mark (kind = RightJoin \<or> kind = FullJoin)) (schema_fields (batch_schema left))
         @ map (mark (kind = LeftJoin \<or> kind = FullJoin)) (schema_fields (batch_schema right))) (schema_fields out)"
      using declared False by (simp add: join_fields_def mark_def [abs_def])
    then obtain gs hs where parts: "schema_fields out = gs @ hs"
      and g: "list_all2 (\<lambda>f. ?wider (mark (kind = RightJoin \<or> kind = FullJoin) f)) (schema_fields (batch_schema left)) gs"
      and h: "list_all2 (\<lambda>f. ?wider (mark (kind = LeftJoin \<or> kind = FullJoin) f)) (schema_fields (batch_schema right)) hs"
      unfolding list_all2_append1 list_all2_map1 by blast
    have fits_left: "list_all2 (?fits (map fst ps)) (schema_fields (batch_schema left)) gs"
      by (rule list_all2_mono [OF g]) (use lefts(2) in \<open>auto simp: mark_def split: if_split_asm\<close>)
    have fits_right: "list_all2 (?fits (map snd ps)) (schema_fields (batch_schema right)) hs"
      by (rule list_all2_mono [OF h]) (use rights(2) [OF False] in \<open>auto simp: mark_def split: if_split_asm\<close>)
    show ?thesis
      using False side_fits [OF sound(1) lefts(1) fits_left] side_fits [OF sound(2) rights(1) fits_right]
      unfolding parts by (simp add: list_all2_appendI)
  qed
qed

text \<open>The rows of the batch that the pairs select.\<close>

lemma rows_of_pairs:
  assumes sound: "sound_batch left" "sound_batch right"
    and ps: "ps = all_pairs kind (num_rows left) (num_rows right) m"
  shows "batch_rows \<lparr>batch_schema = out,
      batch_columns = map (array_take_or_null (map fst ps)) (batch_columns left)
        @ (if stops_early kind then [] else map (array_take_or_null (map snd ps)) (batch_columns right)),
      num_rows = length ps\<rparr> = map (pair_row kind left right) ps"
proof -
  note bounds = sides_in_bounds [where kind = kind and rows = "num_rows right" and left_rows = "num_rows left"
      and m = m, folded ps]
  have "map (\<lambda>a. decode a ! k) (map (array_take_or_null (map fst ps)) (batch_columns left))
      = row_or_null left (fst (ps ! k))" if "k < length ps" for k
    using rows_of_sides [OF sound_batchD(2) [OF sound(1)] bounds(1), of k] that by simp
  moreover have "map (\<lambda>a. decode a ! k) (map (array_take_or_null (map snd ps)) (batch_columns right))
      = row_or_null right (snd (ps ! k))" if "k < length ps" for k
    using rows_of_sides [OF sound_batchD(2) [OF sound(2)] bounds(3), of k] that by simp
  ultimately have "map (\<lambda>a. decode a ! k) (map (array_take_or_null (map fst ps)) (batch_columns left)
        @ (if stops_early kind then [] else map (array_take_or_null (map snd ps)) (batch_columns right)))
      = pair_row kind left right (ps ! k)" if "k < length ps" for k
    using that unfolding pair_row_def map_append by simp
  then show ?thesis
    by (intro nth_equalityI) (simp_all add: batch_rows_def batch_row_def)
qed

lemma taken_even:
  assumes sound: "sound_batch b" and indices: "\<forall>i. Some i \<in> set is \<longrightarrow> i < num_rows b"
  shows "list_all (\<lambda>a. length (decode a) = length is) (map (array_take_or_null is) (batch_columns b))"
  using assms sound_batchD(2) [OF sound]
  by (auto simp: list_all_iff decode_take_or_null gather_or_null_def)

text \<open>
  C13: a nested-loop join outputs the pairs of rows its kind asks for, in the order of the left rows, the unmatched
  right rows last, NULL in the place of a missing side, and fails exactly when the predicate fails on a pair it
  reaches: what the evaluation of a whole column answers or whether it fails makes no difference. The declared
  output always admits the NULLs.
\<close>

theorem relational_join_exact:
  assumes sound: "sound_batch left" "sound_batch right"
    and out: "relational_join_new (Ok BoolType) kind (batch_schema left) (batch_schema right) out = Ok out"
    and agree: "\<forall>l < num_rows left. answers_agree (num_rows right) (columnar l) (single l)"
    and ps: "ps = all_pairs kind (num_rows left) (num_rows right) (pair_matches kind single)"
  shows "if some_pair_fails kind single (num_rows left) (num_rows right)
    then \<exists>e. relational_join kind columnar single (\<lambda>_. True) (\<lambda>_. True) False out left right = Err e
    else \<exists>b. relational_join kind columnar single (\<lambda>_. True) (\<lambda>_. True) False out left right = Ok b
      \<and> batch_schema b = out \<and> batch_rows b = map (pair_row kind left right) ps"
proof (cases "some_pair_fails kind single (num_rows left) (num_rows right)")
  case True
  then show ?thesis
    using join_pairs_exact [OF agree, of kind] by (auto simp: relational_join_def)
next
  case False
  note bounds = sides_in_bounds [where kind = kind and rows = "num_rows right" and left_rows = "num_rows left"
      and m = "pair_matches kind single", folded ps]
  let ?arrays = "map (array_take_or_null (map fst ps)) (batch_columns left)
      @ (if stops_early kind then [] else map (array_take_or_null (map snd ps)) (batch_columns right))"
  have "list_all2 null_fits (schema_fields out) ?arrays"
    by (rule join_columns_fit [OF sound out ps])
  moreover have "list_all (\<lambda>a. length (decode a) = length ps) ?arrays"
    using taken_even [OF sound(1) bounds(1)] taken_even [OF sound(2) bounds(3)] by simp
  ultimately have made: "from_parts out ?arrays (length ps)
      = Ok \<lparr>batch_schema = out, batch_columns = ?arrays, num_rows = length ps\<rparr>"
    by (simp add: from_parts_def list_all2_lengthD del: map_map)
  have "join_pairs kind (num_rows left) (num_rows right) columnar single (\<lambda>_. True) False
      = Ok (map fst ps, if stops_early kind then [] else map snd ps)"
    using join_pairs_exact [OF agree, of kind] unfolding if_not_P [OF False] ps .
  then have "relational_join kind columnar single (\<lambda>_. True) (\<lambda>_. True) False out left right
      = Ok \<lparr>batch_schema = out, batch_columns = ?arrays, num_rows = length ps\<rparr>"
    using made by (auto simp: relational_join_def sound_batchD(4) [OF sound(1)] sound_batchD(4) [OF sound(2)] simp del: map_map)
  then show ?thesis
    using rows_of_pairs [OF sound ps, of out] unfolding if_not_P [OF False] by simp
qed

text \<open>A left join of two rows with one, the predicate failing over the column.\<close>

definition left_example :: "unit batch" where
  "left_example =
     \<lparr>batch_schema = schema_new [Field ''a'' (Plain Int64Type) False None],
      batch_columns = [Int64Array [Some 7, Some 8]], num_rows = 2\<rparr>"

definition right_example :: "unit batch" where
  "right_example =
     \<lparr>batch_schema = schema_new [Field ''b'' (Plain Int64Type) False None],
      batch_columns = [Int64Array [Some 8]], num_rows = 1\<rparr>"

definition joined_example :: schema where
  "joined_example = schema_new [Field ''a'' (Plain Int64Type) False None, Field ''b'' (Plain Int64Type) True None]"

definition same_cell :: "nat \<Rightarrow> nat \<Rightarrow> unit exec_value exec_result" where
  "same_cell l r = Ok (VBool (cell left_example 0 l = cell right_example 0 r))"

theorem relational_join_exact_witness:
  "\<exists>b. relational_join LeftJoin (\<lambda>_. Err Cancelled) same_cell (\<lambda>_. True) (\<lambda>_. True) False joined_example
        left_example right_example = Ok b
    \<and> batch_rows b = [[VInt64 7, VNull], [VInt64 8, VInt64 8]]"
proof -
  have sound: "sound_batch left_example" "sound_batch right_example"
    by (simp_all add: sound_batch_def from_parts_def left_example_def right_example_def schema_new_def null_fits_def
        cell_value_def is_null_def is_plain_def is_plain_type_def)
  have out: "relational_join_new (Ok BoolType) LeftJoin (batch_schema left_example) (batch_schema right_example)
      joined_example = Ok joined_example"
    by (simp add: relational_join_new_def with_output_schema_def join_fields_def left_example_def right_example_def
        joined_example_def schema_new_def)
  have pairs: "all_pairs LeftJoin 2 1 (pair_matches LeftJoin same_cell) = [(Some 0, None), (Some 1, Some 0)]"
    by (simp add: all_pairs_def row_pairs_def pair_matches_def same_cell_def cell_def left_example_def
        right_example_def cell_value_def upt_rec Let_def)
  have agree: "\<forall>l < num_rows left_example. answers_agree (num_rows right_example) (Err Cancelled) (same_cell l)"
    by (simp add: answers_agree_def)
  have no: "\<not> some_pair_fails LeftJoin same_cell (num_rows left_example) (num_rows right_example)"
    by (simp add: some_pair_fails_def same_cell_def)
  have "map (pair_row LeftJoin left_example right_example) [(Some 0, None), (Some 1, Some 0)]
      = [[VInt64 7, VNull], [VInt64 8, VInt64 8]]"
    by (simp add: pair_row_def row_or_null_def batch_row_def left_example_def right_example_def cell_value_def)
  then show ?thesis
    using relational_join_exact [OF sound out agree refl] no pairs
    by (auto simp: left_example_def right_example_def)
qed

end
