(* ===== verification/Windows.thy ===== *)
theory Windows
  imports RunMemory OpProps F64
begin

text \<open>
  The time windows of the executor (\<^verbatim>\<open>executor/src/operators/time_range.rs\<close>, \<^verbatim>\<open>series_window.rs\<close>): the window a
  run reads, the instants a PromQL subquery is evaluated at, and the samples of a series in the window of one
  instant. Times are \<^verbatim>\<open>i64\<close> milliseconds: every operation that can leave the width is checked.
\<close>

section \<open>The window of a run\<close>

definition checked :: "string \<Rightarrow> int option \<Rightarrow> int exec_result" where
  "checked what x = ok_or (Invalid what) x"

text \<open>\<^verbatim>\<open>time_range::window\<close>.\<close>

definition time_window :: "int \<Rightarrow> int \<Rightarrow> run_context \<Rightarrow> (int \<times> int) exec_result" where
  "time_window end_offset_ms width_ms r =
     bind_result
       (case run_scope r of
          Query evaluation_time \<Rightarrow>
            checked ''time range overflows Int64'' (checked_sub_i64 evaluation_time end_offset_ms)
        | Ingestion _ window_end \<Rightarrow> Ok window_end)
       (\<lambda>final.
          bind_result (checked ''time range overflows Int64'' (checked_sub_i64 final width_ms))
            (\<lambda>start. Ok (start, final)))"

text \<open>The row filter of \<^verbatim>\<open>time_range::execute\<close>; \<open>drop_stale\<close> is whether stale markers are rows.\<close>

definition stale_marker :: "64 word" where
  "stale_marker = 0x7ff0000000000002"

definition keeps_row :: "int \<Rightarrow> int \<Rightarrow> bool \<Rightarrow> int option \<Rightarrow> f64 option \<Rightarrow> bool" where
  "keeps_row start final drop_stale t sample =
     ((case t of None \<Rightarrow> False | Some t \<Rightarrow> start < t \<and> t \<le> final)
      \<and> \<not> (drop_stale \<and> (case sample of None \<Rightarrow> False | Some v \<Rightarrow> to_bits v = stale_marker)))"

section \<open>The instants of a series window\<close>

record subquery_steps =
  steps_range_ms :: int
  steps_step_ms :: int
  steps_offset_ms :: int
  steps_at_ms :: "int option"



text \<open>\<^verbatim>\<open>with_series_range_bounds\<close>: the anchors an operator with these literal times may have.\<close>

definition is_timestamp :: "at_modifier option \<Rightarrow> bool" where
  "is_timestamp at = (case at of Some (AtTimestamp _) \<Rightarrow> True | _ \<Rightarrow> False)"

definition check_anchors ::
  "int option \<Rightarrow> subquery_steps option \<Rightarrow> at_modifier option \<Rightarrow> at_modifier option \<Rightarrow> unit exec_result" where
  "check_anchors at_ms steps bound steps_bound =
     (if is_timestamp bound \<or> is_timestamp steps_bound
         \<or> bound \<noteq> None \<and> at_ms \<noteq> None
         \<or> steps_bound \<noteq> None \<and> (case steps of None \<Rightarrow> True | Some s \<Rightarrow> steps_at_ms s \<noteq> None)
      then Err (Invalid ''invalid range-bound anchor'')
      else Ok ())"

text \<open>\<^verbatim>\<open>anchor\<close>, \<^verbatim>\<open>evaluation_time\<close>, \<^verbatim>\<open>evaluation_times\<close> and \<^verbatim>\<open>validate_context\<close>.\<close>

definition anchor :: "run_context \<Rightarrow> int option \<Rightarrow> at_modifier option \<Rightarrow> int option exec_result" where
  "anchor r literal bound =
     (case bound of
        None \<Rightarrow> Ok literal
      | Some bound \<Rightarrow>
          bind_result (ok_or (Invalid ''@ start() and @ end() require query range bounds'') (query_range r))
            (\<lambda>(start, final).
               case bound of
                 AtStart \<Rightarrow> Ok (Some start)
               | AtEnd \<Rightarrow> Ok (Some final)
               | AtTimestamp _ \<Rightarrow> Err (Invalid ''invalid range-bound anchor'')))"

definition evaluation_time :: "run_context \<Rightarrow> int exec_result" where
  "evaluation_time r =
     (case run_scope r of
        Query at \<Rightarrow> Ok at
      | Ingestion _ _ \<Rightarrow> Err (Invalid ''series window requires a query evaluation time''))"

definition evaluation_times :: "int \<Rightarrow> subquery_steps option \<Rightarrow> (int \<times> int \<times> int) exec_result" where
  "evaluation_times now steps =
     (case steps of
        None \<Rightarrow> Ok (now, now, 1)
      | Some s \<Rightarrow>
          bind_result
            (checked ''subquery grid overflows''
              (checked_sub_i64 (case steps_at_ms s of None \<Rightarrow> now | Some at \<Rightarrow> at) (steps_offset_ms s)))
            (\<lambda>final. bind_result
              (checked ''subquery grid overflows'' (checked_sub_i64 final (steps_range_ms s)))
              (\<lambda>start. bind_result
                (checked ''subquery grid overflows''
                  (if in_i64 ((start div steps_step_ms s + 1) * steps_step_ms s)
                   then Some ((start div steps_step_ms s + 1) * steps_step_ms s) else None))
                (\<lambda>first'. Ok (first', final, steps_step_ms s)))))"

definition resolve_steps ::
  "run_context \<Rightarrow> subquery_steps option \<Rightarrow> at_modifier option \<Rightarrow> subquery_steps option exec_result" where
  "resolve_steps r steps steps_bound =
     (case steps of
        None \<Rightarrow> Ok None
      | Some s \<Rightarrow> bind_result (anchor r (steps_at_ms s) steps_bound) (\<lambda>at. Ok (Some (s\<lparr>steps_at_ms := at\<rparr>))))"

definition validate_context ::
  "run_context \<Rightarrow> int option \<Rightarrow> subquery_steps option \<Rightarrow> at_modifier option \<Rightarrow> at_modifier option
   \<Rightarrow> unit exec_result" where
  "validate_context r at_ms steps bound steps_bound =
     bind_result (anchor r at_ms bound) (\<lambda>_.
       bind_result (resolve_steps r steps steps_bound) (\<lambda>steps.
         bind_result (evaluation_time r) (\<lambda>now.
           bind_result (evaluation_times now steps) (\<lambda>_. Ok ()))))"


text \<open>The window of one instant, and the samples in it, found by bisection of the sorted samples.\<close>

definition instant_window :: "int option \<Rightarrow> int \<Rightarrow> int \<Rightarrow> int \<Rightarrow> (int \<times> int) exec_result" where
  "instant_window at_ms shift_ms range_ms time =
     bind_result
       (checked ''series window overflows''
         (checked_sub_i64 (case at_ms of None \<Rightarrow> time | Some at \<Rightarrow> at) shift_ms))
       (\<lambda>final. bind_result (checked ''series window overflows'' (checked_sub_i64 final range_ms))
         (\<lambda>start. Ok (start, final)))"

definition partition_point :: "('a \<Rightarrow> bool) \<Rightarrow> 'a list \<Rightarrow> nat" where
  "partition_point p xs = length (takeWhile p xs)"

definition window_samples :: "int \<Rightarrow> int \<Rightarrow> (int \<times> f64) list \<Rightarrow> (int \<times> f64) list" where
  "window_samples start final samples =
     (let a = partition_point (\<lambda>p. fst p \<le> start) samples;
          b = partition_point (\<lambda>p. fst p \<le> final) samples in
      take (b - a) (drop a samples))"

text \<open>Instant selection (\<^verbatim>\<open>function: None\<close>): the latest sample of the window, absent if it is a stale marker.\<close>

definition instant_value :: "(int \<times> f64) list \<Rightarrow> f64 option" where
  "instant_value samples =
     (if samples = [] then None
      else let v = snd (last samples) in if to_bits v = stale_marker then None else Some v)"

text \<open>
  The loop of \<^verbatim>\<open>series_window::execute\<close> for instant selection: at every instant, every series in its order
  (\<open>points\<close> holds a series' samples sorted by time), the instant and value of those that have one.
\<close>

definition series_at ::
  "int option \<Rightarrow> int \<Rightarrow> int \<Rightarrow> nat list \<Rightarrow> (int \<times> f64) list list \<Rightarrow> int \<Rightarrow> (nat \<times> int \<times> f64) list exec_result" where
  "series_at at_ms shift_ms range_ms order points time =
     bind_result (instant_window at_ms shift_ms range_ms time) (\<lambda>(start, final).
       Ok (List.map_filter (\<lambda>series.
             map_option (\<lambda>v. (series, time, v)) (instant_value (window_samples start final (points ! series))))
           order))"

definition series_rows ::
  "int option \<Rightarrow> int \<Rightarrow> int \<Rightarrow> nat list \<Rightarrow> (int \<times> f64) list list \<Rightarrow> int list \<Rightarrow> (nat \<times> int \<times> f64) list exec_result" where
  "series_rows at_ms shift_ms range_ms order points instants =
     (if order = [] then Ok []
      else bind_result (collect_result (series_at at_ms shift_ms range_ms order points) instants)
             (\<lambda>rows. Ok (concat rows)))"

section \<open>The grid\<close>

lemma checked_Ok [simp]: "checked what x = Inr y \<longleftrightarrow> x = Some y"
  by (simp add: checked_def)









section \<open>Samples in a window\<close>

lemma window_samples_filter:
  assumes sorted: "sorted_wrt (<) (map fst samples)" and "start \<le> final"
  shows "window_samples start final samples = filter (\<lambda>p. start < fst p \<and> fst p \<le> final) samples"
  using assms
proof (induction samples)
  case (Cons p samples)
  have "filter (\<lambda>p. start < fst p \<and> fst p \<le> final) samples = []
      \<and> takeWhile (\<lambda>p. fst p \<le> final) samples = []" if "final < fst p"
    using that Cons.prems by (cases samples) (auto simp: filter_empty_conv)
  moreover have "takeWhile (\<lambda>p. fst p \<le> start) samples = []" if "start < fst p"
    using that Cons.prems by (cases samples) auto
  ultimately show ?case
    using Cons by (auto simp: window_samples_def partition_point_def Let_def)
qed (simp add: window_samples_def partition_point_def)





end
