(* ===== verification/Pruning.thy ===== *)
theory Pruning
  imports SelectedDag
begin

text \<open>
  Stage 2's pruning (\<^verbatim>\<open>physical-asap-optimization/src/catalog/pruning.rs\<close>) and the check of a catalog
  (\<^verbatim>\<open>catalog/mod.rs\<close>): which candidates no plan can use, and the catalog without them. The sharing of equal
  producer lists in one allocation (\<^verbatim>\<open>ProducerSetInterner\<close>) is not modelled: a list stands for its content.
\<close>

section \<open>The check of a catalog\<close>

fun constraint_outputs :: "reader_constraint \<Rightarrow> nat list" where
  "constraint_outputs (MinimumQueryReaders _ query_outputs _) = concat query_outputs"
| "constraint_outputs (HighestSharedQueryMaterialization _ query_outputs) = concat query_outputs"
| "constraint_outputs (AllowedOutputs _ outputs) = outputs"
| "constraint_outputs (IncompatibleOutputs _ l r) = [l, r]"

definition must_partition :: "reader_constraint \<Rightarrow> bool" where
  "must_partition k \<longleftrightarrow>
     (case k of
        MinimumQueryReaders _ _ _ \<Rightarrow> True
      | HighestSharedQueryMaterialization _ _ \<Rightarrow> True
      | _ \<Rightarrow> False)"

definition validate_constraint :: "physical_catalog \<Rightarrow> reader_constraint \<Rightarrow> string + unit" where
  "validate_constraint p k =
     (let outputs = constraint_outputs k in
      if must_partition k
        \<and> (length outputs \<noteq> output_reference_count p \<or> card (set outputs) \<noteq> length outputs)
      then Err ''query reader buckets must partition every output exactly once''
      else if constrained_candidate k \<ge> length (catalog_candidates p)
        \<or> list_ex (\<lambda>output. output \<ge> output_reference_count p) outputs
      then Err ''reader constraint references missing candidate or output''
      else Ok ())"

fun validate_ids :: "nat list \<Rightarrow> nat \<Rightarrow> nat set \<Rightarrow> string + unit" where
  "validate_ids [] existing seen = Ok ()"
| "validate_ids (i # ids) existing seen =
     (if i \<ge> existing then Err ''references missing candidate''
      else if i \<in> seen then Err ''repeats candidate''
      else validate_ids ids existing (insert i seen))"

definition validate_candidate :: "physical_catalog \<Rightarrow> physical_candidate \<Rightarrow> string + unit" where
  "validate_candidate p c =
     (if operator_node_index c \<ge> length (catalog_nodes p) then Err ''candidate references missing operator node''
      else bind_result
        (collect_result (\<lambda>ids. validate_ids ids (length (catalog_candidates p)) {}) (producers_per_input c))
        (\<lambda>_. Ok ()))"

definition validate_candidates :: "physical_catalog \<Rightarrow> string + unit" where
  "validate_candidates p =
     bind_result (collect_result (validate_constraint p) (catalog_constraints p)) (\<lambda>_.
     bind_result (collect_result (validate_candidate p) (catalog_candidates p)) (\<lambda>_. Ok ()))"

section \<open>Why a candidate cannot be used\<close>

datatype prune_reason =
    RequiresExact
  | NullableAvgInput
  | NoRelationalCountSketchRealization
  | UnsupportedByDeployment
  | QuantileOutsideUnitInterval
  | TopKHeapOverOneRowPerItem
  | NoErrorBoundForQueryTarget
  | PerEntityAggregateNotExecutable
  | RawDataNotRetained
  | InputHasNoBuildableProducer
  | ReachesNoQueryOutput
  | TooFewQueryReaders
  | DominatedBy nat
  | UsageNotCostable

text \<open>
  The least fixed point of what can be built: passes over all candidates until one changes nothing. A pass
  sees its own marks. A \<^verbatim>\<open>Vec<bool>\<close> over the candidates is the set of those marked.
\<close>

definition realize_step ::
  "physical_catalog \<Rightarrow> (nat \<Rightarrow> bool) \<Rightarrow> nat \<Rightarrow> bool \<times> nat set \<Rightarrow> bool \<times> nat set" where
  "realize_step p enabled c state =
     (case state of (changed, realizable) \<Rightarrow>
        if enabled c \<and> c \<notin> realizable \<and> list_all (list_ex (\<lambda>i. i \<in> realizable)) (inputs_of p c)
        then (True, insert c realizable) else (changed, realizable))"

definition realize_pass :: "physical_catalog \<Rightarrow> (nat \<Rightarrow> bool) \<Rightarrow> nat set \<Rightarrow> bool \<times> nat set" where
  "realize_pass p enabled realizable =
     fold (realize_step p enabled) [0..<length (catalog_candidates p)] (False, realizable)"

lemma realize_fold:
  assumes "fold (realize_step p enabled) cs (changed, S) = (changed', S')"
  shows "S \<subseteq> S'" and "S' \<subseteq> S \<union> set cs" and "changed' \<longleftrightarrow> changed \<or> S \<noteq> S'"
    and "S' = S \<Longrightarrow> c \<in> set cs \<Longrightarrow> enabled c \<Longrightarrow> list_all (list_ex (\<lambda>i. i \<in> S)) (inputs_of p c) \<Longrightarrow> c \<in> S"
proof -
  have "S \<subseteq> S' \<and> S' \<subseteq> S \<union> set cs \<and> (changed' \<longleftrightarrow> changed \<or> S \<noteq> S')
    \<and> (S' = S \<longrightarrow> (\<forall>c \<in> set cs. enabled c \<longrightarrow> list_all (list_ex (\<lambda>i. i \<in> S)) (inputs_of p c) \<longrightarrow> c \<in> S))"
    using assms
  proof (induction cs arbitrary: changed S)
    case (Cons x cs)
    show ?case
    proof (cases "enabled x \<and> x \<notin> S \<and> list_all (list_ex (\<lambda>i. i \<in> S)) (inputs_of p x)")
      case True
      with Cons.prems have "fold (realize_step p enabled) cs (True, insert x S) = (changed', S')"
        by (simp add: realize_step_def [of p enabled x "(changed, S)"])
      from Cons.IH [OF this] True show ?thesis by auto
    next
      case False
      with Cons.prems have "fold (realize_step p enabled) cs (changed, S) = (changed', S')"
        by (simp add: realize_step_def [of p enabled x "(changed, S)"] del: de_Morgan_conj)
      from Cons.IH [OF this] False show ?thesis by auto
    qed
  qed simp
  then show "S \<subseteq> S'" "S' \<subseteq> S \<union> set cs" "changed' \<longleftrightarrow> changed \<or> S \<noteq> S'"
    "S' = S \<Longrightarrow> c \<in> set cs \<Longrightarrow> enabled c \<Longrightarrow> list_all (list_ex (\<lambda>i. i \<in> S)) (inputs_of p c) \<Longrightarrow> c \<in> S"
    by blast+
qed

function realize :: "physical_catalog \<Rightarrow> (nat \<Rightarrow> bool) \<Rightarrow> nat set \<Rightarrow> nat set" where
  "realize p enabled realizable =
     (case realize_pass p enabled realizable of
        (changed, realizable') \<Rightarrow> if changed then realize p enabled realizable' else realizable')"
  by pat_completeness auto
termination
proof (relation "measure (\<lambda>(p, enabled, realizable). card ({..<length (catalog_candidates p)} - realizable))")
  fix p enabled realizable changed S
  assume x: "(changed, S) = realize_pass p enabled realizable" changed
  then have f: "fold (realize_step p enabled) [0..<length (catalog_candidates p)] (False, realizable) = (changed, S)"
    by (simp add: realize_pass_def)
  obtain c where "c \<in> S" "c \<notin> realizable"
    using realize_fold(1,3) [OF f] x(2) by blast
  then have "c \<in> {..<length (catalog_candidates p)} - realizable" "c \<notin> {..<length (catalog_candidates p)} - S"
    using realize_fold(2) [OF f] by auto
  then have "{..<length (catalog_candidates p)} - S \<subset> {..<length (catalog_candidates p)} - realizable"
    using realize_fold(1) [OF f] by blast
  then show "((p, enabled, S), (p, enabled, realizable))
      \<in> measure (\<lambda>(p, enabled, realizable). card ({..<length (catalog_candidates p)} - realizable))"
    by (simp add: psubset_card_mono)
qed simp

declare realize.simps [simp del]

text \<open>What an output reaches, from its candidates down through candidates that can be built.\<close>

partial_function (option) reach_realizable ::
  "(nat \<Rightarrow> bool) \<Rightarrow> (nat \<Rightarrow> nat list) \<Rightarrow> nat list \<Rightarrow> nat set \<Rightarrow> nat set option" where
  [code]: "reach_realizable realizable succs pending reached =
     (if pending = [] then Some reached
      else if realizable (last pending) \<and> last pending \<notin> reached
      then reach_realizable realizable succs (butlast pending @ succs (last pending)) (insert (last pending) reached)
      else reach_realizable realizable succs (butlast pending) reached)"

definition potential_reach :: "physical_catalog \<Rightarrow> nat set \<Rightarrow> nat set list option" where
  "potential_reach p realizable =
     collect_option (\<lambda>r. reach_realizable (\<lambda>c. c \<in> realizable) (\<lambda>c. concat (inputs_of p c)) (query_output_candidates p r) {})
       [0..<output_reference_count p]"

fun restrict_reach :: "reader_constraint \<Rightarrow> nat set list \<Rightarrow> nat set list" where
  "restrict_reach (AllowedOutputs c allowed) reach =
     map (\<lambda>(r, R). if r \<in> set allowed then R else R - {c}) (enumerate 0 reach)"
| "restrict_reach _ reach = reach"

text \<open>One round: the reason of each candidate, given the candidates no earlier round ruled out.\<close>

definition build_reason :: "(nat \<Rightarrow> bool) \<Rightarrow> nat set \<Rightarrow> nat set list \<Rightarrow> nat \<Rightarrow> prune_reason option" where
  "build_reason enabled realizable reach c =
     (if \<not> enabled c \<or> c \<in> realizable \<and> list_ex (\<lambda>R. c \<in> R) reach then None
      else if c \<notin> realizable then Some InputHasNoBuildableProducer
      else Some ReachesNoQueryOutput)"

fun reader_reason :: "nat set list \<Rightarrow> reader_constraint \<Rightarrow> prune_reason option list \<Rightarrow> prune_reason option list" where
  "reader_reason reach (MinimumQueryReaders c query_outputs minimum) round =
     (if length (filter (list_ex (\<lambda>r. c \<in> reach ! r)) query_outputs) < minimum \<and> round ! c = None
      then round[c := Some TooFewQueryReaders] else round)"
| "reader_reason reach _ round = round"

definition prune_round :: "physical_catalog \<Rightarrow> prune_reason option list \<Rightarrow> prune_reason option list option" where
  "prune_round p reasons =
     (let n = length (catalog_candidates p);
          enabled = (\<lambda>c. reasons ! c = None);
          realizable = realize p enabled {} in
      map_option
        (\<lambda>reach.
           let reach = fold restrict_reach (catalog_constraints p) reach in
           fold (reader_reason reach) (catalog_constraints p) (map (build_reason enabled realizable reach) [0..<n]))
        (potential_reach p realizable))"

definition first_reason :: "prune_reason option \<Rightarrow> prune_reason option \<Rightarrow> prune_reason option" where
  "first_reason earlier new = (if earlier = None then new else earlier)"

partial_function (option) prune_rounds ::
  "physical_catalog \<Rightarrow> prune_reason option list \<Rightarrow> prune_reason option list option" where
  [code]: "prune_rounds p reasons =
     (case prune_round p reasons of
        None \<Rightarrow> None
      | Some round \<Rightarrow>
          if list_ex (\<lambda>(earlier, new). earlier = None \<and> new \<noteq> None) (zip reasons round)
          then prune_rounds p (map2 first_reason reasons round) else Some reasons)"

definition prune_reasons :: "physical_catalog \<Rightarrow> prune_reason option list option" where
  "prune_reasons p = prune_rounds p (replicate (length (catalog_candidates p)) None)"

section \<open>The catalog without them\<close>

datatype pruning_failure = InvalidCatalog string | PruningPanicked

record pruned_candidate =
  pruned_group :: nat
  pruned_node :: nat
  pruned_timing :: execution_timing
  pruned_materialization :: materialization
  pruned_reason :: prune_reason

definition removed_candidate :: "physical_catalog \<Rightarrow> physical_candidate \<times> prune_reason \<Rightarrow> pruned_candidate option" where
  "removed_candidate p cr =
     (case cr of (c, reason) \<Rightarrow>
        map_option
          (\<lambda>g. \<lparr>pruned_group = g, pruned_node = operator_node_index c, pruned_timing = candidate_timing c,
                pruned_materialization = candidate_materialization c, pruned_reason = reason\<rparr>)
          (Option.bind (get (catalog_nodes p) (operator_node_index c)) node_group))"

text \<open>The new id of each candidate that is kept.\<close>

fun renumber :: "nat \<Rightarrow> bool list \<Rightarrow> nat option list" where
  "renumber k [] = []"
| "renumber k (True # keep) = Some k # renumber (Suc k) keep"
| "renumber k (False # keep) = None # renumber k keep"

fun with_candidate :: "reader_constraint \<Rightarrow> nat \<Rightarrow> reader_constraint" where
  "with_candidate (MinimumQueryReaders _ qs m) c = MinimumQueryReaders c qs m"
| "with_candidate (HighestSharedQueryMaterialization _ qs) c = HighestSharedQueryMaterialization c qs"
| "with_candidate (AllowedOutputs _ outputs) c = AllowedOutputs c outputs"
| "with_candidate (IncompatibleOutputs _ l r) c = IncompatibleOutputs c l r"

definition restricted :: "nat option list \<Rightarrow> physical_catalog \<Rightarrow> physical_catalog option" where
  "restricted mapping p =
     catalog_new (catalog_nodes p)
       (map (\<lambda>(_, c). c\<lparr>producers_per_input := map (List.map_filter ((!) mapping)) (producers_per_input c)\<rparr>)
         (filter (\<lambda>(i, _). mapping ! i \<noteq> None) (enumerate 0 (catalog_candidates p))))
       (catalog_query_roots p)
       (List.map_filter (\<lambda>k. map_option (with_candidate k) (mapping ! constrained_candidate k)) (catalog_constraints p))"

definition prune ::
  "physical_catalog \<Rightarrow> pruned_candidate list \<Rightarrow> pruning_failure + physical_catalog \<times> pruned_candidate list" where
  "prune p pruned =
     bind_result (ok_or PruningPanicked (prune_reasons p)) (\<lambda>reasons.
     bind_result (ok_or PruningPanicked (collect_option (removed_candidate p)
         (List.map_filter (\<lambda>(c, reason). map_option (Pair c) reason) (zip (catalog_candidates p) reasons)))) (\<lambda>removed.
     bind_result (ok_or PruningPanicked (restricted (renumber 0 (map (\<lambda>r. r = None) reasons)) p)) (\<lambda>p'.
     bind_result (case validate_candidates p' of Inl e \<Rightarrow> Err (InvalidCatalog e) | Inr _ \<Rightarrow> Ok ()) (\<lambda>_.
     Ok (p', pruned @ removed)))))"

end
