(* ===== verification/PruningLaws.thy ===== *)
theory PruningLaws
  imports Pruning
begin

text \<open>
  Pruning is sound: its loops end, every candidate some accepted selection runs stays, and the catalog without the
  others has the same selections.
\<close>

section \<open>The rounds end\<close>

lemma realize_closed:
  "c < length (catalog_candidates p) \<Longrightarrow> enabled c \<Longrightarrow>
   \<forall>ids \<in> set (inputs_of p c). \<exists>i \<in> set ids. i \<in> realize p enabled S \<Longrightarrow> c \<in> realize p enabled S"
proof (induction p enabled S rule: realize.induct)
  case (1 p enabled S)
  obtain changed S' where pass: "realize_pass p enabled S = (changed, S')"
    by (cases "realize_pass p enabled S")
  show ?case
  proof (cases changed)
    case True
    have "realize p enabled S = realize p enabled S'"
      by (subst realize.simps) (simp add: pass True)
    then show ?thesis
      using 1(1) [OF pass [symmetric] True] 1(2-4) by simp
  next
    case False
    have f: "fold (realize_step p enabled) [0..<length (catalog_candidates p)] (False, S) = (changed, S')"
      using pass by (simp add: realize_pass_def)
    have "S' = S"
      using realize_fold(3) [OF f] False by simp
    moreover have "realize p enabled S = S'"
      by (subst realize.simps) (simp add: pass False)
    ultimately show ?thesis
      using realize_fold(4) [OF f, of c] 1(2-4) by (simp add: list_all_iff list_ex_iff)
  qed
qed

lemma reach_realizable_ends:
  assumes "finite S" "\<forall>a \<in> S. set (succs a) \<subseteq> S"
  shows "set pending \<subseteq> S \<Longrightarrow> reached \<subseteq> S \<Longrightarrow>
    \<forall>a \<in> reached. \<forall>b \<in> set (succs a). ok b \<longrightarrow> b \<in> reached \<union> set pending \<Longrightarrow>
    \<exists>R. reach_realizable ok succs pending reached = Some R \<and> reached \<subseteq> R
      \<and> (\<forall>b \<in> set pending. ok b \<longrightarrow> b \<in> R) \<and> (\<forall>a \<in> R. \<forall>b \<in> set (succs a). ok b \<longrightarrow> b \<in> R)"
proof (induction "(card (S - reached), length pending)" arbitrary: pending reached
    rule: wf_induct_rule[OF wf_lex_prod[OF wf_less_than wf_less_than]])
  case 1
  show ?case
  proof (cases pending rule: rev_cases)
    case Nil
    with 1(4) show ?thesis by (subst reach_realizable.simps) auto
  next
    case (snoc ps a)
    show ?thesis
    proof (cases "ok a \<and> a \<notin> reached")
      case True
      have a: "a \<in> S" using 1(2) snoc by simp
      then have "card (S - insert a reached) < card (S - reached)"
        using True assms(1) by (intro psubset_card_mono) auto
      then have less: "((card (S - insert a reached), length (ps @ succs a)), (card (S - reached), length pending))
          \<in> less_than <*lex*> less_than" by simp
      have closed: "\<forall>x \<in> insert a reached. \<forall>b \<in> set (succs x). ok b \<longrightarrow> b \<in> insert a reached \<union> set (ps @ succs a)"
        using 1(4) snoc by auto
      have "set (ps @ succs a) \<subseteq> S" "insert a reached \<subseteq> S"
        using 1(2,3) snoc a assms(2) by auto
      from 1(1) [OF less this closed] obtain R where
        "reach_realizable ok succs (ps @ succs a) (insert a reached) = Some R"
        "insert a reached \<subseteq> R" "\<forall>b \<in> set (ps @ succs a). ok b \<longrightarrow> b \<in> R"
        "\<forall>a \<in> R. \<forall>b \<in> set (succs a). ok b \<longrightarrow> b \<in> R"
        by blast
      with True snoc show ?thesis by (subst reach_realizable.simps) auto
    next
      case False
      have less: "((card (S - reached), length ps), (card (S - reached), length pending)) \<in> less_than <*lex*> less_than"
        using snoc by simp
      have closed: "\<forall>x \<in> reached. \<forall>b \<in> set (succs x). ok b \<longrightarrow> b \<in> reached \<union> set ps"
        using 1(4) snoc False by auto
      have "set ps \<subseteq> S"
        using 1(2) snoc by auto
      from 1(1) [OF less this 1(3) closed] obtain R where "reach_realizable ok succs ps reached = Some R" "reached \<subseteq> R"
        "\<forall>b \<in> set ps. ok b \<longrightarrow> b \<in> R" "\<forall>a \<in> R. \<forall>b \<in> set (succs a). ok b \<longrightarrow> b \<in> R"
        by blast
      with False snoc show ?thesis by (subst reach_realizable.simps) auto
    qed
  qed
qed

text \<open>A catalog that passed the check, and whose index is that of its candidates.\<close>

definition sound_catalog :: "physical_catalog \<Rightarrow> bool" where
  "sound_catalog p \<longleftrightarrow>
     validate_candidates p = Ok ()
     \<and> (\<forall>n \<in> set (catalog_nodes p). implemented_candidates n \<noteq> [])
     \<and> catalog_new (catalog_nodes p) (catalog_candidates p) (catalog_query_roots p) (catalog_constraints p) = Some p"

lemma collect_checks: "(\<exists>ys. collect_result f xs = Ok ys) \<longleftrightarrow> (\<forall>x \<in> set xs. \<exists>y. f x = Ok y)"
proof (induction xs)
  case (Cons x xs)
  then show ?case by (cases "f x") auto
qed simp

lemma validate_ids_iff:
  "validate_ids ids existing seen = Ok () \<longleftrightarrow> distinct ids \<and> set ids \<subseteq> {..<existing} \<and> set ids \<inter> seen = {}"
  by (induction ids arbitrary: seen) auto

lemma validate_candidate_iff:
  "validate_candidate p c = Ok () \<longleftrightarrow> operator_node_index c < length (catalog_nodes p)
     \<and> (\<forall>ids \<in> set (producers_per_input c). distinct ids \<and> set ids \<subseteq> {..<length (catalog_candidates p)})"
  using collect_checks [of "\<lambda>ids. validate_ids ids (length (catalog_candidates p)) {}" "producers_per_input c"]
  by (auto simp: validate_candidate_def validate_ids_iff)

lemma validate_constraint_iff:
  "validate_constraint p k = Ok () \<longleftrightarrow> constrained_candidate k < length (catalog_candidates p)
     \<and> set (constraint_outputs k) \<subseteq> {..<output_reference_count p}
     \<and> (must_partition k \<longrightarrow> length (constraint_outputs k) = output_reference_count p
          \<and> card (set (constraint_outputs k)) = length (constraint_outputs k))"
  by (auto simp: validate_constraint_def Let_def list_ex_iff)

lemma validate_candidates_iff:
  "validate_candidates p = Ok () \<longleftrightarrow>
     (\<forall>k \<in> set (catalog_constraints p). validate_constraint p k = Ok ())
     \<and> (\<forall>c \<in> set (catalog_candidates p). validate_candidate p c = Ok ())"
  using collect_checks [of "validate_constraint p" "catalog_constraints p"]
    collect_checks [of "validate_candidate p" "catalog_candidates p"]
  by (auto simp: validate_candidates_def)

lemma in_outputs_constraint: "set (constraint_outputs k) \<subseteq> {..<n} \<Longrightarrow> in_outputs n k"
  by (cases k) auto

lemma sound_catalogD:
  assumes "sound_catalog p"
  shows "c < length (catalog_candidates p) \<Longrightarrow> ids \<in> set (inputs_of p c) \<Longrightarrow>
      distinct ids \<and> set ids \<subseteq> {..<length (catalog_candidates p)}"
    and "c < length (catalog_candidates p) \<Longrightarrow>
      operator_node_index (catalog_candidates p ! c) < length (catalog_nodes p)"
    and "k \<in> set (catalog_constraints p) \<Longrightarrow>
      constrained_candidate k < length (catalog_candidates p) \<and> in_outputs (output_reference_count p) k"
  using assms in_outputs_constraint
  by (fastforce simp: sound_catalog_def validate_candidates_iff validate_candidate_iff validate_constraint_iff inputs_of_def)+

lemma collect_option_each:
  "(\<And>x. x \<in> set xs \<Longrightarrow> \<exists>y. f x = Some y \<and> P x y) \<Longrightarrow>
   \<exists>ys. collect_option f xs = Some ys \<and> list_all2 P xs ys"
proof (induction xs)
  case (Cons x xs)
  then obtain ys where "collect_option f xs = Some ys" "list_all2 P xs ys"
    by auto
  with Cons.prems [of x] show ?case by auto
qed simp

text \<open>What an output may reach holds its candidates and is closed under inputs, as far as they can be built.\<close>

definition reach_closed :: "physical_catalog \<Rightarrow> nat set \<Rightarrow> nat \<Rightarrow> nat set \<Rightarrow> bool" where
  "reach_closed p realizable r R \<longleftrightarrow>
     set (query_output_candidates p r) \<inter> realizable \<subseteq> R
     \<and> (\<forall>c \<in> R. \<forall>ids \<in> set (inputs_of p c). set ids \<inter> realizable \<subseteq> R)"

lemma output_candidates_in_range:
  assumes "sound_catalog p" "r < output_reference_count p" "c \<in> set (query_output_candidates p r)"
  shows "c < length (catalog_candidates p)"
  using assms offered_candidates [of "catalog_nodes p" "catalog_candidates p" "catalog_query_roots p" "catalog_constraints p" p r]
  by (auto simp: sound_catalog_def)

lemma potential_reach_ends:
  assumes sound: "sound_catalog p"
  shows "\<exists>reach. potential_reach p realizable = Some reach
    \<and> list_all2 (reach_closed p realizable) [0..<output_reference_count p] reach"
  unfolding potential_reach_def
proof (rule collect_option_each)
  fix r
  assume "r \<in> set [0..<output_reference_count p]"
  then have start: "set (query_output_candidates p r) \<subseteq> {..<length (catalog_candidates p)}"
    using output_candidates_in_range [OF sound] by auto
  have closed: "\<forall>a \<in> {..<length (catalog_candidates p)}. set (concat (inputs_of p a)) \<subseteq> {..<length (catalog_candidates p)}"
    using sound_catalogD(1) [OF sound] by fastforce
  from reach_realizable_ends [OF _ closed start, of "{}" "\<lambda>c. c \<in> realizable"]
  show "\<exists>R. reach_realizable (\<lambda>c. c \<in> realizable) (\<lambda>c. concat (inputs_of p c)) (query_output_candidates p r) {} = Some R
      \<and> reach_closed p realizable r R"
    by (auto simp: reach_closed_def)
qed

section \<open>What a plan selects is not pruned\<close>

text \<open>A selection the check accepts.\<close>

definition selects :: "physical_catalog \<Rightarrow> selected_dag \<Rightarrow> bool" where
  "selects p d \<longleftrightarrow>
     sound_structure p d
     \<and> (\<forall>k \<in> set (catalog_constraints p). \<forall>n < node_count d.
          candidate_of_node d ! n = constrained_candidate k \<longrightarrow> keeps_constraint d k n)"

lemma validate_selects: "sound_catalog p \<Longrightarrow> validate_selection p d = Ok () \<longleftrightarrow> selects p d"
  using validate_unfold [of p d] sound_catalogD(3) by (auto simp: selects_def)

lemma feeds_inputs:
  assumes "sound_structure p d" and "(a, b) \<in> feeds d"
  shows "a < node_count d" "b < node_count d"
    and "\<exists>ids \<in> set (inputs_of p (candidate_of_node d ! b)). candidate_of_node d ! a \<in> set ids"
  using assms by (auto simp: sound_structure_def feeds_def edge_fits_def intro!: bexI [OF _ nth_mem])

lemma input_edge:
  assumes d: "sound_structure p d" and c: "c < node_count d" and ids: "ids \<in> set (inputs_of p (candidate_of_node d ! c))"
  shows "\<exists>n. (n, c) \<in> feeds d \<and> candidate_of_node d ! n \<in> set ids"
proof -
  obtain i where i: "i < length (inputs_of p (candidate_of_node d ! c))" "ids = inputs_of p (candidate_of_node d ! c) ! i"
    using ids by (auto simp: in_set_conv_nth)
  then have "length (filter (\<lambda>e. consumer e = c \<and> edge_input e = i) (selected_edges d)) = 1"
    using d c by (auto simp: sound_structure_def)
  then have "filter (\<lambda>e. consumer e = c \<and> edge_input e = i) (selected_edges d) \<noteq> []"
    by fastforce
  then obtain e where "e \<in> set (selected_edges d)" "consumer e = c" "edge_input e = i"
    by (auto simp: filter_empty_conv)
  with d i show ?thesis by (auto simp: sound_structure_def edge_fits_def feeds_def)
qed

lemma selected_realizable:
  assumes sound: "sound_catalog p" and d: "sound_structure p d"
    and enabled: "\<forall>c \<in> set (candidate_of_node d). enabled c" and n: "n < node_count d"
  shows "candidate_of_node d ! n \<in> realize p enabled S"
proof -
  have "finite (feeds d)" by (simp add: feeds_def)
  then have "wf (feeds d)"
    using d by (simp add: finite_acyclic_wf sound_structure_def)
  then show ?thesis
    using n
  proof (induction n rule: wf_induct_rule)
    case (less n)
    have mem: "candidate_of_node d ! n \<in> set (candidate_of_node d)"
      using less.prems by (simp add: node_count_def)
    show ?case
    proof (rule realize_closed)
      show "candidate_of_node d ! n < length (catalog_candidates p)" "enabled (candidate_of_node d ! n)"
        using mem enabled d by (auto simp: sound_structure_def)
      show "\<forall>ids \<in> set (inputs_of p (candidate_of_node d ! n)). \<exists>i \<in> set ids. i \<in> realize p enabled S"
        using input_edge [OF d less.prems] less.IH feeds_inputs(1) [OF d] by blast
    qed
  qed
qed

lemma selected_reached:
  assumes d: "sound_structure p d" and r: "r < length (node_of_output d)" and reads: "reads_node d r n"
    and realizable: "\<forall>m < node_count d. candidate_of_node d ! m \<in> realizable"
    and closed: "reach_closed p realizable r R"
  shows "candidate_of_node d ! n \<in> R"
proof -
  have "(n, node_of_output d ! r) \<in> (feeds d)\<^sup>*"
    using reads by (simp add: reads_node_def)
  then show ?thesis
  proof (induction rule: converse_rtrancl_induct)
    case base
    have "node_of_output d ! r < node_count d
        \<and> candidate_of_node d ! (node_of_output d ! r) \<in> set (query_output_candidates p r)"
      using d r by (auto simp: sound_structure_def list_all2_conv_all_nth)
    with realizable closed show ?case by (auto simp: reach_closed_def)
  next
    case (step a b)
    then obtain ids where "ids \<in> set (inputs_of p (candidate_of_node d ! b))" "candidate_of_node d ! a \<in> set ids"
      using feeds_inputs(3) [OF d] by blast
    moreover have "candidate_of_node d ! a \<in> realizable"
      using feeds_inputs(1) [OF d step(1)] realizable by blast
    ultimately show ?case
      using closed step(3) unfolding reach_closed_def by blast
  qed
qed

lemma restrict_reach_length [simp]: "length (restrict_reach k reach) = length reach"
  by (cases k) simp_all

lemma restrict_reach_keeps:
  assumes "r < length reach" "c \<in> reach ! r" "\<And>allowed. k = AllowedOutputs c allowed \<Longrightarrow> r \<in> set allowed"
  shows "c \<in> restrict_reach k reach ! r"
proof (cases k)
  case (AllowedOutputs c' allowed)
  then have "restrict_reach k reach ! r = (if r \<in> set allowed then reach ! r else reach ! r - {c'})"
    using assms(1) by (simp add: nth_enumerate_eq)
  then show ?thesis
    using assms AllowedOutputs by auto
qed (use assms(2) in simp_all)

lemma restricted_reach_keeps:
  "length (fold restrict_reach ks reach) = length reach
   \<and> (\<forall>r c. r < length reach \<longrightarrow> c \<in> reach ! r
       \<longrightarrow> (\<forall>allowed. AllowedOutputs c allowed \<in> set ks \<longrightarrow> r \<in> set allowed) \<longrightarrow> c \<in> fold restrict_reach ks reach ! r)"
proof (induction ks arbitrary: reach)
  case (Cons k ks)
  have "c \<in> fold restrict_reach (k # ks) reach ! r"
    if "r < length reach" "c \<in> reach ! r"
      "\<forall>allowed. AllowedOutputs c allowed \<in> set (k # ks) \<longrightarrow> r \<in> set allowed" for r c
  proof -
    have "c \<in> restrict_reach k reach ! r"
      using that by (intro restrict_reach_keeps) simp_all
    then show ?thesis
      using Cons.IH [of "restrict_reach k reach"] that by simp
  qed
  moreover have "length (fold restrict_reach (k # ks) reach) = length reach"
    using Cons.IH [of "restrict_reach k reach"] by simp
  ultimately show ?case by blast
qed simp

lemma reader_reason_length [simp]: "length (reader_reason reach k round) = length round"
  by (cases k) simp_all

lemma reader_reasons_length [simp]: "length (fold (reader_reason reach) ks round) = length round"
  by (induction ks arbitrary: round) simp_all

lemma reader_reasons_None:
  assumes "round ! c = None"
    and "\<forall>qs m. MinimumQueryReaders c qs m \<in> set ks \<longrightarrow> m \<le> length (filter (list_ex (\<lambda>r. c \<in> reach ! r)) qs)"
  shows "fold (reader_reason reach) ks round ! c = None"
  using assms
proof (induction ks arbitrary: round)
  case (Cons k ks)
  have "reader_reason reach k round ! c = None"
  proof (cases k)
    case (MinimumQueryReaders c' qs m)
    have "m \<le> length (filter (list_ex (\<lambda>r. c \<in> reach ! r)) qs)" if "c' = c"
      using Cons.prems(2) MinimumQueryReaders that by simp
    with Cons.prems(1) MinimumQueryReaders show ?thesis by (cases "c' = c") auto
  qed (use Cons.prems in auto)
  with Cons show ?case by simp
qed simp

lemma prune_round_ends:
  assumes "sound_catalog p"
  shows "\<exists>round. prune_round p reasons = Some round \<and> length round = length (catalog_candidates p)"
  using potential_reach_ends [OF assms, of "realize p (\<lambda>c. reasons ! c = None) {}"]
  by (auto simp: prune_round_def Let_def)

lemma length_filter_mono: "(\<And>x. x \<in> set xs \<Longrightarrow> P x \<Longrightarrow> Q x) \<Longrightarrow> length (filter P xs) \<le> length (filter Q xs)"
  by (induction xs) (auto simp: le_SucI)

lemma selected_not_pruned:
  assumes sound: "sound_catalog p" and d: "selects p d"
    and kept: "\<forall>c \<in> set (candidate_of_node d). reasons ! c = None" and round: "prune_round p reasons = Some round"
    and c: "c \<in> set (candidate_of_node d)"
  shows "round ! c = None"
proof -
  define realizable where "realizable = realize p (\<lambda>c. reasons ! c = None) {}"
  obtain reach where reach: "potential_reach p realizable = Some reach"
    and closed: "list_all2 (reach_closed p realizable) [0..<output_reference_count p] reach"
    using potential_reach_ends [OF sound] by blast
  have s: "sound_structure p d" using d by (simp add: selects_def)
  have outs: "length (node_of_output d) = output_reference_count p" "length reach = output_reference_count p"
    using s closed by (auto simp: sound_structure_def list_all2_conv_all_nth)
  have all: "\<forall>m < node_count d. candidate_of_node d ! m \<in> realizable"
    unfolding realizable_def using selected_realizable [OF sound s] kept by blast
  have keeps: "keeps_constraint d k n" if "k \<in> set (catalog_constraints p)" "n < node_count d"
    "candidate_of_node d ! n = constrained_candidate k" for k n
    using d that by (auto simp: selects_def)
  let ?reach = "fold restrict_reach (catalog_constraints p) reach"
  have reached: "candidate_of_node d ! n \<in> ?reach ! r"
    if n: "n < node_count d" and r: "r < output_reference_count p" and reads: "reads_node d r n" for n r
  proof -
    have "candidate_of_node d ! n \<in> reach ! r"
      using selected_reached [OF s _ reads all] closed r outs by (auto simp: list_all2_conv_all_nth)
    moreover have "r \<in> set allowed" if "AllowedOutputs (candidate_of_node d ! n) allowed \<in> set (catalog_constraints p)" for allowed
      using keeps [OF that n] r reads outs by simp
    ultimately show ?thesis
      using restricted_reach_keeps [of "catalog_constraints p" reach] r outs by simp
  qed
  obtain n where n: "n < node_count d" "candidate_of_node d ! n = c"
    using c by (auto simp: in_set_conv_nth node_count_def)
  obtain r where r: "r < output_reference_count p" "reads_node d r n"
    using s n outs by (auto simp: sound_structure_def)
  have "c \<in> realizable" "c \<in> ?reach ! r" "length ?reach = output_reference_count p"
    using all n reached [OF n(1) r] restricted_reach_keeps [of "catalog_constraints p" reach] outs by auto
  then have "build_reason (\<lambda>c. reasons ! c = None) realizable ?reach c = None"
    using r(1) by (auto simp: build_reason_def list_ex_length)
  moreover have "m \<le> length (filter (list_ex (\<lambda>r. c \<in> ?reach ! r)) qs)"
    if k: "MinimumQueryReaders c qs m \<in> set (catalog_constraints p)" for qs m
  proof -
    have "m \<le> queries_of d qs n"
      using keeps [OF k n(1)] n(2) by simp
    also have "\<dots> \<le> length (filter (list_ex (\<lambda>r. c \<in> ?reach ! r)) qs)"
      unfolding queries_of_def
    proof (rule length_filter_mono)
      fix rs
      assume "rs \<in> set qs" "\<exists>r \<in> set rs. reads_node d r n"
      then obtain r where r: "r \<in> set rs" "reads_node d r n" by blast
      have "r < output_reference_count p"
        using sound_catalogD(3) [OF sound k] \<open>rs \<in> set qs\<close> r(1) by auto
      then show "list_ex (\<lambda>r. c \<in> ?reach ! r) rs"
        using reached [OF n(1) _ r(2)] n(2) r(1) by (auto simp: list_ex_iff)
    qed
    finally show ?thesis .
  qed
  moreover have "c < length (catalog_candidates p)"
    using s c by (simp add: sound_structure_def)
  moreover have "round = fold (reader_reason ?reach) (catalog_constraints p)
      (map (build_reason (\<lambda>c. reasons ! c = None) realizable ?reach) [0..<length (catalog_candidates p)])"
    using round reach by (simp add: prune_round_def Let_def realizable_def)
  ultimately show ?thesis
    by (simp add: reader_reasons_None)
qed

lemma prune_rounds_end:
  assumes sound: "sound_catalog p"
    and kept: "\<And>reasons round. \<forall>c \<in> K. reasons ! c = None \<Longrightarrow> prune_round p reasons = Some round \<Longrightarrow>
      \<forall>c \<in> K. round ! c = None"
    and K: "K \<subseteq> {..<length (catalog_candidates p)}"
  shows "length reasons = length (catalog_candidates p) \<Longrightarrow> \<forall>c \<in> K. reasons ! c = None \<Longrightarrow>
    \<exists>result. prune_rounds p reasons = Some result \<and> length result = length (catalog_candidates p)
      \<and> (\<forall>c \<in> K. result ! c = None)"
proof (induction "card {c. c < length (catalog_candidates p) \<and> reasons ! c = None}" arbitrary: reasons
    rule: less_induct)
  case less
  let ?n = "length (catalog_candidates p)"
  obtain round where round: "prune_round p reasons = Some round" "length round = ?n"
    using prune_round_ends [OF sound] by blast
  let ?next = "map2 first_reason reasons round"
  have none: "?next ! c = None \<longleftrightarrow> reasons ! c = None \<and> round ! c = None" if "c < ?n" for c
    using that less.prems(1) round(2) by (auto simp: first_reason_def)
  show ?case
  proof (cases "list_ex (\<lambda>(earlier, new). earlier = None \<and> new \<noteq> None) (zip reasons round)")
    case True
    then have "\<exists>c < ?n. reasons ! c = None \<and> round ! c \<noteq> None"
      using less.prems(1) round(2) by (simp add: list_ex_length del: not_None_eq cong: conj_cong)
    then obtain c where c: "c < ?n" "reasons ! c = None" "round ! c \<noteq> None"
      by blast
    have "{c. c < ?n \<and> ?next ! c = None} \<subseteq> {c. c < ?n \<and> reasons ! c = None}"
      by (rule Collect_mono) (simp add: none del: nth_map nth_zip cong: conj_cong)
    moreover have "c \<notin> {c. c < ?n \<and> ?next ! c = None}" "c \<in> {c. c < ?n \<and> reasons ! c = None}"
      using none [OF c(1)] c by simp_all
    ultimately have "{c. c < ?n \<and> ?next ! c = None} \<subset> {c. c < ?n \<and> reasons ! c = None}"
      by blast
    then have "card {c. c < ?n \<and> ?next ! c = None} < card {c. c < ?n \<and> reasons ! c = None}"
      by (intro psubset_card_mono) simp_all
    moreover have "length ?next = ?n"
      using less.prems(1) round(2) by simp
    moreover have "\<forall>c \<in> K. ?next ! c = None"
      using none K kept [OF less.prems(2) round(1)] less.prems(2) by auto
    ultimately have "\<exists>result. prune_rounds p ?next = Some result \<and> length result = ?n \<and> (\<forall>c \<in> K. result ! c = None)"
      by (rule less.hyps)
    with True round show ?thesis by (subst prune_rounds.simps) simp
  next
    case False
    with round less.prems show ?thesis by (subst prune_rounds.simps) simp
  qed
qed

section \<open>The candidates that are kept, renumbered\<close>

definition kept_ids :: "bool list \<Rightarrow> nat list" where
  "kept_ids keep = filter ((!) keep) [0..<length keep]"

lemma renumber_snoc: "renumber k (keep @ [b]) = renumber k keep @ [if b then Some (k + length (filter (\<lambda>x. x) keep)) else None]"
  by (induction k keep rule: renumber.induct) auto

lemma length_renumber [simp]: "length (renumber k keep) = length keep"
  by (induction k keep rule: renumber.induct) auto

lemma kept_ids_snoc: "kept_ids (keep @ [b]) = kept_ids keep @ (if b then [length keep] else [])"
proof -
  have "filter ((!) (keep @ [b])) [0..<length keep] = filter ((!) keep) [0..<length keep]"
    by (rule filter_cong) (auto simp: nth_append)
  then show ?thesis by (simp add: kept_ids_def)
qed

lemma length_kept_ids: "length (kept_ids keep) = length (filter (\<lambda>x. x) keep)"
  by (induction keep rule: rev_induct) (simp_all add: kept_ids_snoc, simp add: kept_ids_def)

lemma kept_ids_bound: "c < length (kept_ids keep) \<Longrightarrow> kept_ids keep ! c < length keep"
  using nth_mem [of c "kept_ids keep"] by (auto simp: kept_ids_def)

lemma renumber_Some:
  "i < length keep \<Longrightarrow> renumber 0 keep ! i = Some j \<longleftrightarrow> j < length (kept_ids keep) \<and> kept_ids keep ! j = i"
proof (induction keep rule: rev_induct)
  case (snoc b keep)
  show ?case
  proof (cases "i < length keep")
    case True
    then show ?thesis
      using snoc.IH kept_ids_bound [of j keep]
      by (auto simp: renumber_snoc kept_ids_snoc nth_append less_Suc_eq)
  next
    case False
    then have "i = length keep" using snoc.prems by simp
    then show ?thesis
      using kept_ids_bound [of j keep]
      by (auto simp: renumber_snoc kept_ids_snoc nth_append length_kept_ids less_Suc_eq)
  qed
qed simp

lemma renumber_None: "i < length keep \<Longrightarrow> renumber 0 keep ! i = None \<longleftrightarrow> \<not> keep ! i"
  by (induction keep rule: rev_induct) (auto simp: renumber_snoc nth_append less_Suc_eq)

lemma set_map_filter_renumber:
  assumes "set ids \<subseteq> {..<length keep}"
  shows "j \<in> set (List.map_filter ((!) (renumber 0 keep)) ids) \<longleftrightarrow> j < length (kept_ids keep) \<and> kept_ids keep ! j \<in> set ids"
proof -
  have "j \<in> set (List.map_filter ((!) (renumber 0 keep)) ids) \<longleftrightarrow> (\<exists>i \<in> set ids. renumber 0 keep ! i = Some j)"
    by (induction ids) (auto simp: map_filter_simps split: option.splits)
  then show ?thesis
    using assms renumber_Some [of _ keep j] by auto
qed

lemma distinct_map_filter_renumber:
  assumes "set ids \<subseteq> {..<length keep}" "distinct ids"
  shows "distinct (List.map_filter ((!) (renumber 0 keep)) ids)"
  using assms
proof (induction ids)
  case (Cons i ids)
  show ?case
  proof (cases "renumber 0 keep ! i")
    case (Some j)
    then have "kept_ids keep ! j = i"
      using renumber_Some [of i keep j] Cons.prems by simp
    then have "j \<notin> set (List.map_filter ((!) (renumber 0 keep)) ids)"
      using Cons.prems set_map_filter_renumber [of ids keep j] by auto
    with Some Cons show ?thesis by (simp add: map_filter_simps)
  qed (use Cons in \<open>simp add: map_filter_simps\<close>)
qed (simp add: map_filter_simps)

section \<open>The restricted catalog\<close>

text \<open>\<open>q\<close> is \<open>p\<close> without the candidates that are not kept.\<close>

definition renamed :: "nat list \<Rightarrow> selected_dag \<Rightarrow> selected_dag" where
  "renamed ids d = d\<lparr>candidate_of_node := map ((!) ids) (candidate_of_node d)\<rparr>"

lemma renamed_simps [simp]:
  "node_count (renamed ids d) = node_count d" "feeds (renamed ids d) = feeds d"
  "node_of_output (renamed ids d) = node_of_output d" "selected_edges (renamed ids d) = selected_edges d"
  "candidate_of_node (renamed ids d) = map ((!) ids) (candidate_of_node d)"
  by (simp_all add: renamed_def node_count_def feeds_def)

lemma reads_renamed [simp]: "reads_node (renamed ids d) = reads_node d"
  by (simp add: reads_node_def fun_eq_iff)

lemma keeps_renamed: "keeps_constraint (renamed ids d) (with_candidate k c) n = keeps_constraint d k n"
  by (cases k) (simp_all add: queries_of_def)

lemma with_candidate_simps [simp]:
  "constrained_candidate (with_candidate k c) = c" "constraint_outputs (with_candidate k c) = constraint_outputs k"
  "must_partition (with_candidate k c) = must_partition k"
  "with_candidate k (constrained_candidate k) = k"
  by (cases k; simp add: must_partition_def)+

definition restriction :: "bool list \<Rightarrow> physical_catalog \<Rightarrow> physical_catalog \<Rightarrow> bool" where
  "restriction keep p q \<longleftrightarrow>
     length keep = length (catalog_candidates p) \<and> restricted (renumber 0 keep) p = Some q"

lemma kept_enumerate:
  assumes "length keep = length xs"
  shows "map f (filter (\<lambda>(i, _). renumber 0 keep ! i \<noteq> None) (enumerate 0 xs)) = map (\<lambda>i. f (i, xs ! i)) (kept_ids keep)"
proof -
  have "enumerate 0 xs = map (\<lambda>i. (i, xs ! i)) [0..<length xs]"
    by (rule nth_equalityI) (simp_all add: nth_enumerate_eq)
  moreover have "filter (\<lambda>i. renumber 0 keep ! i \<noteq> None) [0..<length xs] = kept_ids keep"
    unfolding kept_ids_def assms by (rule filter_cong) (use assms in \<open>auto simp: renumber_None simp del: not_None_eq\<close>)
  ultimately show ?thesis
    by (simp add: filter_map o_def del: not_None_eq)
qed

lemma restriction_candidates:
  assumes "restriction keep p q"
  shows "catalog_candidates q =
      map (\<lambda>i. (catalog_candidates p ! i)\<lparr>producers_per_input := map (List.map_filter ((!) (renumber 0 keep))) (inputs_of p i)\<rparr>)
        (kept_ids keep)"
    and "length (catalog_candidates q) = length (kept_ids keep)"
    and "catalog_nodes q = catalog_nodes p" "catalog_query_roots q = catalog_query_roots p"
    and "catalog_constraints q = List.map_filter (\<lambda>k. map_option (with_candidate k) (renumber 0 keep ! constrained_candidate k)) (catalog_constraints p)"
    and "catalog_new (catalog_nodes q) (catalog_candidates q) (catalog_query_roots q) (catalog_constraints q) = Some q"
proof -
  have len: "length keep = length (catalog_candidates p)"
    and new: "restricted (renumber 0 keep) p = Some q"
    using assms by (simp_all add: restriction_def)
  note f = catalog_new_fields [OF new [unfolded restricted_def]]
  show "catalog_candidates q =
      map (\<lambda>i. (catalog_candidates p ! i)\<lparr>producers_per_input := map (List.map_filter ((!) (renumber 0 keep))) (inputs_of p i)\<rparr>)
        (kept_ids keep)"
    by (simp only: f(2) kept_enumerate [OF len] prod.case inputs_of_def)
  then show "length (catalog_candidates q) = length (kept_ids keep)" by simp
  show "catalog_nodes q = catalog_nodes p" "catalog_query_roots q = catalog_query_roots p"
    "catalog_constraints q = List.map_filter (\<lambda>k. map_option (with_candidate k) (renumber 0 keep ! constrained_candidate k)) (catalog_constraints p)"
    using f(1,3,4) by simp_all
  show "catalog_new (catalog_nodes q) (catalog_candidates q) (catalog_query_roots q) (catalog_constraints q) = Some q"
    using new f unfolding restricted_def by simp
qed

lemma restriction_inputs:
  assumes "restriction keep p q" "c < length (kept_ids keep)"
  shows "inputs_of q c = map (List.map_filter ((!) (renumber 0 keep))) (inputs_of p (kept_ids keep ! c))"
  using restriction_candidates(1) [OF assms(1)] assms(2) by (simp add: inputs_of_def)

lemma restriction_constraints:
  assumes "restriction keep p q" "sound_catalog p"
  shows "k' \<in> set (catalog_constraints q) \<longleftrightarrow>
    (\<exists>k \<in> set (catalog_constraints p). \<exists>c < length (kept_ids keep).
       kept_ids keep ! c = constrained_candidate k \<and> k' = with_candidate k c)"
proof -
  have "k' \<in> set (List.map_filter (\<lambda>k. map_option (with_candidate k) (renumber 0 keep ! constrained_candidate k)) ks) \<longleftrightarrow>
      (\<exists>k \<in> set ks. \<exists>c. renumber 0 keep ! constrained_candidate k = Some c \<and> k' = with_candidate k c)" for ks
    by (induction ks) (auto simp: map_filter_simps split: option.splits)
  moreover have "renumber 0 keep ! constrained_candidate k = Some c \<longleftrightarrow>
      c < length (kept_ids keep) \<and> kept_ids keep ! c = constrained_candidate k" if "k \<in> set (catalog_constraints p)" for k c
    using sound_catalogD(3) [OF assms(2) that] assms(1) renumber_Some [of "constrained_candidate k" keep c]
    by (auto simp: restriction_def)
  ultimately show ?thesis
    unfolding restriction_candidates(5) [OF assms(1)] by blast
qed

lemma restriction_outputs:
  assumes q: "restriction keep p q" and p: "sound_catalog p"
  shows "output_reference_count q = output_reference_count p"
    and "r < output_reference_count p \<Longrightarrow> c \<in> set (query_output_candidates q r) \<longleftrightarrow>
      c < length (kept_ids keep) \<and> kept_ids keep ! c \<in> set (query_output_candidates p r)"
proof -
  have new: "catalog_new (catalog_nodes p) (catalog_candidates p) (catalog_query_roots p) (catalog_constraints p) = Some p"
    using p by (simp add: sound_catalog_def)
  note new_q = restriction_candidates(6) [OF q]
  have groups: "output_groups q = output_groups p"
    using catalog_new_fields(5) [OF new] catalog_new_fields(5) [OF new_q] restriction_candidates(4) [OF q] by simp
  then show outs: "output_reference_count q = output_reference_count p"
    by (simp add: output_reference_count_def)
  assume r: "r < output_reference_count p"
  have "c < length (kept_ids keep) \<Longrightarrow> kept_ids keep ! c < length (catalog_candidates p)"
    using kept_ids_bound [of c keep] q by (simp add: restriction_def)
  then show "c \<in> set (query_output_candidates q r) \<longleftrightarrow>
      c < length (kept_ids keep) \<and> kept_ids keep ! c \<in> set (query_output_candidates p r)"
    using offered_candidates [OF new r] offered_candidates [OF new_q, of r] r outs groups restriction_candidates(1-3) [OF q]
    by (auto simp: is_root_of_def)
qed

text \<open>A selection of the kept candidates is one of the catalog, and the other way round.\<close>

lemma node_in_range:
  "\<forall>c \<in> set (candidate_of_node d). c < m \<Longrightarrow> n < node_count d \<Longrightarrow> candidate_of_node d ! n < m"
  by (simp add: node_count_def)

lemma edge_fits_renamed:
  assumes q: "restriction keep p q" and p: "sound_catalog p"
    and d: "\<forall>c \<in> set (candidate_of_node d). c < length (kept_ids keep)"
  shows "edge_fits q d e \<longleftrightarrow> edge_fits p (renamed (kept_ids keep) d) e"
proof (cases "producer e < node_count d \<and> consumer e < node_count d")
  case True
  let ?a = "candidate_of_node d ! producer e" and ?b = "candidate_of_node d ! consumer e"
  have lt: "?a < length (kept_ids keep)" "?b < length (kept_ids keep)"
    using node_in_range [OF d] True by auto
  have len: "length keep = length (catalog_candidates p)" "kept_ids keep ! ?b < length (catalog_candidates p)"
    using q kept_ids_bound [OF lt(2)] by (auto simp: restriction_def)
  have "?a \<in> set (inputs_of q ?b ! i) \<longleftrightarrow> kept_ids keep ! ?a \<in> set (inputs_of p (kept_ids keep ! ?b) ! i)"
    if "i < length (inputs_of p (kept_ids keep ! ?b))" for i
  proof -
    have "set (inputs_of p (kept_ids keep ! ?b) ! i) \<subseteq> {..<length keep}"
      using sound_catalogD(1) [OF p len(2) nth_mem [OF that]] len(1) by simp
    then show ?thesis
      using restriction_inputs [OF q lt(2)] that lt(1) by (simp add: set_map_filter_renumber)
  qed
  then show ?thesis
    using True restriction_inputs [OF q lt(2)] by (auto simp: edge_fits_def node_count_def)
qed (auto simp: edge_fits_def)

lemma structure_renamed:
  assumes q: "restriction keep p q" and p: "sound_catalog p"
    and d: "\<forall>c \<in> set (candidate_of_node d). c < length (kept_ids keep)"
  shows "sound_structure q d \<longleftrightarrow> sound_structure p (renamed (kept_ids keep) d)"
proof -
  let ?d = "renamed (kept_ids keep) d"
  have range: "\<forall>c \<in> set (candidate_of_node ?d). c < length (catalog_candidates p)"
    using d kept_ids_bound [of _ keep] q by (auto simp: restriction_def)
  have each: "candidate_of_node ?d ! n = kept_ids keep ! (candidate_of_node d ! n)" if "n < node_count d" for n
    using that by (simp add: node_count_def)
  have outs: "list_all2 (\<lambda>node r. node < node_count d \<and> candidate_of_node d ! node \<in> set (query_output_candidates q r))
         (node_of_output d) [0..<output_reference_count q]
     \<longleftrightarrow> list_all2 (\<lambda>node r. node < node_count d \<and> candidate_of_node ?d ! node \<in> set (query_output_candidates p r))
         (node_of_output d) [0..<output_reference_count p]"
    unfolding restriction_outputs(1) [OF q p]
    by (rule list.rel_cong [OF refl refl])
      (use restriction_outputs(2) [OF q p] node_in_range [OF d] each in auto)
  have inputs: "length (inputs_of q (candidate_of_node d ! n)) = length (inputs_of p (candidate_of_node ?d ! n))"
    if "n < node_count d" for n
    using restriction_inputs [OF q node_in_range [OF d that]] each [OF that] by simp
  have in_q: "\<forall>c \<in> set (candidate_of_node d). c < length (catalog_candidates q)"
    using d restriction_candidates(2) [OF q] by simp
  show ?thesis
    unfolding sound_structure_def outs renamed_simps(1-4) reads_renamed
    using range in_q edge_fits_renamed [OF q p d] inputs by auto
qed

lemma selects_renamed:
  assumes q: "restriction keep p q" and p: "sound_catalog p"
    and d: "\<forall>c \<in> set (candidate_of_node d). c < length (kept_ids keep)"
  shows "selects q d \<longleftrightarrow> selects p (renamed (kept_ids keep) d)"
proof -
  have inj: "kept_ids keep ! a = kept_ids keep ! b \<longleftrightarrow> a = b"
    if "a < length (kept_ids keep)" "b < length (kept_ids keep)" for a b
    using that by (simp add: nth_eq_iff_index_eq kept_ids_def)
  have "(\<forall>k' \<in> set (catalog_constraints q). \<forall>n < node_count d.
          candidate_of_node d ! n = constrained_candidate k' \<longrightarrow> keeps_constraint d k' n)
      \<longleftrightarrow> (\<forall>k \<in> set (catalog_constraints p). \<forall>n < node_count d.
          kept_ids keep ! (candidate_of_node d ! n) = constrained_candidate k \<longrightarrow> keeps_constraint d k n)"
    (is "?L \<longleftrightarrow> ?R")
  proof
    assume L: ?L
    show ?R
    proof (intro ballI allI impI)
      fix k n
      assume k: "k \<in> set (catalog_constraints p)" and n: "n < node_count d"
        and c: "kept_ids keep ! (candidate_of_node d ! n) = constrained_candidate k"
      then have "with_candidate k (candidate_of_node d ! n) \<in> set (catalog_constraints q)"
        using restriction_constraints [OF q p] node_in_range [OF d n] by blast
      with L n have "keeps_constraint d (with_candidate k (candidate_of_node d ! n)) n" by fastforce
      then show "keeps_constraint d k n"
        using keeps_renamed [of "[]" d k _ n] by (metis keeps_renamed with_candidate_simps(4))
    qed
  next
    assume R: ?R
    show ?L
    proof (intro ballI allI impI)
      fix k' n
      assume k': "k' \<in> set (catalog_constraints q)" and n: "n < node_count d"
        and c: "candidate_of_node d ! n = constrained_candidate k'"
      then obtain k j where k: "k \<in> set (catalog_constraints p)" "kept_ids keep ! j = constrained_candidate k"
        "k' = with_candidate k j"
        using restriction_constraints [OF q p] by blast
      with R n c have "keeps_constraint d k n" by simp
      then show "keeps_constraint d k' n"
        unfolding k(3) by (metis keeps_renamed with_candidate_simps(4))
    qed
  qed
  moreover have "keeps_constraint (renamed (kept_ids keep) d) k n = keeps_constraint d k n" for k n
    using keeps_renamed [of "kept_ids keep" d k "constrained_candidate k" n] by simp
  ultimately show ?thesis
    unfolding selects_def structure_renamed [OF q p d] by (simp add: node_count_def)
qed

section \<open>Pruning\<close>

lemma collect_option_length: "collect_option f xs = Some ys \<Longrightarrow> length ys = length xs"
  by (simp add: collect_option_Some)

lemma node_group_exists:
  assumes "sound_catalog p" "c \<in> set (catalog_candidates p)"
  shows "\<exists>n. get (catalog_nodes p) (operator_node_index c) = Some n \<and> implemented_candidates n \<noteq> []"
  using assms by (auto simp: sound_catalog_def validate_candidates_iff validate_candidate_iff get_def)

lemma restriction_exists:
  assumes p: "sound_catalog p" and len: "length keep = length (catalog_candidates p)"
  shows "\<exists>q. restriction keep p q"
proof -
  let ?cs = "map (\<lambda>(_, c). c\<lparr>producers_per_input := map (List.map_filter ((!) (renumber 0 keep))) (producers_per_input c)\<rparr>)
      (filter (\<lambda>(i, _). renumber 0 keep ! i \<noteq> None) (enumerate 0 (catalog_candidates p)))"
  have "\<exists>n. get (catalog_nodes p) (operator_node_index c) = Some n \<and> implemented_candidates n \<noteq> []"
    if c: "c \<in> snd ` set (enumerate 0 ?cs)" for c
  proof -
    have "c \<in> set (map snd (enumerate 0 ?cs))"
      using c by (simp only: set_map)
    then have "c \<in> set ?cs"
      by (simp only: map_snd_enumerate)
    then obtain i where "i < length (catalog_candidates p)"
      "operator_node_index c = operator_node_index (catalog_candidates p ! i)"
      by (auto simp: in_set_enumerate_eq)
    then show ?thesis
      using node_group_exists [OF p nth_mem] by simp
  qed
  then have "\<exists>index. index_roots (catalog_nodes p) (enumerate 0 ?cs) [] = Some index"
    by (rule index_roots_total)
  then show ?thesis
    by (auto simp: restriction_def restricted_def catalog_new_def len simp del: not_None_eq)
qed

lemma restriction_sound:
  assumes q: "restriction keep p q" and p: "sound_catalog p"
  shows "sound_catalog q"
proof -
  note c = restriction_candidates [OF q]
  have "validate_constraint q k' = Ok ()" if k': "k' \<in> set (catalog_constraints q)" for k'
  proof -
    obtain k i where k: "k \<in> set (catalog_constraints p)" "i < length (kept_ids keep)" "k' = with_candidate k i"
      using restriction_constraints [OF q p] k' by blast
    then have "validate_constraint p k = Ok ()"
      using p by (simp add: sound_catalog_def validate_candidates_iff)
    with k(2,3) show ?thesis
      using c(2) restriction_outputs(1) [OF q p] by (auto simp: validate_constraint_iff)
  qed
  moreover have "validate_candidate q x = Ok ()" if x: "x \<in> set (catalog_candidates q)" for x
  proof -
    obtain i where i: "i < length (kept_ids keep)" "x = catalog_candidates q ! i"
      using x c(2) by (metis in_set_conv_nth)
    have lt: "kept_ids keep ! i < length (catalog_candidates p)" "length keep = length (catalog_candidates p)"
      using kept_ids_bound [OF i(1)] q by (auto simp: restriction_def)
    have "operator_node_index x < length (catalog_nodes q)"
      using i c(1,3) sound_catalogD(2) [OF p lt(1)] by simp
    moreover have "distinct ids \<and> set ids \<subseteq> {..<length (catalog_candidates q)}" if ids: "ids \<in> set (inputs_of q i)" for ids
    proof -
      obtain old where old: "old \<in> set (inputs_of p (kept_ids keep ! i))" "ids = List.map_filter ((!) (renumber 0 keep)) old"
        using ids restriction_inputs [OF q i(1)] by auto
      have "distinct old" "set old \<subseteq> {..<length keep}"
        using sound_catalogD(1) [OF p lt(1) old(1)] lt(2) by simp_all
      then show ?thesis
        using old(2) c(2) distinct_map_filter_renumber set_map_filter_renumber by fastforce
    qed
    ultimately show ?thesis
      using i(2) by (simp add: validate_candidate_iff inputs_of_def)
  qed
  ultimately show ?thesis
    using p c(3,6) by (auto simp: sound_catalog_def validate_candidates_iff)
qed

text \<open>The entry of a candidate that is ruled out, and the entries of all of them.\<close>

definition entry_of :: "physical_catalog \<Rightarrow> physical_candidate \<Rightarrow> prune_reason \<Rightarrow> pruned_candidate \<Rightarrow> bool" where
  "entry_of p c reason entry \<longleftrightarrow>
     pruned_node entry = operator_node_index c \<and> pruned_timing entry = candidate_timing c
     \<and> pruned_materialization entry = candidate_materialization c \<and> pruned_reason entry = reason
     \<and> operator_node_index c < length (catalog_nodes p)
     \<and> node_group (catalog_nodes p ! operator_node_index c) = Some (pruned_group entry)"

lemma map_filter_reasons:
  "length xs = length reasons \<Longrightarrow>
   List.map_filter (\<lambda>(c, reason). map_option (Pair c) reason) (zip xs reasons) =
     map (\<lambda>i. (xs ! i, the (reasons ! i))) (filter (\<lambda>i. reasons ! i \<noteq> None) [0..<length xs])"
proof (induction xs arbitrary: reasons rule: rev_induct)
  case (snoc x xs)
  then obtain rs r where reasons: "reasons = rs @ [r]" "length xs = length rs"
    by (cases reasons rule: rev_cases) auto
  have "filter (\<lambda>i. reasons ! i \<noteq> None) [0..<length xs] = filter (\<lambda>i. rs ! i \<noteq> None) [0..<length xs]"
    using reasons by (intro filter_cong) (auto simp: nth_append)
  then show ?case
    using snoc.IH [OF reasons(2)] reasons by (cases r) (auto simp: map_filter_def nth_append)
qed (simp add: map_filter_simps)

text \<open>The candidates of the restricted catalog are the kept ones, over the kept producers.\<close>

lemma kept_producers:
  "set cs \<subseteq> {..<length keep} \<Longrightarrow>
   map ((!) (kept_ids keep)) (List.map_filter ((!) (renumber 0 keep)) cs) = filter (\<lambda>c. c \<in> set (kept_ids keep)) cs"
proof (induction cs)
  case (Cons c cs)
  show ?case
  proof (cases "renumber 0 keep ! c")
    case None
    then have "c \<notin> set (kept_ids keep)"
      using Cons.prems renumber_Some [of c keep] by (auto simp: in_set_conv_nth)
    with None Cons show ?thesis by (simp add: map_filter_simps)
  next
    case (Some j)
    then have "j < length (kept_ids keep)" "kept_ids keep ! j = c"
      using Cons.prems renumber_Some [of c keep j] by auto
    moreover from this have "c \<in> set (kept_ids keep)" using nth_mem by blast
    ultimately show ?thesis using Some Cons by (simp add: map_filter_simps)
  qed
qed (simp add: map_filter_simps)

lemma kept_candidates:
  assumes q: "restriction keep p q" and p: "sound_catalog p"
  shows "list_all2 (\<lambda>i c. c = (catalog_candidates p ! i)\<lparr>producers_per_input := producers_per_input c\<rparr>
      \<and> map (map ((!) (kept_ids keep))) (producers_per_input c)
          = map (filter (\<lambda>c. c \<in> set (kept_ids keep))) (producers_per_input (catalog_candidates p ! i)))
    (kept_ids keep) (catalog_candidates q)"
proof -
  have len: "length keep = length (catalog_candidates p)" using q by (simp add: restriction_def)
  have "map (map ((!) (kept_ids keep))) (map (List.map_filter ((!) (renumber 0 keep))) (inputs_of p i))
      = map (filter (\<lambda>c. c \<in> set (kept_ids keep))) (inputs_of p i)" if "i \<in> set (kept_ids keep)" for i
  proof -
    have "i < length (catalog_candidates p)" using that len by (simp add: kept_ids_def)
    from sound_catalogD(1) [OF p this] show ?thesis
      using kept_producers [of _ keep] len by (simp add: comp_def)
  qed
  then show ?thesis
    unfolding restriction_candidates(1) [OF q] list.rel_map
    by (auto simp: list_all2_same inputs_of_def)
qed

lemma collect_option_map: "collect_option f (map g xs) = collect_option (f \<circ> g) xs"
  by (induction xs) (auto split: option.splits)

lemma removed_exist:
  assumes p: "sound_catalog p" and len: "length reasons = length (catalog_candidates p)"
  shows "\<exists>removed. collect_option (removed_candidate p)
      (List.map_filter (\<lambda>(c, reason). map_option (Pair c) reason) (zip (catalog_candidates p) reasons)) = Some removed
    \<and> list_all2 (\<lambda>i. entry_of p (catalog_candidates p ! i) (the (reasons ! i)))
        (filter (\<lambda>i. reasons ! i \<noteq> None) [0..<length (catalog_candidates p)]) removed"
proof -
  let ?pick = "\<lambda>i. (catalog_candidates p ! i, the (reasons ! i))"
  have "\<exists>y. removed_candidate p (?pick i) = Some y \<and> entry_of p (catalog_candidates p ! i) (the (reasons ! i)) y"
    if i: "i < length (catalog_candidates p)" for i
  proof -
    obtain n k ks where n: "get (catalog_nodes p) (operator_node_index (catalog_candidates p ! i)) = Some n"
      "implemented_candidates n = k # ks"
      using node_group_exists [OF p nth_mem [OF i]] by (metis neq_Nil_conv)
    then have "operator_node_index (catalog_candidates p ! i) < length (catalog_nodes p)"
      "catalog_nodes p ! operator_node_index (catalog_candidates p ! i) = n" by (simp_all add: get_Some)
    with n show ?thesis
      by (simp add: removed_candidate_def entry_of_def node_group_def)
  qed
  then have "\<exists>removed. collect_option (removed_candidate p \<circ> ?pick) is = Some removed
      \<and> list_all2 (\<lambda>i. entry_of p (catalog_candidates p ! i) (the (reasons ! i))) is removed"
    if "set is \<subseteq> {..<length (catalog_candidates p)}" for "is"
    using that by (intro collect_option_each) auto
  from this [of "filter (\<lambda>i. reasons ! i \<noteq> None) [0..<length (catalog_candidates p)]"] show ?thesis
    unfolding map_filter_reasons [OF len [symmetric]] collect_option_map by auto
qed

lemma prune_reasons_keep:
  assumes p: "sound_catalog p"
  shows "\<exists>reasons. prune_reasons p = Some reasons \<and> length reasons = length (catalog_candidates p)
    \<and> (\<forall>d. selects p d \<longrightarrow> (\<forall>c \<in> set (candidate_of_node d). reasons ! c = None))"
proof -
  define K where "K = {c. \<exists>d. selects p d \<and> c \<in> set (candidate_of_node d)}"
  have K: "K \<subseteq> {..<length (catalog_candidates p)}"
    by (auto simp: K_def selects_def sound_structure_def)
  have step: "\<forall>c \<in> K. round ! c = None" if none: "\<forall>c \<in> K. reasons ! c = None" and round: "prune_round p reasons = Some round"
    for reasons round
  proof
    fix c
    assume "c \<in> K"
    then obtain d where d: "selects p d" "c \<in> set (candidate_of_node d)"
      by (auto simp: K_def)
    then have "\<forall>c \<in> set (candidate_of_node d). reasons ! c = None"
      using none by (auto simp: K_def)
    from selected_not_pruned [OF p d(1) this round d(2)] show "round ! c = None" .
  qed
  have "\<forall>c \<in> K. replicate (length (catalog_candidates p)) None ! c = (None :: prune_reason option)"
    using K by auto
  then have "\<exists>result. prune_rounds p (replicate (length (catalog_candidates p)) None) = Some result
      \<and> length result = length (catalog_candidates p) \<and> (\<forall>c \<in> K. result ! c = None)"
    by (intro prune_rounds_end [OF p step K] length_replicate)
  then obtain reasons where "prune_reasons p = Some reasons"
    "length reasons = length (catalog_candidates p)" "\<forall>c \<in> K. reasons ! c = None"
    by (auto simp: prune_reasons_def)
  then show ?thesis by (auto simp: K_def)
qed

lemma selection_renamed:
  assumes q: "restriction keep p q" and p: "sound_catalog p"
    and kept: "\<And>d c. selects p d \<Longrightarrow> c \<in> set (candidate_of_node d) \<Longrightarrow> keep ! c"
  shows "validate_selection p d = Ok () \<longleftrightarrow>
      (\<exists>d'. validate_selection q d' = Ok () \<and> d = renamed (kept_ids keep) d')"
proof
  assume "\<exists>d'. validate_selection q d' = Ok () \<and> d = renamed (kept_ids keep) d'"
  then obtain d' where d': "selects q d'" "d = renamed (kept_ids keep) d'"
    using validate_selects [OF restriction_sound [OF q p]] by blast
  then have "\<forall>c \<in> set (candidate_of_node d'). c < length (kept_ids keep)"
    using restriction_candidates(2) [OF q] by (simp add: selects_def sound_structure_def)
  with d' show "validate_selection p d = Ok ()"
    using selects_renamed [OF q p] validate_selects [OF p] by blast
next
  assume "validate_selection p d = Ok ()"
  then have d: "selects p d"
    using validate_selects [OF p] by blast
  have "c \<in> set (kept_ids keep)" if "c \<in> set (candidate_of_node d)" for c
    using kept [OF d that] d that q by (auto simp: kept_ids_def restriction_def selects_def sound_structure_def)
  then have "\<forall>c \<in> set (candidate_of_node d). \<exists>j < length (kept_ids keep). kept_ids keep ! j = c"
    by (metis in_set_conv_nth)
  then obtain new where new: "\<forall>c \<in> set (candidate_of_node d). new c < length (kept_ids keep) \<and> kept_ids keep ! new c = c"
    by metis
  let ?d = "d\<lparr>candidate_of_node := map new (candidate_of_node d)\<rparr>"
  have old: "d = renamed (kept_ids keep) ?d"
    using new by (cases d) (simp add: renamed_def map_idI)
  moreover have "selects q ?d"
    using selects_renamed [OF q p, of ?d] new d old by simp
  ultimately show "\<exists>d'. validate_selection q d' = Ok () \<and> d = renamed (kept_ids keep) d'"
    using validate_selects [OF restriction_sound [OF q p]] by blast
qed

text \<open>
  C14: Pruning ends, and takes no choice away: the plans of the catalog are exactly the plans of the pruned one, under
  the old ids of the candidates that are kept. The pruned catalog is sound. The candidates kept are exactly those
  without a reason, in their order, each with its operator node, timing, materialization and output flag and, for every
  input, those of its producers that are kept; the candidates removed are exactly the others, each listed once, in their
  order, with its group, operator node, timing, materialization and the reason that ruled it out.
\<close>

theorem pruning_loses_no_selection:
  assumes "sound_catalog p"
  shows "\<exists>q removed ids reasons. prune p pruned = Ok (q, pruned @ removed) \<and> sound_catalog q
    \<and> prune_reasons p = Some reasons \<and> length reasons = length (catalog_candidates p)
    \<and> ids = filter (\<lambda>i. reasons ! i = None) [0..<length (catalog_candidates p)]
    \<and> list_all2 (\<lambda>i c. c = (catalog_candidates p ! i)\<lparr>producers_per_input := producers_per_input c\<rparr>
          \<and> map (map ((!) ids)) (producers_per_input c)
              = map (filter (\<lambda>c. c \<in> set ids)) (producers_per_input (catalog_candidates p ! i)))
        ids (catalog_candidates q)
    \<and> list_all2 (\<lambda>i. entry_of p (catalog_candidates p ! i) (the (reasons ! i)))
        (filter (\<lambda>i. i \<notin> set ids) [0..<length (catalog_candidates p)]) removed
    \<and> (\<forall>d. validate_selection p d = Ok () \<longleftrightarrow> (\<exists>d'. validate_selection q d' = Ok () \<and> d = renamed ids d'))"
proof -
  let ?all = "[0..<length (catalog_candidates p)]"
  obtain reasons where reasons: "prune_reasons p = Some reasons" "length reasons = length (catalog_candidates p)"
    and kept: "\<And>d c. selects p d \<Longrightarrow> c \<in> set (candidate_of_node d) \<Longrightarrow> reasons ! c = None"
    using prune_reasons_keep [OF assms] by blast
  define keep where "keep = map (\<lambda>r. r = None) reasons"
  obtain q where q: "restriction keep p q"
    using restriction_exists [OF assms, of keep] reasons(2) by (auto simp: keep_def)
  obtain removed where removed: "collect_option (removed_candidate p)
      (List.map_filter (\<lambda>(c, reason). map_option (Pair c) reason) (zip (catalog_candidates p) reasons)) = Some removed"
    and entries: "list_all2 (\<lambda>i. entry_of p (catalog_candidates p ! i) (the (reasons ! i)))
      (filter (\<lambda>i. reasons ! i \<noteq> None) ?all) removed"
    using removed_exist [OF assms reasons(2)] by blast
  have ids: "kept_ids keep = filter (\<lambda>i. reasons ! i = None) ?all"
    unfolding kept_ids_def using reasons(2) by (intro filter_cong) (auto simp: keep_def)
  have others: "filter (\<lambda>i. i \<notin> set (kept_ids keep)) ?all = filter (\<lambda>i. reasons ! i \<noteq> None) ?all"
    by (rule filter_cong) (auto simp: ids)
  have "prune p pruned = Ok (q, pruned @ removed)"
    using reasons(1) removed q restriction_sound [OF q assms]
    by (simp add: prune_def restriction_def sound_catalog_def keep_def)
  moreover have "validate_selection p d = Ok () \<longleftrightarrow>
      (\<exists>d'. validate_selection q d' = Ok () \<and> d = renamed (kept_ids keep) d')" for d
  proof (rule selection_renamed [OF q assms])
    fix d c
    assume d: "selects p d" "c \<in> set (candidate_of_node d)"
    then have "c < length reasons"
      using reasons(2) by (simp add: selects_def sound_structure_def)
    with kept [OF d] show "keep ! c" by (simp add: keep_def)
  qed
  ultimately show ?thesis
    using reasons ids restriction_sound [OF q assms] kept_candidates [OF q assms] entries [folded others]
    by (intro exI [of _ q] exI [of _ removed] exI [of _ "kept_ids keep"] exI [of _ reasons] conjI allI)
qed

text \<open>The sample catalog with a fourth candidate, of the third group, that reads only itself.\<close>

definition pruning_sample :: physical_catalog where
  "pruning_sample = \<lparr>catalog_nodes = sample_catalog_nodes,
     catalog_candidates = sample_catalog_candidates
       @ [\<lparr>operator_node_index = 2, candidate_timing = QueryTime, candidate_materialization = NotMaterialized,
            producers_per_input = [[3]], may_produce_query_output = True, may_keep_per_sole_reader = []\<rparr>],
     catalog_query_roots = [OperatorRoot 2], catalog_constraints = [MinimumQueryReaders 0 [[0]] 1, AllowedOutputs 1 [0]],
     roots_of_group = [[0], [1], [2, 3]], output_groups = [2]\<rparr>"

lemma pruning_sample_sound: "sound_catalog pruning_sample"
proof -
  have "validate_candidates pruning_sample = Ok ()"
    by code_simp
  moreover have "\<forall>n \<in> set (catalog_nodes pruning_sample). implemented_candidates n \<noteq> []"
    by (simp add: pruning_sample_def sample_catalog_nodes_def)
  moreover have "catalog_new (catalog_nodes pruning_sample) (catalog_candidates pruning_sample)
      (catalog_query_roots pruning_sample) (catalog_constraints pruning_sample) = Some pruning_sample"
    by code_simp
  ultimately show ?thesis by (simp add: sound_catalog_def)
qed

lemma pruning_sample_reasons:
  "prune_reasons pruning_sample = Some [None, None, None, Some InputHasNoBuildableProducer]"
  by code_simp

theorem pruning_loses_no_selection_witness:
  "\<exists>q entry. prune pruning_sample [] = Ok (q, [entry]) \<and> pruned_reason entry = InputHasNoBuildableProducer
    \<and> (\<forall>d. validate_selection pruning_sample d = Ok () \<longleftrightarrow> (\<exists>d'. validate_selection q d' = Ok () \<and> d = renamed [0, 1, 2] d'))"
proof -
  have len: "[0..<length (catalog_candidates pruning_sample)] = [0, 1, 2, 3]"
    by (simp add: pruning_sample_def sample_catalog_candidates_def upt_rec)
  from pruning_loses_no_selection [OF pruning_sample_sound, of "[]", unfolded len pruning_sample_reasons]
  obtain q removed ids where "prune pruning_sample [] = Ok (q, [] @ removed)" and ids: "ids = [0, 1, 2]"
    and entries: "list_all2 (\<lambda>i. entry_of pruning_sample (catalog_candidates pruning_sample ! i)
        (the ([None, None, None, Some InputHasNoBuildableProducer] ! i))) (filter (\<lambda>i. i \<notin> set ids) [0, 1, 2, 3]) removed"
    and "\<forall>d. validate_selection pruning_sample d = Ok () \<longleftrightarrow> (\<exists>d'. validate_selection q d' = Ok () \<and> d = renamed ids d')"
    by (auto simp: numeral_3_eq_3 numeral_2_eq_2)
  moreover obtain entry where "removed = [entry]" "pruned_reason entry = InputHasNoBuildableProducer"
    using entries by (auto simp: ids list_all2_Cons1 entry_of_def numeral_3_eq_3 numeral_2_eq_2)
  ultimately show ?thesis by auto
qed

end
