(* ===== verification/Enumeration.thy ===== *)
theory Enumeration
  imports Memo Search
begin

text \<open>
  The choices a memo stands for (\<^verbatim>\<open>logical-asap-optimization/src/pass2/memo/enumeration.rs\<close>): one candidate for each
  group that is needed, depth first, cut at a limit. A choice is a map from groups to candidate indices.
\<close>

section \<open>Whether a choice already reads a group\<close>

definition chosen_inputs :: "memo \<Rightarrow> (nat \<rightharpoonup> nat) \<Rightarrow> nat \<Rightarrow> nat list option" where
  "chosen_inputs m chosen g =
     (case chosen g of
        None \<Rightarrow> Some []
      | Some i \<Rightarrow> Option.bind (get (memo_candidates m) g) (\<lambda>cs. map_option input_groups (get cs i)))"

partial_function (option) reaches :: "memo \<Rightarrow> (nat \<rightharpoonup> nat) \<Rightarrow> nat \<Rightarrow> nat list \<Rightarrow> nat set \<Rightarrow> bool option" where
  [code]: "reaches m chosen to pending seen =
     (if pending = [] then Some False
      else if last pending = to then Some True
      else if last pending \<in> seen then reaches m chosen to (butlast pending) seen
      else
        (case chosen_inputs m chosen (last pending) of
           None \<Rightarrow> None
         | Some inputs \<Rightarrow> reaches m chosen to (butlast pending @ inputs) (insert (last pending) seen)))"

section \<open>The walk\<close>

text \<open>
  \<open>walk\<close> chooses for the pending groups, \<open>choose_candidate\<close> tries the candidates of one group from index \<open>i\<close> on. The result
  says whether the walk finished and lists the choices found.
\<close>

function walk ::
  "memo \<Rightarrow> nat \<Rightarrow> nat list \<Rightarrow> (nat \<rightharpoonup> nat) \<Rightarrow> (nat \<rightharpoonup> nat) list \<Rightarrow> (bool \<times> (nat \<rightharpoonup> nat) list) option"
and choose_candidate ::
  "memo \<Rightarrow> nat \<Rightarrow> nat list \<Rightarrow> (nat \<rightharpoonup> nat) \<Rightarrow> nat \<Rightarrow> nat \<Rightarrow> group_candidate list \<Rightarrow> (nat \<rightharpoonup> nat) list
   \<Rightarrow> (bool \<times> (nat \<rightharpoonup> nat) list) option" where
  "walk m limit pending chosen found =
     (if pending = [] then Some (if length found = limit then (False, found) else (True, found @ [chosen]))
      else if chosen (last pending) \<noteq> None then walk m limit (butlast pending) chosen found
      else
        (case get (memo_candidates m) (last pending) of
           None \<Rightarrow> None
         | Some cs \<Rightarrow> choose_candidate m limit (butlast pending) chosen (last pending) 0 cs found))"
| "choose_candidate m limit pending chosen g i [] found = Some (True, found)"
| "choose_candidate m limit pending chosen g i (c # cs) found =
     (case any_opt (\<lambda>child. reaches m chosen g [child] {}) (input_groups c) of
        None \<Rightarrow> None
      | Some True \<Rightarrow> choose_candidate m limit pending chosen g (Suc i) cs found
      | Some False \<Rightarrow>
          (case walk m limit (pending @ rev (input_groups c)) (chosen(g \<mapsto> i)) found of
             None \<Rightarrow> None
           | Some (finished, found) \<Rightarrow>
               if finished then choose_candidate m limit pending chosen g (Suc i) cs found else Some (False, found)))"
  by pat_completeness auto
termination
proof (relation "measures
    [case_sum (\<lambda>(m, limit, pending, chosen, found). card ({..<length (memo_candidates m)} - dom chosen))
       (\<lambda>(m, limit, pending, chosen, g, i, cs, found). card ({..<length (memo_candidates m)} - insert g (dom chosen))),
     case_sum (\<lambda>_. 0) (\<lambda>_. 1),
     case_sum (\<lambda>(m, limit, pending, chosen, found). length pending)
       (\<lambda>(m, limit, pending, chosen, g, i, cs, found). length cs)]", goal_cases)
  case (3 m limit pending chosen found cs)
  then have "last pending \<in> {..<length (memo_candidates m)} - dom chosen"
    by (auto simp: get_def split: if_splits)
  then have "{..<length (memo_candidates m)} - insert (last pending) (dom chosen)
      \<subset> {..<length (memo_candidates m)} - dom chosen"
    by auto
  then have "card ({..<length (memo_candidates m)} - insert (last pending) (dom chosen))
      < card ({..<length (memo_candidates m)} - dom chosen)"
    by (intro psubset_card_mono) simp_all
  then show ?case by simp
qed auto

declare walk.simps [simp del] 

text \<open>\<^verbatim>\<open>enumerate\<close>: whether the enumeration is complete, and the choices.\<close>

definition enumerate_choices :: "memo \<Rightarrow> nat \<Rightarrow> (bool \<times> (nat \<rightharpoonup> nat) list) option" where
  "enumerate_choices m limit = walk m limit (rev (root_groups (memo_query_roots m))) Map.empty []"

section \<open>The choices a memo stands for\<close>

definition chosen_reads :: "memo \<Rightarrow> (nat \<rightharpoonup> nat) \<Rightarrow> (nat \<times> nat) set" where
  "chosen_reads m chosen =
     {(g, h). \<exists>i. chosen g = Some i \<and> h \<in> set (input_groups (memo_candidates m ! g ! i))}"

definition in_range :: "memo \<Rightarrow> (nat \<rightharpoonup> nat) \<Rightarrow> bool" where
  "in_range m chosen \<longleftrightarrow>
     (\<forall>g i. chosen g = Some i \<longrightarrow> g < length (memo_candidates m) \<and> i < length (memo_candidates m ! g))"

text \<open>
  A choice names a candidate for exactly the groups needed: those of the query roots and those a chosen candidate reads.
  Its candidates do not read each other in a cycle.
\<close>

definition is_choice :: "memo \<Rightarrow> (nat \<rightharpoonup> nat) \<Rightarrow> bool" where
  "is_choice m chosen \<longleftrightarrow>
     in_range m chosen
     \<and> dom chosen = (chosen_reads m chosen)\<^sup>* `` set (root_groups (memo_query_roots m))
     \<and> acyclic (chosen_reads m chosen)"

text \<open>The choices that extend what is chosen by what the pending groups need.\<close>

definition completions :: "memo \<Rightarrow> nat list \<Rightarrow> (nat \<rightharpoonup> nat) \<Rightarrow> (nat \<rightharpoonup> nat) set" where
  "completions m pending chosen =
     {c. chosen \<subseteq>\<^sub>m c \<and> in_range m c \<and> acyclic (chosen_reads m c)
         \<and> set pending \<subseteq> dom c \<and> chosen_reads m c `` dom c \<subseteq> dom c
         \<and> dom c \<subseteq> dom chosen \<union> (chosen_reads m c)\<^sup>* `` set pending}"

definition inputs_closed :: "memo \<Rightarrow> bool" where
  "inputs_closed m \<longleftrightarrow>
     (\<forall>cs \<in> set (memo_candidates m). \<forall>c \<in> set cs. set (input_groups c) \<subseteq> {..<length (memo_candidates m)})
     \<and> set (root_groups (memo_query_roots m)) \<subseteq> {..<length (memo_candidates m)}"

definition walk_inv :: "memo \<Rightarrow> nat list \<Rightarrow> (nat \<rightharpoonup> nat) \<Rightarrow> bool" where
  "walk_inv m pending chosen \<longleftrightarrow>
     in_range m chosen \<and> acyclic (chosen_reads m chosen)
     \<and> set pending \<subseteq> {..<length (memo_candidates m)}
     \<and> chosen_reads m chosen `` dom chosen \<subseteq> dom chosen \<union> set pending"

lemma chosen_inputs_reads:
  "in_range m chosen \<Longrightarrow> \<exists>inputs. chosen_inputs m chosen g = Some inputs \<and> set inputs = chosen_reads m chosen `` {g}"
  by (cases "chosen g") (auto simp: chosen_inputs_def chosen_reads_def in_range_def get_def)

lemma reads_in_range:
  assumes "in_range m chosen" "inputs_closed m" "(g, h) \<in> chosen_reads m chosen"
  shows "h < length (memo_candidates m)"
proof -
  obtain i where i: "chosen g = Some i" "h \<in> set (input_groups (memo_candidates m ! g ! i))"
    using assms(3) by (auto simp: chosen_reads_def)
  then have "memo_candidates m ! g \<in> set (memo_candidates m)" "memo_candidates m ! g ! i \<in> set (memo_candidates m ! g)"
    using assms(1) by (auto simp: in_range_def)
  with i(2) assms(2) show ?thesis by (auto simp: inputs_closed_def)
qed

lemma leaves_seen:
  assumes "(a, b) \<in> r\<^sup>*" "a \<in> S" "b \<notin> S" "r `` S \<subseteq> S \<union> P"
  shows "\<exists>x \<in> P. (x, b) \<in> r\<^sup>*"
  using assms
proof (induction rule: converse_rtrancl_induct)
  case (step y z)
  then show ?case by (cases "z \<in> S") auto
qed simp

lemma reaches_spec:
  assumes range: "in_range m chosen" and closed: "inputs_closed m"
  defines "r \<equiv> chosen_reads m chosen" and "n \<equiv> length (memo_candidates m)"
  shows "set pending \<subseteq> {..<n} \<Longrightarrow> seen \<subseteq> {..<n} \<Longrightarrow> to \<notin> seen \<Longrightarrow> r `` seen \<subseteq> seen \<union> set pending \<Longrightarrow>
    reaches m chosen to pending seen = Some (\<exists>a \<in> set pending. (a, to) \<in> r\<^sup>*)"
proof (induction "(card ({..<n} - seen), length pending)" arbitrary: pending seen
    rule: wf_induct_rule[OF wf_lex_prod[OF wf_less_than wf_less_than]])
  case 1
  show ?case
  proof (cases pending rule: rev_cases)
    case Nil
    then show ?thesis by (subst reaches.simps) simp
  next
    case (snoc rest a)
    consider "a = to" | "a \<noteq> to" "a \<in> seen" | "a \<noteq> to" "a \<notin> seen" by blast
    then show ?thesis
    proof cases
      case 1
      then show ?thesis by (subst reaches.simps) (use snoc in auto)
    next
      case 2
      have less: "((card ({..<n} - seen), length rest), (card ({..<n} - seen), length pending)) \<in> less_than <*lex*> less_than"
        using snoc by simp
      have ok: "set rest \<subseteq> {..<n}" "r `` seen \<subseteq> seen \<union> set rest"
        using "1"(2,5) snoc 2 by auto
      have "reaches m chosen to rest seen = Some (\<exists>a \<in> set rest. (a, to) \<in> r\<^sup>*)"
        using "1"(1) [OF less ok(1) "1"(3,4) ok(2)] .
      moreover have "(\<exists>b \<in> set rest. (b, to) \<in> r\<^sup>*) \<longleftrightarrow> (\<exists>b \<in> set pending. (b, to) \<in> r\<^sup>*)"
        using leaves_seen [OF _ 2(2) "1"(4) ok(2)] snoc by auto
      moreover have "reaches m chosen to pending seen = reaches m chosen to rest seen"
        by (subst reaches.simps) (simp add: snoc 2)
      ultimately show ?thesis by (simp only:)
    next
      case 3
      obtain inputs where inputs: "chosen_inputs m chosen a = Some inputs" "set inputs = r `` {a}"
        using chosen_inputs_reads [OF range] unfolding r_def by blast
      have a: "a < n" using "1"(2) snoc by simp
      have "card ({..<n} - insert a seen) < card ({..<n} - seen)"
        using 3 a by (intro psubset_card_mono) auto
      then have less: "((card ({..<n} - insert a seen), length (rest @ inputs)), (card ({..<n} - seen), length pending))
          \<in> less_than <*lex*> less_than" by simp
      have "r `` {a} \<subseteq> {..<n}"
        using reads_in_range [OF range closed] by (auto simp: r_def n_def)
      then have ok: "set (rest @ inputs) \<subseteq> {..<n}" "insert a seen \<subseteq> {..<n}" "to \<notin> insert a seen"
        using "1"(2-4) snoc 3 a inputs(2) by auto
      have edges: "r `` insert a seen \<subseteq> insert a seen \<union> set (rest @ inputs)"
      proof -
        have "r `` insert a seen = r `` {a} \<union> r `` seen" by blast
        then show ?thesis using "1"(5) snoc inputs(2) by auto
      qed
      have "reaches m chosen to (rest @ inputs) (insert a seen) = Some (\<exists>a \<in> set (rest @ inputs). (a, to) \<in> r\<^sup>*)"
        using "1"(1) [OF less ok edges] .
      moreover have "(a, to) \<in> r\<^sup>* \<longleftrightarrow> (\<exists>b \<in> set inputs. (b, to) \<in> r\<^sup>*)"
        unfolding inputs(2) using 3(1) by (auto elim: converse_rtranclE intro: converse_rtrancl_into_rtrancl)
      then have "(\<exists>b \<in> set (rest @ inputs). (b, to) \<in> r\<^sup>*) \<longleftrightarrow> (\<exists>b \<in> set pending. (b, to) \<in> r\<^sup>*)"
        using snoc by auto
      moreover have "reaches m chosen to pending seen = reaches m chosen to (rest @ inputs) (insert a seen)"
        by (subst reaches.simps) (simp add: snoc 3 inputs(1))
      ultimately show ?thesis by (simp only:)
    qed
  qed
qed

section \<open>What the walk finds\<close>

lemma reads_map_le: "chosen \<subseteq>\<^sub>m c \<Longrightarrow> chosen_reads m chosen \<subseteq> chosen_reads m c"
  by (auto simp: chosen_reads_def map_le_def dom_def)

lemma reads_extend:
  "chosen g = None \<Longrightarrow> chosen_reads m (chosen(g \<mapsto> i))
     = chosen_reads m chosen \<union> {g} \<times> set (input_groups (memo_candidates m ! g ! i))"
  by (auto simp: chosen_reads_def split: if_splits)

lemma reads_same: "chosen \<subseteq>\<^sub>m c \<Longrightarrow> chosen_reads m c `` dom chosen = chosen_reads m chosen `` dom chosen"
  by (fastforce simp: chosen_reads_def map_le_def dom_def)

lemma completions_none:
  assumes "walk_inv m [] chosen"
  shows "completions m [] chosen = {chosen}"
proof -
  have "c = chosen" if "c \<in> completions m [] chosen" for c
  proof -
    have "chosen \<subseteq>\<^sub>m c" "dom c \<subseteq> dom chosen"
      using that by (auto simp: completions_def)
    then show ?thesis
      by (intro map_le_antisym) (metis map_le_def subsetD)+
  qed
  moreover have "chosen \<in> completions m [] chosen"
    using assms by (simp add: completions_def walk_inv_def)
  ultimately show ?thesis by blast
qed

lemma completions_skip:
  assumes inv: "walk_inv m (rest @ [g]) chosen" and g: "chosen g \<noteq> None"
  shows "completions m (rest @ [g]) chosen = completions m rest chosen" and "walk_inv m rest chosen"
proof -
  have in_dom: "g \<in> dom chosen" using g by auto
  have closed: "chosen_reads m chosen `` dom chosen \<subseteq> dom chosen \<union> set rest"
  proof -
    have "dom chosen \<union> set (rest @ [g]) = dom chosen \<union> set rest"
      using in_dom by auto
    then show ?thesis
      using inv by (simp add: walk_inv_def)
  qed
  then show "walk_inv m rest chosen"
    using inv by (auto simp: walk_inv_def)
  show "completions m (rest @ [g]) chosen = completions m rest chosen"
  proof (intro equalityI subsetI)
    fix c
    assume c: "c \<in> completions m (rest @ [g]) chosen"
    let ?r = "chosen_reads m c"
    have le: "chosen \<subseteq>\<^sub>m c" using c by (simp add: completions_def)
    have "x \<in> dom chosen \<union> ?r\<^sup>* `` set rest" if "x \<in> dom c" for x
    proof -
      have "x \<in> dom chosen \<union> ?r\<^sup>* `` set (rest @ [g])"
        using c that unfolding completions_def by blast
      then consider "x \<in> dom chosen \<union> ?r\<^sup>* `` set rest" | "(g, x) \<in> ?r\<^sup>*" "x \<notin> dom chosen"
        by (cases "x \<in> dom chosen \<union> ?r\<^sup>* `` set rest") auto
      then show ?thesis
      proof cases
        case 2
        have "?r `` dom chosen \<subseteq> dom chosen \<union> set rest"
          using closed reads_same [OF le] by simp
        from leaves_seen [OF 2(1) in_dom 2(2) this] show ?thesis by blast
      qed
    qed
    with c show "c \<in> completions m rest chosen"
      by (auto simp: completions_def)
  next
    fix c
    assume c: "c \<in> completions m rest chosen"
    then have "g \<in> dom c"
      using in_dom by (auto simp: completions_def dest: map_le_implies_dom_le)
    with c show "c \<in> completions m (rest @ [g]) chosen"
      by (auto simp: completions_def)
  qed
qed

lemma absorbed: "A \<subseteq> insert g D \<union> (X \<union> Y) \<Longrightarrow> g \<in> G \<Longrightarrow> Y \<subseteq> G \<Longrightarrow> A \<subseteq> D \<union> (X \<union> G)"
  by blast

lemma completions_choose:
  fixes m :: memo
  assumes g: "chosen g = None"
  defines "inputs \<equiv> \<lambda>i. input_groups (memo_candidates m ! g ! i)"
  shows "completions m (rest @ [g]) chosen
    = (\<Union>i < length (memo_candidates m ! g). completions m (rest @ rev (inputs i)) (chosen(g \<mapsto> i)))"
proof (intro equalityI subsetI)
  fix c
  assume c: "c \<in> completions m (rest @ [g]) chosen"
  let ?r = "chosen_reads m c"
  obtain i where i: "c g = Some i"
    using c by (auto simp: completions_def)
  have lt: "i < length (memo_candidates m ! g)"
    using c i by (auto simp: completions_def in_range_def)
  have reads: "?r `` {g} = set (inputs i)"
    using i by (auto simp: chosen_reads_def inputs_def)
  have "(?r)\<^sup>* `` {g} \<subseteq> insert g (?r\<^sup>* `` set (inputs i))"
    using reads by (auto elim: converse_rtranclE)
  moreover have "set (inputs i) \<subseteq> dom c"
  proof -
    have "?r `` dom c \<subseteq> dom c" "g \<in> dom c"
      using c i by (auto simp: completions_def)
    then show ?thesis using reads by blast
  qed
  ultimately have "c \<in> completions m (rest @ rev (inputs i)) (chosen(g \<mapsto> i))"
    using c i by (auto simp: completions_def map_le_def Image_Un)
  with lt show "c \<in> (\<Union>i < length (memo_candidates m ! g). completions m (rest @ rev (inputs i)) (chosen(g \<mapsto> i)))"
    by blast
next
  fix c
  assume "c \<in> (\<Union>i < length (memo_candidates m ! g). completions m (rest @ rev (inputs i)) (chosen(g \<mapsto> i)))"
  then obtain i where c: "c \<in> completions m (rest @ rev (inputs i)) (chosen(g \<mapsto> i))"
    by blast
  let ?r = "chosen_reads m c"
  have i: "c g = Some i" and le: "chosen \<subseteq>\<^sub>m c"
    using c g by (auto simp: completions_def map_le_def dom_def split: if_splits)
  have "?r `` {g} = set (inputs i)"
    using i by (auto simp: chosen_reads_def inputs_def)
  then have below: "?r\<^sup>* `` set (inputs i) \<subseteq> ?r\<^sup>* `` {g}"
    by (auto intro: converse_rtrancl_into_rtrancl)
  have split: "?r\<^sup>* `` set (rest @ [g]) = ?r\<^sup>* `` set rest \<union> ?r\<^sup>* `` {g}"
    "?r\<^sup>* `` set (rest @ rev (inputs i)) = ?r\<^sup>* `` set rest \<union> ?r\<^sup>* `` set (inputs i)"
    "dom (chosen(g \<mapsto> i)) = insert g (dom chosen)"
    by auto
  have "dom c \<subseteq> insert g (dom chosen) \<union> (?r\<^sup>* `` set rest \<union> ?r\<^sup>* `` set (inputs i))"
    using c unfolding completions_def split mem_Collect_eq by (elim conjE)
  moreover have "g \<in> ?r\<^sup>* `` {g}" by auto
  ultimately have within: "dom c \<subseteq> dom chosen \<union> ?r\<^sup>* `` set (rest @ [g])"
    unfolding split using below by (rule absorbed)
  have parts: "in_range m c" "acyclic ?r" "set (rest @ rev (inputs i)) \<subseteq> dom c" "?r `` dom c \<subseteq> dom c"
    using c unfolding completions_def by blast+
  have "set (rest @ [g]) \<subseteq> dom c"
    using parts(3) i by auto
  with le parts(1,2,4) within show "c \<in> completions m (rest @ [g]) chosen"
    unfolding completions_def by blast
qed

text \<open>A candidate that closes a cycle completes nothing; any other keeps the invariant.\<close>

lemma acyclic_fan:
  assumes "acyclic r" "finite C" "\<forall>x \<in> C. (x, g) \<notin> r\<^sup>*"
  shows "acyclic (r \<union> {g} \<times> C) \<and> (\<forall>x. (x, g) \<in> (r \<union> {g} \<times> C)\<^sup>* \<longrightarrow> (x, g) \<in> r\<^sup>*)"
  using assms(2,3)
proof (induction C rule: finite_induct)
  case empty
  then show ?case using assms(1) by simp
next
  case (insert x C)
  let ?r = "r \<union> {g} \<times> C"
  have eq: "r \<union> {g} \<times> insert x C = insert (g, x) ?r" by auto
  have ih: "acyclic ?r" "\<And>y. (y, g) \<in> ?r\<^sup>* \<Longrightarrow> (y, g) \<in> r\<^sup>*"
    using insert by auto
  have "(x, g) \<notin> ?r\<^sup>*"
    using ih(2) [of x] insert.prems by auto
  then have "acyclic (insert (g, x) ?r)"
    using ih(1) by (simp add: acyclic_insert)
  moreover have "(y, g) \<in> r\<^sup>*" if "(y, g) \<in> (insert (g, x) ?r)\<^sup>*" for y
    using that ih(2) unfolding rtrancl_insert by auto
  ultimately show ?case unfolding eq by blast
qed

lemma completions_cycle:
  assumes "chosen g = None" "x \<in> set (input_groups (memo_candidates m ! g ! i))" "(x, g) \<in> (chosen_reads m chosen)\<^sup>*"
  shows "completions m pending (chosen(g \<mapsto> i)) = {}"
proof -
  have "\<not> acyclic (chosen_reads m c)" if "chosen(g \<mapsto> i) \<subseteq>\<^sub>m c" for c
  proof -
    have "(g, x) \<in> chosen_reads m (chosen(g \<mapsto> i))" "(x, g) \<in> (chosen_reads m (chosen(g \<mapsto> i)))\<^sup>*"
      using assms reads_extend [of chosen g m i] by (auto intro: rtrancl_mono [THEN subsetD])
    then have "(g, x) \<in> chosen_reads m c" "(x, g) \<in> (chosen_reads m c)\<^sup>*"
      using reads_map_le [OF that] rtrancl_mono by blast+
    then show ?thesis
      by (auto simp: acyclic_def dest: rtrancl_into_trancl2)
  qed
  then show ?thesis by (auto simp: completions_def)
qed

lemma walk_inv_choose:
  assumes inv: "walk_inv m (rest @ [g]) chosen" and g: "chosen g = None" and i: "i < length (memo_candidates m ! g)"
    and closed: "inputs_closed m"
    and free: "\<forall>x \<in> set (input_groups (memo_candidates m ! g ! i)). (x, g) \<notin> (chosen_reads m chosen)\<^sup>*"
  shows "walk_inv m (rest @ rev (input_groups (memo_candidates m ! g ! i))) (chosen(g \<mapsto> i))"
proof -
  let ?C = "set (input_groups (memo_candidates m ! g ! i))" and ?r = "chosen_reads m chosen"
  have range: "in_range m (chosen(g \<mapsto> i))"
    using inv i by (auto simp: in_range_def walk_inv_def)
  moreover have "acyclic (chosen_reads m (chosen(g \<mapsto> i)))"
    unfolding reads_extend [of chosen g m i, OF g] using acyclic_fan [of ?r ?C g] inv free by (simp add: walk_inv_def)
  moreover have "?C \<subseteq> {..<length (memo_candidates m)}"
    using reads_in_range [OF range closed, of g] reads_extend [of chosen g m i, OF g] by auto
  moreover have "chosen_reads m (chosen(g \<mapsto> i)) `` dom (chosen(g \<mapsto> i)) \<subseteq> insert g (dom chosen) \<union> (set rest \<union> ?C)"
  proof -
    have grow: "A \<subseteq> R \<union> E \<union> C \<Longrightarrow> E = {} \<Longrightarrow> R \<subseteq> D \<union> insert g X \<Longrightarrow> A \<subseteq> insert g D \<union> (X \<union> C)" for A R E C D X :: "nat set"
      by blast
    have "g \<notin> dom chosen" using g by auto
    then have "chosen_reads m (chosen(g \<mapsto> i)) `` dom (chosen(g \<mapsto> i)) \<subseteq> ?r `` dom chosen \<union> ?r `` {g} \<union> ?C"
      unfolding reads_extend [of chosen g m i, OF g] by auto
    moreover have "?r `` {g} = {}"
      using g by (auto simp: chosen_reads_def)
    moreover have "?r `` dom chosen \<subseteq> dom chosen \<union> insert g (set rest)"
      using inv by (simp add: walk_inv_def)
    ultimately show ?thesis by (rule grow)
  qed
  moreover have "set rest \<subseteq> {..<length (memo_candidates m)}"
    using inv by (simp add: walk_inv_def)
  ultimately show ?thesis by (simp add: walk_inv_def)
qed

section \<open>The walk finds each completion once\<close>

definition cut_at :: "nat \<Rightarrow> 'a list \<Rightarrow> 'a list \<Rightarrow> bool \<times> 'a list" where
  "cut_at limit found new =
     (if length found + length new \<le> limit then (True, found @ new) else (False, take limit (found @ new)))"

lemma cut_simps:
  "length found \<le> limit \<Longrightarrow> cut_at limit found [] = (True, found)"
  "length found \<le> limit \<Longrightarrow> cut_at limit found [x] = (if length found = limit then (False, found) else (True, found @ [x]))"
  by (auto simp: cut_at_def)

lemma cut_append:
  assumes "length found \<le> limit" and "cut_at limit found xs = (finished, found')"
  shows "finished \<Longrightarrow> length found' \<le> limit \<and> cut_at limit found (xs @ ys) = cut_at limit found' ys"
    and "\<not> finished \<Longrightarrow> cut_at limit found (xs @ ys) = (False, found')"
  using assms by (auto simp: cut_at_def split: if_splits)

definition finds :: "((nat \<rightharpoonup> nat) list \<Rightarrow> nat \<Rightarrow> (bool \<times> (nat \<rightharpoonup> nat) list) option) \<Rightarrow> (nat \<rightharpoonup> nat) set \<Rightarrow> bool" where
  "finds run C \<longleftrightarrow>
     (\<exists>L. distinct L \<and> set L = C \<and> (\<forall>limit found. length found \<le> limit \<longrightarrow> run found limit = Some (cut_at limit found L)))"

lemma choose_finds:
  fixes m :: memo
  assumes closed: "inputs_closed m" and inv: "walk_inv m (rest @ [g]) chosen" and g: "chosen g = None"
    and each: "\<And>i. walk_inv m (rest @ rev (input_groups (memo_candidates m ! g ! i))) (chosen(g \<mapsto> i)) \<Longrightarrow>
      finds (\<lambda>found limit. walk m limit (rest @ rev (input_groups (memo_candidates m ! g ! i))) (chosen(g \<mapsto> i)) found)
        (completions m (rest @ rev (input_groups (memo_candidates m ! g ! i))) (chosen(g \<mapsto> i)))"
  shows "cs = drop i (memo_candidates m ! g) \<Longrightarrow>
    finds (\<lambda>found limit. choose_candidate m limit rest chosen g i cs found)
      (\<Union>j \<in> {i..<length (memo_candidates m ! g)}. completions m (rest @ rev (input_groups (memo_candidates m ! g ! j))) (chosen(g \<mapsto> j)))"
proof (induction cs arbitrary: i)
  case Nil
  then have "{i..<length (memo_candidates m ! g)} = {}" by simp
  then show ?case by (auto simp: finds_def cut_simps)
next
  case (Cons c cs)
  let ?n = "length (memo_candidates m ! g)"
  let ?comp = "\<lambda>j. completions m (rest @ rev (input_groups (memo_candidates m ! g ! j))) (chosen(g \<mapsto> j))"
  have lt: "i < ?n"
    using Cons.prems by (metis drop_eq_Nil list.distinct(1) not_le_imp_less)
  have "memo_candidates m ! g ! i # drop (Suc i) (memo_candidates m ! g) = c # cs"
    using Cons_nth_drop_Suc [OF lt] Cons.prems by simp
  then have i: "memo_candidates m ! g ! i = c" "cs = drop (Suc i) (memo_candidates m ! g)"
    by simp_all
  obtain L' where L': "distinct L'" "set L' = (\<Union>j \<in> {Suc i..<?n}. ?comp j)"
    "\<And>limit found. length found \<le> limit \<Longrightarrow> choose_candidate m limit rest chosen g (Suc i) cs found = Some (cut_at limit found L')"
    using Cons.IH [OF i(2)] unfolding finds_def by blast
  have union: "(\<Union>j \<in> {i..<?n}. ?comp j) = ?comp i \<union> (\<Union>j \<in> {Suc i..<?n}. ?comp j)"
  proof -
    have "{i..<?n} = insert i {Suc i..<?n}" using lt by auto
    then show ?thesis by simp
  qed
  have range: "in_range m chosen" and bound: "g < length (memo_candidates m)"
    using inv by (auto simp: walk_inv_def)
  have "memo_candidates m ! g \<in> set (memo_candidates m)" "c \<in> set (memo_candidates m ! g)"
    using bound lt i(1) nth_mem by blast+
  then have "set (input_groups c) \<subseteq> {..<length (memo_candidates m)}"
    using closed unfolding inputs_closed_def by blast
  then have cycle: "any_opt (\<lambda>child. reaches m chosen g [child] {}) (input_groups c)
      = Some (\<exists>x \<in> set (input_groups c). (x, g) \<in> (chosen_reads m chosen)\<^sup>*)"
    using reaches_spec [OF range closed, of "[x]" "{}" g for x] by (intro any_opt_total) auto
  show ?case
  proof (cases "\<exists>x \<in> set (input_groups c). (x, g) \<in> (chosen_reads m chosen)\<^sup>*")
    case True
    then have "?comp i = {}"
      using completions_cycle [of chosen g _ m i, OF g] i(1) by auto
    moreover have "choose_candidate m limit rest chosen g i (c # cs) found
        = choose_candidate m limit rest chosen g (Suc i) cs found" for limit found
      by (simp add: cycle True)
    ultimately show ?thesis
      unfolding union finds_def using L' by auto
  next
    case False
    have "walk_inv m (rest @ rev (input_groups (memo_candidates m ! g ! i))) (chosen(g \<mapsto> i))"
      using walk_inv_choose [OF inv g lt closed] False i(1) by simp
    from each [OF this] obtain L where L: "distinct L" "set L = ?comp i"
      "\<And>limit found. length found \<le> limit \<Longrightarrow>
        walk m limit (rest @ rev (input_groups c)) (chosen(g \<mapsto> i)) found = Some (cut_at limit found L)"
      by (auto simp: finds_def i(1))
    have named: "x g = Some j" if "x \<in> ?comp j" for x j
      using that by (auto simp: completions_def map_le_def)
    have "set L \<inter> set L' = {}"
    proof -
      have "x \<notin> ?comp j" if "x \<in> ?comp i" "j \<in> {Suc i..<?n}" for x j
        using named [of x i] named [of x j] that by auto
      then show ?thesis unfolding L(2) L'(2) by blast
    qed
    moreover have "choose_candidate m limit rest chosen g i (c # cs) found = Some (cut_at limit found (L @ L'))"
      if len: "length found \<le> limit" for limit found
    proof -
      obtain finished found' where first: "cut_at limit found L = (finished, found')"
        by (cases "cut_at limit found L")
      then show ?thesis
        using L(3) [OF len] L'(3) cut_append [OF len first, of L'] False cycle by (cases finished) auto
    qed
    ultimately show ?thesis
      unfolding union finds_def using L(1,2) L'(1,2) by (intro exI [of _ "L @ L'"]) auto
  qed
qed

lemma walk_finds:
  assumes closed: "inputs_closed m"
  shows "walk_inv m pending chosen \<Longrightarrow>
    finds (\<lambda>found limit. walk m limit pending chosen found) (completions m pending chosen)"
proof (induction "(card ({..<length (memo_candidates m)} - dom chosen), length pending)" arbitrary: pending chosen
    rule: wf_induct_rule[OF wf_lex_prod[OF wf_less_than wf_less_than]])
  case 1
  let ?n = "length (memo_candidates m)"
  show ?case
  proof (cases pending rule: rev_cases)
    case Nil
    then have "completions m pending chosen = set [chosen]"
      using completions_none "1"(2) by simp
    moreover have "walk m limit pending chosen found = Some (cut_at limit found [chosen])" if "length found \<le> limit" for limit found
      using that Nil by (subst walk.simps) (simp add: cut_simps)
    ultimately show ?thesis
      unfolding finds_def by (intro exI [of _ "[chosen]"]) simp
  next
    case (snoc rest g)
    note inv = "1"(2) [unfolded snoc]
    show ?thesis
    proof (cases "chosen g")
      case (Some i)
      have less: "((card ({..<?n} - dom chosen), length rest), (card ({..<?n} - dom chosen), length pending))
          \<in> less_than <*lex*> less_than" using snoc by simp
      have "walk m limit pending chosen found = walk m limit rest chosen found" for limit found
        by (subst walk.simps) (simp add: snoc Some)
      then show ?thesis
        using "1"(1) [OF less] completions_skip [OF inv] Some snoc by simp
    next
      case None
      have bound: "g < ?n"
        using inv by (simp add: walk_inv_def)
      have smaller: "card ({..<?n} - dom (chosen(g \<mapsto> i))) < card ({..<?n} - dom chosen)" for i
        using None bound by (intro psubset_card_mono) auto
      have "finds (\<lambda>found limit. walk m limit (rest @ rev (input_groups (memo_candidates m ! g ! i))) (chosen(g \<mapsto> i)) found)
          (completions m (rest @ rev (input_groups (memo_candidates m ! g ! i))) (chosen(g \<mapsto> i)))"
        if "walk_inv m (rest @ rev (input_groups (memo_candidates m ! g ! i))) (chosen(g \<mapsto> i))" for i
        by (rule "1"(1)) (use smaller [of i] that in auto)
      from choose_finds [OF closed inv None this, of "memo_candidates m ! g" 0]
      have "finds (\<lambda>found limit. choose_candidate m limit rest chosen g 0 (memo_candidates m ! g) found)
          (completions m (rest @ [g]) chosen)"
        unfolding completions_choose [of chosen g, OF None] by (simp add: atLeast0LessThan)
      moreover have "walk m limit pending chosen found
          = choose_candidate m limit rest chosen g 0 (memo_candidates m ! g) found" for limit found
        using bound by (subst walk.simps) (simp add: snoc None get_def)
      ultimately show ?thesis by (simp add: snoc)
    qed
  qed
qed

lemma completions_choice:
  "completions m (rev (root_groups (memo_query_roots m))) Map.empty = {c. is_choice m c}"
proof (intro equalityI subsetI)
  fix c
  assume c: "c \<in> completions m (rev (root_groups (memo_query_roots m))) Map.empty"
  let ?r = "chosen_reads m c" and ?roots = "set (root_groups (memo_query_roots m))"
  have "?r `` dom c \<subseteq> dom c" "?roots \<subseteq> dom c" "dom c \<subseteq> ?r\<^sup>* `` ?roots"
    using c by (auto simp: completions_def)
  moreover have "?r\<^sup>* `` ?roots \<subseteq> dom c"
    using closed_rtrancl [OF calculation(1)] calculation(2) by blast
  ultimately show "c \<in> {c. is_choice m c}"
    using c by (auto simp: completions_def is_choice_def)
next
  fix c
  assume c: "c \<in> {c. is_choice m c}"
  let ?r = "chosen_reads m c" and ?roots = "set (root_groups (memo_query_roots m))"
  have "?r `` (?r\<^sup>* `` ?roots) \<subseteq> ?r\<^sup>* `` ?roots" "?roots \<subseteq> ?r\<^sup>* `` ?roots"
    by (auto intro: rtrancl_into_rtrancl)
  with c show "c \<in> completions m (rev (root_groups (memo_query_roots m))) Map.empty"
    by (simp add: completions_def is_choice_def)
qed

text \<open>
  C12: The enumeration lists the choices of a memo: each once, every one when the limit admits them all, and the first
  \<open>limit\<close> of them otherwise; it reports itself complete exactly when nothing was cut. Candidates that would read each
  other in a cycle are never chosen together, and the search always returns.
\<close>

theorem enumerate_lists_choices:
  assumes "inputs_closed m"
  shows "\<exists>choices. distinct choices \<and> set choices = {c. is_choice m c}
    \<and> (\<forall>limit. enumerate_choices m limit = Some (length choices \<le> limit, take limit choices))"
proof -
  have "walk_inv m (rev (root_groups (memo_query_roots m))) Map.empty"
    using assms by (auto simp: walk_inv_def in_range_def inputs_closed_def chosen_reads_def acyclic_def)
  from walk_finds [OF assms this, unfolded completions_choice] show ?thesis
    by (auto simp: finds_def enumerate_choices_def cut_at_def)
qed

text \<open>
  A coarse group that may be rolled up from a finer one, whose second candidate reads the coarse group: taking both closes a cycle.
\<close>

definition rollup_memo :: memo where
  "rollup_memo =
     (let node = \<lparr>logical_node = sample_scan, child_groups = [], parent_groups = [], reached_by_queries = []\<rparr>;
          reading = (\<lambda>reads. \<lparr>fused_groups = [], candidate_root = sample_scan, input_groups = reads,
                             candidate_origin = RollupOrigin, accuracy_budget_parts = 1\<rparr>)
      in \<lparr>memo_groups = [node, node], memo_query_roots = [OperatorRoot 0],
          memo_candidates = [[reading [], reading [1]], [reading [], reading [0]]]\<rparr>)"

lemma rollup_memo_closed: "inputs_closed rollup_memo"
  by (simp add: inputs_closed_def rollup_memo_def root_groups_def Let_def)

theorem enumerate_lists_choices_witness:
  "\<exists>choices. distinct choices \<and> set choices = {c. is_choice rollup_memo c} \<and> length choices = 2
    \<and> enumerate_choices rollup_memo 5 = Some (True, choices)"
proof -
  obtain choices where c: "distinct choices" "set choices = {c. is_choice rollup_memo c}"
    "\<forall>limit. enumerate_choices rollup_memo limit = Some (length choices \<le> limit, take limit choices)"
    using enumerate_lists_choices [OF rollup_memo_closed] by blast
  have found: "map_option (\<lambda>(finished, found). (finished, length found)) (enumerate_choices rollup_memo 5) = Some (True, 2)"
    by code_simp
  then have "length choices \<le> 5" "length choices = 2"
    using c(3) [rule_format, of 5] by (auto simp: min_def split: if_splits)
  with c show ?thesis by (intro exI [of _ choices]) simp
qed

end
