(* ===== verification/Decode.thy ===== *)
theory Decode
  imports SelectedDag
begin

text \<open>
  Decoding the solution of the selection's integer program (\<^verbatim>\<open>plan-selection/src/milp/decode.rs\<close>, with the inputs it
  reads of \<^verbatim>\<open>groups.rs\<close>): the chosen candidates of each execution context become a DAG with one node per run. The
  solver and the program it solves are not modelled: any choice is decoded. Error messages leave out the ids they print.
\<close>

section \<open>Runs and contexts\<close>


datatype 'w ingestion_pipeline = WindowPipeline 'w | AlonePipeline nat




text \<open>The slot of a candidate: its group at a depth, or its operator node alone.\<close>

datatype result_slot = GroupSlot nat nat | PrivateNode nat






section \<open>What a run reads\<close>






section \<open>The DAG\<close>






section \<open>What decoding promises\<close>










section \<open>The runs are numbered\<close>





section \<open>The decoded DAG\<close>















section \<open>The property\<close>


section \<open>A solution\<close>







end
