(* ===== verification/Spec2Isabelle.thy ===== *)
theory Spec2Isabelle
  imports DagProps Candidates SelectedDag Stage0Props ExecKeys ProducerProps SortOperator PairJoin Windows PruningLaws Enumeration Decode
begin

text \<open>
  A verification library for the ASAP planner: its operator DAG, the stages that number and share it, the
  timing pass, the structural checks of what later stages select, and the core of the executor that runs the result.

  The program. Frontends lower a workload of queries onto one operator DAG (\<^verbatim>\<open>crates/types/src/ir\<close>): logical
  operators over relations and time series, and ASAP operators over summary states. Stage 0
  (\<^verbatim>\<open>crates/logical-asap-optimization/src/stage0\<close>) shares equal sub-DAGs and numbers what is left as memo
  groups; later passes add candidate implementations to the groups, read the memo in a dependency order
  (\<^verbatim>\<open>crates/types/src/stages\<close>), list physical candidates in a catalog, and select one DAG of runs of candidates,
  which is checked against the catalog. Finally the timing pass (\<^verbatim>\<open>ir/properties/timing.rs\<close>) places every node at
  ingestion or at query time and checks every edge of the result. The executor (\<^verbatim>\<open>crates/executor\<close>) runs a physical
  plan as streams of Arrow batches: values are grouped by the bytes of their keys and ordered by a total order.

  How the model reads. Nodes are immutable and shared through \<^verbatim>\<open>Rc\<close>: a node carries its address as
  \<open>node_id\<close>, and a set of nodes in which an address names one node is \<open>coherent\<close>; tables keyed by \<^verbatim>\<open>Rc::as_ptr\<close> are
  maps from addresses, and an allocation takes the next free address. State that the code mutates is passed
  explicitly; \<^verbatim>\<open>Result\<close> is a sum with the error on the left, and an \<^verbatim>\<open>expect\<close>, an index out of range or a missing key
  is a value of its own (\<open>Panicked\<close>, \<open>SelectionPanicked\<close>, \<open>None\<close>), so that freedom from panics is a theorem. \<^verbatim>\<open>f64\<close> is
  its 64 bits with IEEE equality; a \<^verbatim>\<open>u32\<close> id is a number reduced modulo \<open>2 ^ 32\<close>. Loops over worklists are
  \<open>partial_function (option)\<close> and shown to return; every other recursion has a termination proof by the height of
  the DAG, so no definition takes fuel. The loop over a grid of instants is a \<open>partial_function\<close> too.

  Theories, from the bottom.
  \<^item> Prelude, F64: lists, options, stateful loops; the bits of a double.
  \<^item> Sketch, Schema, Capability (\<^verbatim>\<open>ir/schema\<close>): summary families, fields and schemas, what a family can merge.
  \<^item> Scalar (\<^verbatim>\<open>ir/scalar\<close>), Accuracy (\<^verbatim>\<open>ir/properties/accuracy.rs\<close>, \<^verbatim>\<open>guarantee.rs\<close>), OpProps (\<^verbatim>\<open>ir/operator\<close>),
    DataState (\<^verbatim>\<open>execution_data_state.rs\<close>, \<^verbatim>\<open>materialization.rs\<close>): the values operators carry.
  \<^item> Operators, Traversals, Node, Equality, NodeOps, Population (\<^verbatim>\<open>ir/operator\<close>): the operators, their children and
    rebuilding map, nodes, derived equality as equality of canonical forms, traversals of a shared DAG.
  \<^item> Rebuild: the locale \<open>state_order\<close>, what a closure that mutates its state must promise for each child so that a
    rebuilt operator is the old one over related children. It is interpreted for the timing pass's writer, for
    interning, and for effect-free closures.
  \<^item> Timing, TimingLaws, TimingPass (\<^verbatim>\<open>ir/properties/timing.rs\<close>): the pass, its caches and its properties (C1 to C6).
  \<^item> DagProps: properties of the DAG, of guarantees, capabilities and populations (C7 to C9, C15).
  \<^item> Kahn, Memo (\<^verbatim>\<open>stages/memo.rs\<close>, \<^verbatim>\<open>candidates.rs\<close>): the locales \<open>worklist\<close> and \<open>min_worklist\<close>, the contract of the queue
    of ready indices, and Kahn's algorithm inside them; interpreted for the memo's binary heap and the validator's
    stack (C16, C17).
  \<^item> Enumeration (\<^verbatim>\<open>pass2/memo/enumeration.rs\<close>): the choices of one candidate per needed group that a memo stands
    for, against their declarative definition (C12).
  \<^item> Search: exploring a graph from a stack of pending nodes, shown to return what is reachable.
  \<^item> Candidates, SelectedDag (\<^verbatim>\<open>stages/physical\<close>): the catalog and its index (C18), the validator of a selected DAG
    against its declarative specification (C19, C20).
  \<^item> Pruning, PruningLaws (\<^verbatim>\<open>physical-asap-optimization/src/catalog\<close>): which candidates Stage 2 rules out before a
    selection, and that no accepted selection is lost by it (C14).
  \<^item> Decode (\<^verbatim>\<open>plan-selection/src/milp/decode.rs\<close>): the DAG of the solver's answer, one node per run of a candidate in
    an execution context, and that it passes the validator unless its runs read each other in a cycle (C10).
  \<^item> HashCons, HashConsLaws, SharingLaws, InternLaws, HashConsProps (\<^verbatim>\<open>stage0/cse.rs\<close>): hash-consing with its three
    caches; the caches hold what they cache, a node and its copy are \<open>similar\<close>, and the table's invariant: no
    node that may be shared follows one that is the same in its bucket, so no duplicate is left (C21 to C24). The text
    and the hash of a value are parameters (\<open>services\<close>) of which nothing is assumed.
  \<^item> Stage0, Stage0Laws, Stage0Props (\<^verbatim>\<open>stage0.rs\<close>): numbering, parents, queries and the group of every original
    node (C25 to C27).
  \<^item> ExecValue, ExecKeys (\<^verbatim>\<open>executor/values\<close>): runtime values, their type check and order, and the byte key that
    equates two values (C28).
  \<^item> ExecOrder, ExecSort (\<^verbatim>\<open>operators/sort.rs\<close>): the locale \<open>ordering_on\<close>, the laws of a total comparison and the
    combinators that keep them (reversal, nulls first or last, lexicographic), interpreted for doubles, values and
    keys; the merge sort is stable and complete (C29, C30).
  \<^item> GroupTable, GroupLaws, GroupNumbers (\<^verbatim>\<open>operators/group_table.rs\<close>, \<^verbatim>\<open>values/arrow_columns.rs\<close>): the layouts of Arrow
    columns and the group table, which numbers the distinct keys of rows as they first occur. The locale \<open>numbering\<close>
    is the contract of such a table; it is interpreted for a column's numbers and for the tuples of them (C31, C32).

  \<^item> GroupOrder, RowChunks: the groups in the order of their keys (C37); grouping a batch by chunks is grouping it.
  \<^item> Limit, SortOperator (\<^verbatim>\<open>operators/limit.rs\<close>, \<^verbatim>\<open>sort.rs\<close>): which rows a limit keeps of each group, whatever the
    batches (C38), and the order of the rows of a sort (C39).
  \<^item> Joins, PairJoin (\<^verbatim>\<open>operators/joins/mod.rs\<close>): the semi-join by key with its certified variant, over the
    group table (C11), and the nested-loop join from its construction to the output batch (C13). What the
    predicate answers for a pair, and for a column of pairs, is an argument.
  \<^item> Windows (\<^verbatim>\<open>operators/time_range.rs\<close>, \<^verbatim>\<open>series_window.rs\<close>): windows, anchors, the grid of a subquery (C40).
  \<^item> RunMemory (\<^verbatim>\<open>runtime/context.rs\<close>): the limits of a run and the account of its reservations (C33).
  \<^item> Producer, ProducerLaws, ProducerProps (\<^verbatim>\<open>runtime/mod.rs\<close>): the producer that shares one stream among its readers,
    as a step relation over polls, drops, cancellation and whatever else changes the run's control; its
    invariant; what readers see, progress under backpressure, and why every pending reader is woken (C34 to C36). All inputs
    are subscribed before the first poll, as \<^verbatim>\<open>execute\<close> does; what the node's stream answers to a poll is an argument of the poll.

  Bounds. Group ids are \<^verbatim>\<open>u32\<close>: C25 to C27 speak of workloads of at most \<open>2 ^ 32\<close> nodes, and C32 of a group table
  of at most \<open>2 ^ 32\<close> groups and keys of a column, as do C11, C37 and C38;
  C39 sorts fewer than \<open>2 ^ 32\<close> rows, which it numbers in \<^verbatim>\<open>u32\<close>; a subquery has at most 100001 instants. The bytes a value occupies (\<open>Value::bytes\<close> of a summary state) and the
  answers of a run to a reservation or to the check of its cancellation are parameters.

  Not modelled. Output schema derivation and scalar typing, the numeric side of accuracy and cost (floating-point
  arithmetic), candidate generation (Pass 1, Pass 2), the integer program of plan selection and its external solver, the
  frontends (translations of third-party syntax trees) and serialization. Of the executor: scalar expressions and
  aggregates (floating-point arithmetic on Arrow arrays), the range functions of PromQL, the summary kernels (third-party
  sketches), building the producers of a DAG, the physical planner and the sources.
\<close>

end
